(* ===== verification/Odl_Prelude.thy ===== *)
theory Odl_Prelude
  imports Main "HOL-Library.Word" "HOL-Library.Monad_Syntax"
begin

text \<open>
  Shared vocabulary of the development: the C integer types, the error numbers, the
  constants of \<open>driver/uapi/odl_tb5_uapi.h\<close> and \<open>driver/odl_tb5_core.h\<close>, byte-level memory
  access and little-endian encoding, and the list lemmas the components share.

  Conventions used by every theory:
  \<^item> a C function that returns a negative error number returns \<open>Inl e\<close>, success is \<open>Inr\<close>;
  \<^item> a function whose C code can dereference NULL or run past an array returns an
    \<open>option\<close>, and \<open>None\<close> means exactly that: the C code has undefined behaviour there;
  \<^item> results of the kernel, the Thunderbolt core and the hardware (allocation results, ring
    submission results, wake-ups, completions) are arguments of the model.
\<close>

unbundle bit_operations_syntax

named_theorems driver_consts \<open>the numeric constants of the driver\<close>

section \<open>Integer types and error numbers\<close>

type_synonym byte = "8 word"
type_synonym u8 = "8 word"
type_synonym u16 = "16 word"
type_synonym u32 = "32 word"
type_synonym u64 = "64 word"

datatype errno =
    EPERM | ENOENT | EINTR | EIO | EAGAIN | ENOMEM | EFAULT | EBUSY | ENODEV | EINVAL | ENOTTY
  | ENOSPC | EPROTO | EOPNOTSUPP | ESHUTDOWN | ETIMEDOUT | ECONNREFUSED | ENOTCONN
  | ERESTARTSYS | EOTHER nat

section \<open>Constants\<close>

definition FRAME_SIZE :: nat where
  [driver_consts]: "FRAME_SIZE = 4096"

definition NUM_BUFFERS :: nat where
  [driver_consts]: "NUM_BUFFERS = 2"

definition RING_SIZE_MIN :: nat where
  [driver_consts]: "RING_SIZE_MIN = 64"

definition RING_SIZE_MAX :: nat where
  [driver_consts]: "RING_SIZE_MAX = 16384"

definition STREAM_HDR_SIZE :: nat where
  [driver_consts]: "STREAM_HDR_SIZE = 8"

definition FRAME_TAIL_RESERVE :: nat where
  [driver_consts]: "FRAME_TAIL_RESERVE = 64"

definition STREAM_PAYLOAD_MAX :: nat where
  [driver_consts]: "STREAM_PAYLOAD_MAX = FRAME_SIZE - STREAM_HDR_SIZE - FRAME_TAIL_RESERVE"

definition FRAME_POOL_SIZE :: nat where
  [driver_consts]: "FRAME_POOL_SIZE = 4096"

definition TX_POOL_RESERVE :: nat where
  [driver_consts]: "TX_POOL_RESERVE = 256"

definition BATCH_BUF_SIZE :: nat where
  [driver_consts]: "BATCH_BUF_SIZE = 256 * 1024"

definition BATCH_FRAMES :: nat where
  [driver_consts]: "BATCH_FRAMES = BATCH_BUF_SIZE div FRAME_SIZE"

definition BATCH_BUF_COUNT :: nat where
  [driver_consts]: "BATCH_BUF_COUNT = 32"

definition THROUGHPUT_THRESH :: nat where
  [driver_consts]: "THROUGHPUT_THRESH = 65536"

definition MODE_HYSTERESIS :: nat where
  [driver_consts]: "MODE_HYSTERESIS = 4"

lemma STREAM_PAYLOAD_MAX_eq: "STREAM_PAYLOAD_MAX = 4024"
  by (simp add: driver_consts)

lemma BATCH_FRAMES_eq: "BATCH_FRAMES = 64"
  by (simp add: driver_consts)

lemma STREAM_PAYLOAD_MAX_pos [simp]: "0 < STREAM_PAYLOAD_MAX" "STREAM_PAYLOAD_MAX \<noteq> 0"
  by (simp_all add: STREAM_PAYLOAD_MAX_eq)

lemma frame_fits: "STREAM_HDR_SIZE + STREAM_PAYLOAD_MAX < FRAME_SIZE"
  by (simp add: driver_consts)

section \<open>The connection state\<close>

datatype conn_state = DISCONNECTED | HANDSHAKE | CONNECTED | ERROR | READY

text \<open>The C enumeration is compared with \<open>>=\<close>, so its numeric values matter.\<close>

fun conn_state_code :: "conn_state \<Rightarrow> nat" where
  "conn_state_code DISCONNECTED = 0"
| "conn_state_code HANDSHAKE = 1"
| "conn_state_code CONNECTED = 2"
| "conn_state_code ERROR = 3"
| "conn_state_code READY = 4"

section \<open>Arithmetic helpers of the kernel\<close>

definition DIV_ROUND_UP :: "nat \<Rightarrow> nat \<Rightarrow> nat" where
  "DIV_ROUND_UP n d = (n + d - 1) div d"

lemma DIV_ROUND_UP_0 [simp]: "0 < d \<Longrightarrow> DIV_ROUND_UP 0 d = 0"
  by (simp add: DIV_ROUND_UP_def)

lemma DIV_ROUND_UP_step:
  assumes "0 < n" "0 < d"
  shows "DIV_ROUND_UP n d = Suc (DIV_ROUND_UP (n - d) d)"
proof (cases "d \<le> n")
  case True
  then obtain m where m: "n = d + m" using le_Suc_ex by blast
  have "n + d - 1 = (m + d - 1) + d" using m assms by linarith
  then have "(n + d - 1) div d = ((m + d - 1) + d) div d" by (rule arg_cong)
  also have "\<dots> = Suc ((m + d - 1) div d)"
    using assms(2) div_add_self2 [of d "m + d - 1"] by linarith
  finally have "(n + d - 1) div d = Suc ((m + d - 1) div d)" .
  with m show ?thesis by (simp add: DIV_ROUND_UP_def)
next
  case False
  then have "d + n - 1 < 2 * d" "d \<le> d + n - 1" using assms by linarith+
  then have "(n + d - 1) div d = 1"
    by (intro div_nat_eqI) (simp_all add: add.commute)
  moreover have "(d - 1) div d = 0" using assms by simp
  moreover have "n - d = 0" using False by simp
  ultimately show ?thesis by (simp add: DIV_ROUND_UP_def)
qed

lemma DIV_ROUND_UP_le_iff:
  assumes "0 < d"
  shows "DIV_ROUND_UP n d \<le> k \<longleftrightarrow> n \<le> k * d"
proof -
  have "DIV_ROUND_UP n d \<le> k \<longleftrightarrow> (n + d - 1) div d < Suc k"
    by (simp add: DIV_ROUND_UP_def less_Suc_eq_le)
  also have "\<dots> \<longleftrightarrow> n + d - 1 < Suc k * d"
    using assms by (rule div_less_iff_less_mult)
  also have "\<dots> \<longleftrightarrow> n \<le> k * d"
    unfolding mult_Suc using assms by linarith
  finally show ?thesis .
qed

text \<open>\<open>is_power_of_2\<close> and \<open>roundup_pow_of_two\<close> of \<open>linux/log2.h\<close>.\<close>

fun is_power_of_2 :: "nat \<Rightarrow> bool" where
  "is_power_of_2 n = (if n \<le> 1 then n = 1 else even n \<and> is_power_of_2 (n div 2))"

declare is_power_of_2.simps [simp del]

function roundup_from :: "nat \<Rightarrow> nat \<Rightarrow> nat" where
  "roundup_from p n = (if n \<le> p \<or> p = 0 then p else roundup_from (2 * p) n)"
  by pat_completeness auto
termination
  by (relation "measure (\<lambda>(p, n). n - p)") auto

declare roundup_from.simps [simp del]

definition roundup_pow_of_two :: "nat \<Rightarrow> nat" where
  "roundup_pow_of_two n = roundup_from 1 n"

lemma is_power_of_2_exp: "is_power_of_2 (2 ^ k)"
proof (induction k)
  case (Suc k)
  moreover have "\<not> (2::nat) ^ Suc k \<le> 1"
    using one_less_power [of "2::nat" "Suc k"] by linarith
  ultimately show ?case
    by (subst is_power_of_2.simps) simp
qed (simp add: is_power_of_2.simps)

lemma is_power_of_2_iff: "is_power_of_2 n \<longleftrightarrow> (\<exists>k. n = 2 ^ k)"
proof
  show "is_power_of_2 n \<Longrightarrow> \<exists>k. n = 2 ^ k"
  proof (induction n rule: is_power_of_2.induct)
    case (1 n)
    show ?case
    proof (cases "n = 1")
      case True
      then have "n = 2 ^ 0" by simp
      then show ?thesis ..
    next
      case False
      with "1.prems" have n: "\<not> n \<le> 1" "even n" "is_power_of_2 (n div 2)"
        using is_power_of_2.simps [of n] by (auto split: if_splits)
      with "1.IH" obtain k where "n div 2 = 2 ^ k" by blast
      with n(2) have "n = 2 ^ Suc k" by (auto elim: evenE)
      then show ?thesis ..
    qed
  qed
qed (auto simp: is_power_of_2_exp)

lemma roundup_from_spec:
  assumes "0 < p"
  shows "\<exists>j. roundup_from p n = p * 2 ^ j \<and> n \<le> p * 2 ^ j \<and> (0 < j \<longrightarrow> p * 2 ^ j < 2 * n)"
  using assms
proof (induction p n rule: roundup_from.induct)
  case (1 p n)
  show ?case
  proof (cases "n \<le> p")
    case True
    then show ?thesis by (intro exI [of _ 0]) (simp add: roundup_from.simps [of p n])
  next
    case False
    with "1.IH" "1.prems" obtain j where j: "roundup_from (2 * p) n = 2 * p * 2 ^ j"
      "n \<le> 2 * p * 2 ^ j" "0 < j \<longrightarrow> 2 * p * 2 ^ j < 2 * n" by auto
    from False "1.prems" have "roundup_from p n = roundup_from (2 * p) n"
      by (simp add: roundup_from.simps [of p n])
    with j False show ?thesis
      by (intro exI [of _ "Suc j"]) (cases j, auto)
  qed
qed

lemma roundup_pow_of_two_spec:
  assumes "1 \<le> n"
  shows "is_power_of_2 (roundup_pow_of_two n)" "n \<le> roundup_pow_of_two n"
    "roundup_pow_of_two n < 2 * n"
proof -
  obtain j where j: "roundup_from 1 n = 1 * 2 ^ j" "n \<le> 1 * 2 ^ j"
    "0 < j \<longrightarrow> 1 * (2::nat) ^ j < 2 * n"
    using roundup_from_spec [OF zero_less_one, of n] by blast
  then have r: "roundup_pow_of_two n = 2 ^ j" by (simp only: roundup_pow_of_two_def mult_1)
  show "is_power_of_2 (roundup_pow_of_two n)" unfolding r by (rule is_power_of_2_exp)
  show "n \<le> roundup_pow_of_two n" unfolding r using j(2) by (simp only: mult_1)
  show "roundup_pow_of_two n < 2 * n" unfolding r using j(3) assms by (cases "j = 0") auto
qed

lemma power_of_2_between:
  fixes j k :: nat
  assumes "(2::nat) ^ j \<le> 2 ^ k" "(2::nat) ^ k < 2 * 2 ^ j"
  shows "j = k"
proof -
  from assms(1) have "j \<le> k" by simp
  moreover from assms(2) have "(2::nat) ^ k < 2 ^ Suc j" by simp
  then have "k < Suc j" using power_less_imp_less_exp [of "2::nat" k "Suc j"] by simp
  ultimately show ?thesis by simp
qed

lemma roundup_pow_of_two_id:
  assumes "is_power_of_2 n"
  shows "roundup_pow_of_two n = n"
proof -
  obtain j where n: "n = 2 ^ j" using assms by (auto simp: is_power_of_2_iff)
  obtain k where k: "roundup_pow_of_two n = 2 ^ k"
    using roundup_pow_of_two_spec(1) [of n] n by (auto simp: is_power_of_2_iff)
  from roundup_pow_of_two_spec(2,3) [of n] n k have "j = k"
    by (intro power_of_2_between) simp_all
  with n k show ?thesis by simp
qed

section \<open>Byte memory and little-endian encoding\<close>

text \<open>
  A buffer is a byte list. Writes and reads name an offset; one that leaves the buffer is
  undefined behaviour of the C code and has the value \<open>None\<close>.
\<close>

definition mem_write :: "nat \<Rightarrow> byte list \<Rightarrow> byte list \<Rightarrow> byte list option" where
  "mem_write off bs mem =
     (if off + length bs \<le> length mem
      then Some (take off mem @ bs @ drop (off + length bs) mem) else None)"

definition mem_read :: "nat \<Rightarrow> nat \<Rightarrow> byte list \<Rightarrow> byte list option" where
  "mem_read off n mem = (if off + n \<le> length mem then Some (take n (drop off mem)) else None)"

lemma length_mem_write: "mem_write off bs mem = Some mem' \<Longrightarrow> length mem' = length mem"
  by (auto simp: mem_write_def split: if_splits)

lemma length_mem_read: "mem_read off n mem = Some bs \<Longrightarrow> length bs = n"
  by (auto simp: mem_read_def split: if_splits)

lemma mem_read_prefix: "n \<le> length bs \<Longrightarrow> mem_read 0 n (bs @ rest) = Some (take n bs)"
  by (simp add: mem_read_def)

definition le16 :: "u16 \<Rightarrow> byte list" where
  "le16 w = [ucast w, ucast (drop_bit 8 w)]"

definition le16_to_cpu :: "byte list \<Rightarrow> u16" where
  "le16_to_cpu bs = ucast (bs ! 0) OR push_bit 8 (ucast (bs ! 1))"

definition le32 :: "u32 \<Rightarrow> byte list" where
  "le32 w = [ucast w, ucast (drop_bit 8 w), ucast (drop_bit 16 w), ucast (drop_bit 24 w)]"

definition le32_to_cpu :: "byte list \<Rightarrow> u32" where
  "le32_to_cpu bs = ucast (bs ! 0) OR push_bit 8 (ucast (bs ! 1)) OR
     push_bit 16 (ucast (bs ! 2)) OR push_bit 24 (ucast (bs ! 3))"

lemma length_le [simp]: "length (le16 w) = 2" "length (le32 v) = 4"
  by (simp_all add: le16_def le32_def)

lemma le16_roundtrip [simp]: "le16_to_cpu (le16 w) = w"
  by (rule bit_word_eqI) (auto simp: le16_to_cpu_def le16_def bit_simps)

lemma le32_roundtrip [simp]: "le32_to_cpu (le32 w) = w"
proof (rule bit_word_eqI)
  fix n
  assume "n < LENGTH(32)"
  then show "bit (le32_to_cpu (le32 w)) n \<longleftrightarrow> bit w n"
    by (cases "24 \<le> n"; cases "16 \<le> n") (auto simp: le32_to_cpu_def le32_def bit_simps)
qed

section \<open>Splitting a byte string into chunks\<close>

fun chunks :: "nat \<Rightarrow> 'a list \<Rightarrow> 'a list list" where
  "chunks n [] = []"
| "chunks 0 (x # xs) = [x # xs]"
| "chunks (Suc n) (x # xs) = take (Suc n) (x # xs) # chunks (Suc n) (drop (Suc n) (x # xs))"

lemma chunks_step: "0 < n \<Longrightarrow> xs \<noteq> [] \<Longrightarrow> chunks n xs = take n xs # chunks n (drop n xs)"
  by (cases n; cases xs) auto

lemma chunks_eq_Nil [simp]: "chunks n xs = [] \<longleftrightarrow> xs = []"
  by (cases "(n, xs)" rule: chunks.cases) auto

lemma concat_chunks [simp]: "concat (chunks n xs) = xs"
proof (induction n xs rule: chunks.induct)
  case (3 n x xs)
  then show ?case by (metis append_take_drop_id chunks.simps(3) concat.simps(2))
qed auto

lemma chunks_bounded: "c \<in> set (chunks n xs) \<Longrightarrow> 0 < n \<Longrightarrow> c \<noteq> [] \<and> length c \<le> n"
  by (induction n xs rule: chunks.induct) auto

lemma length_chunks: "0 < n \<Longrightarrow> length (chunks n xs) = DIV_ROUND_UP (length xs) n"
proof (induction n xs rule: chunks.induct)
  case (3 n x xs)
  then show ?case
    using DIV_ROUND_UP_step [of "length (x # xs)" "Suc n"] by simp
qed auto

section \<open>List lemmas\<close>

lemma list_all_update: "list_all P xs \<Longrightarrow> P x \<Longrightarrow> list_all P (xs[i := x])"
  by (auto simp: list_all_iff dest: subsetD [OF set_update_subset_insert])

lemma fold_removeAll:
  "fold (\<lambda>i live. if P i then removeAll i live else live) [0..<n] live = filter (\<lambda>j. \<not> (j < n \<and> P j)) live"
  by (induction n) (auto simp: removeAll_filter_not_eq less_Suc_eq intro!: filter_cong)

end
