(* ===== verification/Slot_Pool.thy ===== *)
theory Slot_Pool
  imports Odl_Prelude
begin

text \<open>
  The contract of a slot pool: a fixed number of slots that clients take with \<open>get\<close> and give
  back with \<open>put\<close>. The driver has two such pools, the bitmap pool of DMA frames
  (\<^verbatim>\<open>odl_tb5_frame_pool_*\<close>) and the free-list pool of batch buffers
  (\<^verbatim>\<open>odl_tb5_batch_pool_*\<close>), both in \<^verbatim>\<open>driver/odl_tb5_ring_dma.c\<close>. Each of them interprets
  the locale \<open>slot_pool\<close>, and the frame pool, which also has a batch operation that keeps a
  reserve, interprets its extension \<open>reserving_pool\<close>.

  An operation with the value \<open>None\<close> is undefined behaviour of the C code (a read through a
  NULL pointer or past an array), so a law that says an operation is \<open>Some\<close> is a memory safety
  statement.
\<close>

section \<open>Clients of a pool\<close>

text \<open>
  What disciplined clients can do: take a slot, or give back one they hold. The state carries
  the list of the slots that are out. The relation is parametrised by the two operations.
\<close>

inductive pool_client ::
  "('p \<Rightarrow> (nat option \<times> 'p) option) \<Rightarrow> ('p \<Rightarrow> nat \<Rightarrow> 'p option) \<Rightarrow> 'p \<Rightarrow> 'p \<Rightarrow> nat list \<Rightarrow> bool"
  for get put p0 where
  client_init: "pool_client get put p0 p0 []"
| client_get: "pool_client get put p0 p held \<Longrightarrow> get p = Some (Some i, p')
    \<Longrightarrow> pool_client get put p0 p' (i # held)"
| client_get_none: "pool_client get put p0 p held \<Longrightarrow> get p = Some (None, p')
    \<Longrightarrow> pool_client get put p0 p' held"
| client_put: "pool_client get put p0 p held \<Longrightarrow> i \<in> set held \<Longrightarrow> put p i = Some p'
    \<Longrightarrow> pool_client get put p0 p' (remove1 i held)"

section \<open>The contract\<close>

locale slot_pool =
  fixes inv :: "'p \<Rightarrow> bool"
    and used :: "'p \<Rightarrow> nat set"
    and cap :: nat
    and get :: "'p \<Rightarrow> (nat option \<times> 'p) option"
    and put :: "'p \<Rightarrow> nat \<Rightarrow> 'p option"
  assumes used_bounded: "inv p \<Longrightarrow> used p \<subseteq> {..<cap}"
    and get_total: "inv p \<Longrightarrow> get p \<noteq> None"
    and get_slot: "inv p \<Longrightarrow> get p = Some (Some i, p')
      \<Longrightarrow> inv p' \<and> i \<notin> used p \<and> used p' = insert i (used p)"
    and get_none: "inv p \<Longrightarrow> get p = Some (None, p') \<Longrightarrow> p' = p \<and> used p = {..<cap}"
    and put_slot: "inv p \<Longrightarrow> i \<in> used p
      \<Longrightarrow> \<exists>p'. put p i = Some p' \<and> inv p' \<and> used p' = used p - {i}"
begin

lemma get_cases:
  assumes "inv p"
  obtains (none) "get p = Some (None, p)" "used p = {..<cap}"
  | (slot) i p' where "get p = Some (Some i, p')" "inv p'" "i \<notin> used p"
      "used p' = insert i (used p)"
proof -
  obtain r p' where g: "get p = Some (r, p')" using get_total [OF assms] by auto
  show thesis
  proof (cases r)
    case None
    with g get_none [OF assms] none show thesis by blast
  next
    case (Some i)
    with g get_slot [OF assms] slot show thesis by blast
  qed
qed

lemma client_invariant:
  assumes "pool_client get put p0 p held" "inv p0" "used p0 = {}"
  shows "inv p \<and> distinct held \<and> set held = used p"
  using assms
proof (induction rule: pool_client.induct)
  case (client_get p held i p')
  then show ?case using get_slot by auto
next
  case (client_get_none p held p')
  then show ?case using get_none by blast
next
  case (client_put p held i p')
  then have "inv p" "i \<in> used p" by auto
  with put_slot client_put show ?case by fastforce
qed auto

lemma client_safe:
  assumes "pool_client get put p0 p held" "inv p0" "used p0 = {}"
  shows "get p \<noteq> None" "i \<in> set held \<Longrightarrow> put p i \<noteq> None"
    "get p = Some (Some j, p') \<Longrightarrow> j \<notin> set held"
proof -
  note I = client_invariant [OF assms]
  from I get_total show "get p \<noteq> None" by blast
  from I put_slot show "i \<in> set held \<Longrightarrow> put p i \<noteq> None" by force
  from I get_slot show "get p = Some (Some j, p') \<Longrightarrow> j \<notin> set held" by blast
qed

lemma client_served:
  assumes "pool_client get put p0 p held" "inv p0" "used p0 = {}" "length held < cap"
  shows "\<exists>i p'. get p = Some (Some i, p')"
proof -
  have "inv p" and u: "used p = set held" and "distinct held"
    using client_invariant [OF assms(1-3)] by blast+
  then have "card (used p) = length held" by (simp add: distinct_card)
  with assms(4) have full: "used p \<noteq> {..<cap}" using card_lessThan [of cap] by (metis less_irrefl)
  from \<open>inv p\<close> show ?thesis
  proof (cases rule: get_cases)
    case none
    with full show ?thesis by blast
  next
    case slot
    then show ?thesis by blast
  qed
qed

end

section \<open>Pools with a reserve\<close>

text \<open>
  The batch operation takes at most the requested number of slots and stops at the reserve.
\<close>

inductive batch_client ::
  "('p \<Rightarrow> nat \<Rightarrow> (nat list \<times> 'p) option) \<Rightarrow> ('p \<Rightarrow> nat \<Rightarrow> 'p option) \<Rightarrow> 'p \<Rightarrow> 'p \<Rightarrow> nat list \<Rightarrow> bool"
  for get_batch put p0 where
  batch_init: "batch_client get_batch put p0 p0 []"
| batch_get: "batch_client get_batch put p0 p held \<Longrightarrow> get_batch p n = Some (got, p')
    \<Longrightarrow> batch_client get_batch put p0 p' (got @ held)"
| batch_put: "batch_client get_batch put p0 p held \<Longrightarrow> i \<in> set held \<Longrightarrow> put p i = Some p'
    \<Longrightarrow> batch_client get_batch put p0 p' (remove1 i held)"

locale reserving_pool = slot_pool inv used cap get put
  for inv :: "'p \<Rightarrow> bool" and used cap get put +
  fixes reserve :: nat
    and get_batch :: "'p \<Rightarrow> nat \<Rightarrow> (nat list \<times> 'p) option"
  assumes batch_total: "inv p \<Longrightarrow> get_batch p n \<noteq> None"
    and batch_slots: "inv p \<Longrightarrow> get_batch p n = Some (got, p')
      \<Longrightarrow> inv p' \<and> distinct got \<and> length got \<le> n \<and> set got \<inter> used p = {} \<and> used p' = set got \<union> used p"
    and batch_reserve: "inv p \<Longrightarrow> get_batch p n = Some (got, p')
      \<Longrightarrow> length got = min n (cap - card (used p) - reserve)"
begin

lemma card_used_le: "inv p \<Longrightarrow> card (used p) \<le> cap"
  using used_bounded [of p] card_mono [of "{..<cap}" "used p"] by simp

lemma batch_keeps_reserve:
  assumes "inv p" "get_batch p n = Some (got, p')"
  shows "min reserve (cap - card (used p)) \<le> cap - card (used p')"
proof -
  have "finite (used p)" using used_bounded [OF assms(1)] finite_subset by blast
  then have "card (used p') = length got + card (used p)"
    using batch_slots [OF assms] by (simp add: card_Un_disjoint distinct_card)
  with batch_reserve [OF assms] card_used_le [OF assms(1)] show ?thesis by linarith
qed

text \<open>However hard the batch clients push, they leave \<open>reserve\<close> slots for \<open>get\<close>.\<close>

lemma batch_client_invariant:
  assumes "batch_client get_batch put p0 p held" "inv p0" "card (used p0) + reserve \<le> cap"
  shows "inv p \<and> distinct held \<and> used p0 \<inter> set held = {} \<and> used p = used p0 \<union> set held
    \<and> card (used p) + reserve \<le> cap"
  using assms
proof (induction rule: batch_client.induct)
  case (batch_get p held n got p')
  then have IH: "inv p" "distinct held" "used p0 \<inter> set held = {}" "used p = used p0 \<union> set held"
    "card (used p) + reserve \<le> cap" by auto
  note B = batch_slots [OF IH(1) batch_get.hyps(2)]
  have "card (used p') + reserve \<le> cap"
    using batch_keeps_reserve [OF IH(1) batch_get.hyps(2)] IH(5) card_used_le [of p'] B by linarith
  with B IH show ?case by auto
next
  case (batch_put p held i p')
  then have IH: "inv p" "distinct held" "used p0 \<inter> set held = {}" "used p = used p0 \<union> set held"
    "card (used p) + reserve \<le> cap" by auto
  with batch_put.hyps have P: "inv p'" "used p' = used p - {i}"
    using put_slot [of p i] by auto
  then have "card (used p') \<le> card (used p)" by (simp add: card_Diff1_le)
  with P IH batch_put.hyps(2) show ?case by auto
qed auto

lemma batch_client_leaves_slot:
  assumes "batch_client get_batch put p0 p held" "inv p0" "card (used p0) + reserve \<le> cap"
    "0 < reserve"
  shows "\<exists>i p'. get p = Some (Some i, p') \<and> i \<notin> set held \<and> i \<notin> used p0"
proof -
  note I = batch_client_invariant [OF assms(1-3)]
  then have full: "used p \<noteq> {..<cap}" using assms(4) by (auto dest: arg_cong [where f = card])
  from I have "inv p" ..
  then show ?thesis
  proof (cases rule: get_cases)
    case none
    with full show ?thesis by blast
  next
    case slot
    with I show ?thesis by blast
  qed
qed

end

end
