(* ===== verification/Frame_Pool.thy ===== *)
theory Frame_Pool
  imports Slot_Pool
begin

text \<open>
  The pool of DMA frames of \<^verbatim>\<open>driver/odl_tb5_ring_dma.c\<close> (lines 1171 to 1315): 4096 slots of one
  frame each, a bitmap of the slots in use and a counter of the free ones, shared by the
  transmit path, which takes batches above a reserve, and the receive path, which takes single
  slots. A slot is named by its index in the \<open>slots\<close> array.
\<close>

section \<open>State\<close>

datatype frame_cb = NoCb | TxCallback | TxBatchCallback | RxCallback

text \<open>The fields of \<open>struct ring_frame\<close> that the driver uses; \<open>flags\<close> is written by the NHI.\<close>

record ring_frame =
  rf_size :: nat
  rf_flags :: u32
  rf_sof :: nat
  rf_eof :: nat
  rf_callback :: frame_cb

record frame_slot =
  fs_virt :: "byte list option"
  fs_frame :: ring_frame
  fs_tx_msg :: "nat option"
  slot_idx :: nat
  fs_in_use :: bool

record frame_pool =
  fp_slots :: "frame_slot list option"
  fp_bitmap :: "bool list option"
  fp_size :: nat
  fp_free_count :: int

definition zero_frame :: ring_frame where
  "zero_frame = \<lparr>rf_size = 0, rf_flags = 0, rf_sof = 0, rf_eof = 0, rf_callback = NoCb\<rparr>"

definition zero_slot :: frame_slot where
  "zero_slot = \<lparr>fs_virt = None, fs_frame = zero_frame, fs_tx_msg = None, slot_idx = 0,
     fs_in_use = False\<rparr>"

section \<open>Allocation and release\<close>

text \<open>
  \<open>dma i\<close> is what \<open>dma_alloc_coherent\<close> returns for slot \<open>i\<close>: \<open>None\<close> for failure, otherwise
  the memory. \<open>live\<close> is the list of the slots whose DMA memory is currently allocated.
\<close>

primrec free_dma :: "nat \<Rightarrow> nat list \<Rightarrow> nat list" where
  "free_dma 0 live = live"
| "free_dma (Suc i) live = free_dma i (removeAll i live)"

function alloc_slots ::
  "(nat \<Rightarrow> byte list option) \<Rightarrow> nat \<Rightarrow> nat \<Rightarrow> frame_slot list \<Rightarrow> nat list
    \<Rightarrow> (nat + unit) \<times> frame_slot list \<times> nat list" where
  "alloc_slots dma n i ss live =
     (if n \<le> i then (Inr (), ss, live)
      else case dma i of
             None \<Rightarrow> (Inl i, ss, live)
           | Some mem \<Rightarrow>
               alloc_slots dma n (Suc i)
                 (ss[i := (ss ! i)\<lparr>fs_virt := Some mem, slot_idx := i, fs_in_use := False\<rparr>])
                 (i # live))"
  by pat_completeness auto
termination
  by (relation "measure (\<lambda>(dma, n, i, ss, live). n - i)") auto

declare alloc_slots.simps [simp del]

definition frame_pool_alloc ::
  "bool \<Rightarrow> bool \<Rightarrow> (nat \<Rightarrow> byte list option) \<Rightarrow> frame_pool \<Rightarrow> nat list
    \<Rightarrow> (errno + unit) \<times> frame_pool \<times> nat list" where
  "frame_pool_alloc slots_ok bitmap_ok dma p live =
     (let n = FRAME_POOL_SIZE;
          p = p\<lparr>fp_size := n, fp_free_count := int n\<rparr>
      in if \<not> slots_ok then (Inl ENOMEM, p\<lparr>fp_slots := None\<rparr>, live)
         else if \<not> bitmap_ok then (Inl ENOMEM, p\<lparr>fp_slots := None, fp_bitmap := None\<rparr>, live)
         else case alloc_slots dma n 0 (replicate n zero_slot) live of
                (Inr _, ss, live) \<Rightarrow>
                  (Inr (), p\<lparr>fp_slots := Some ss, fp_bitmap := Some (replicate n False)\<rparr>, live)
              | (Inl i, ss, live) \<Rightarrow>
                  (Inl ENOMEM, p\<lparr>fp_slots := None, fp_bitmap := None\<rparr>, free_dma i live))"

definition frame_pool_free :: "frame_pool \<Rightarrow> nat list \<Rightarrow> frame_pool \<times> nat list" where
  "frame_pool_free p live =
     (case fp_slots p of
        None \<Rightarrow> (p, live)
      | Some ss \<Rightarrow>
          (p\<lparr>fp_slots := None, fp_bitmap := None\<rparr>,
           fold (\<lambda>i live. if fs_virt (ss ! i) \<noteq> None then removeAll i live else live)
             [0..<fp_size p] live))"

section \<open>Taking and returning slots\<close>

text \<open>A read of a bit past the bitmap is undefined.\<close>

function find_next_zero_bit :: "bool list \<Rightarrow> nat \<Rightarrow> nat \<Rightarrow> nat option" where
  "find_next_zero_bit bm sz i =
     (if sz \<le> i then Some sz
      else if length bm \<le> i then None
      else if bm ! i then find_next_zero_bit bm sz (Suc i)
      else Some i)"
  by pat_completeness auto
termination
  by (relation "measure (\<lambda>(bm, sz, i). sz - i)") auto

declare find_next_zero_bit.simps [simp del]

definition frame_pool_get :: "frame_pool \<Rightarrow> (nat option \<times> frame_pool) option" where
  "frame_pool_get p =
     do {
       bm \<leftarrow> fp_bitmap p;
       idx \<leftarrow> find_next_zero_bit bm (fp_size p) 0;
       if fp_size p \<le> idx then Some (None, p)
       else do {
         ss \<leftarrow> fp_slots p;
         if length ss \<le> idx then None
         else Some (Some idx,
                p\<lparr>fp_bitmap := Some (bm[idx := True]),
                  fp_slots := Some (ss[idx := (ss ! idx)\<lparr>fs_in_use := True, fs_tx_msg := None\<rparr>]),
                  fp_free_count := fp_free_count p - 1\<rparr>)
       }
     }"

definition frame_pool_put :: "frame_pool \<Rightarrow> nat \<Rightarrow> frame_pool option" where
  "frame_pool_put p i =
     do {
       ss \<leftarrow> fp_slots p;
       bm \<leftarrow> fp_bitmap p;
       if length ss \<le> i \<or> length bm \<le> slot_idx (ss ! i) then None
       else Some (p\<lparr>fp_bitmap := Some (bm[slot_idx (ss ! i) := False]),
                    fp_slots := Some (ss[i := (ss ! i)\<lparr>fs_in_use := False, fs_tx_msg := None\<rparr>]),
                    fp_free_count := fp_free_count p + 1\<rparr>)
     }"

text \<open>
  The loop of \<open>odl_tb5_frame_pool_get_batch\<close>. Its state is the pool, the slots taken so far
  (in reverse) and the search position; each round either stops or takes a slot, so
  \<open>requested\<close> is the measure.
\<close>

fun get_batch_loop :: "frame_pool \<Rightarrow> nat list \<Rightarrow> nat \<Rightarrow> nat \<Rightarrow> (nat list \<times> frame_pool) option" where
  "get_batch_loop p got idx 0 = Some (rev got, p)"
| "get_batch_loop p got idx (Suc k) =
     (if fp_free_count p \<le> int TX_POOL_RESERVE then Some (rev got, p)
      else do {
        bm \<leftarrow> fp_bitmap p;
        idx \<leftarrow> find_next_zero_bit bm (fp_size p) idx;
        if fp_size p \<le> idx then Some (rev got, p)
        else do {
          ss \<leftarrow> fp_slots p;
          if length ss \<le> idx then None
          else get_batch_loop
                 (p\<lparr>fp_bitmap := Some (bm[idx := True]),
                    fp_free_count := fp_free_count p - 1,
                    fp_slots := Some (ss[idx := (ss ! idx)\<lparr>fs_in_use := True, fs_tx_msg := None\<rparr>])\<rparr>)
                 (idx # got) (Suc idx) k
        }
      })"

definition frame_pool_get_batch :: "frame_pool \<Rightarrow> nat \<Rightarrow> (nat list \<times> frame_pool) option" where
  "frame_pool_get_batch p requested = get_batch_loop p [] 0 requested"

section \<open>Well-formedness\<close>

definition slot_ok :: "bool \<Rightarrow> nat \<Rightarrow> frame_slot \<Rightarrow> bool" where
  "slot_ok b i s \<longleftrightarrow> slot_idx s = i \<and> fs_in_use s = b \<and>
     (case fs_virt s of None \<Rightarrow> False | Some mem \<Rightarrow> length mem = FRAME_SIZE)"

definition frame_pool_wf :: "frame_pool \<Rightarrow> bool" where
  "frame_pool_wf p \<longleftrightarrow>
     (case (fp_slots p, fp_bitmap p) of
        (Some ss, Some bm) \<Rightarrow>
          fp_size p = FRAME_POOL_SIZE \<and> length ss = FRAME_POOL_SIZE \<and> length bm = FRAME_POOL_SIZE \<and>
          (\<forall>i < FRAME_POOL_SIZE. slot_ok (bm ! i) i (ss ! i)) \<and>
          fp_free_count p = int (count_list bm False)
      | _ \<Rightarrow> False)"

definition frame_pool_used :: "frame_pool \<Rightarrow> nat set" where
  "frame_pool_used p = {i. i < FRAME_POOL_SIZE \<and> the (fp_bitmap p) ! i}"

lemma frame_pool_wfE:
  assumes "frame_pool_wf p"
  obtains ss bm where "fp_slots p = Some ss" "fp_bitmap p = Some bm" "fp_size p = FRAME_POOL_SIZE"
    "length ss = FRAME_POOL_SIZE" "length bm = FRAME_POOL_SIZE"
    "\<And>i. i < FRAME_POOL_SIZE \<Longrightarrow> slot_ok (bm ! i) i (ss ! i)"
    "fp_free_count p = int (count_list bm False)"
    "frame_pool_used p = {i. i < FRAME_POOL_SIZE \<and> bm ! i}"
  using assms that unfolding frame_pool_wf_def frame_pool_used_def
  by (auto split: prod.splits option.splits)

lemma frame_pool_used_bounded: "frame_pool_used p \<subseteq> {..<FRAME_POOL_SIZE}"
  by (auto simp: frame_pool_used_def)

lemma count_list_flip:
  assumes "i < length bm" "bm ! i = (\<not> b)"
  shows "count_list (bm[i := b]) b = Suc (count_list bm b)"
    "Suc (count_list (bm[i := b]) (\<not> b)) = count_list bm (\<not> b)"
proof -
  have bm: "bm = take i bm @ (\<not> b) # drop (Suc i) bm"
    using assms id_take_nth_drop [of i bm] by simp
  have up: "bm[i := b] = take i bm @ b # drop (Suc i) bm"
    using assms(1) by (simp add: upd_conv_take_nth_drop)
  have "count_list bm c = count_list (take i bm @ (\<not> b) # drop (Suc i) bm) c" for c
    using bm by metis
  then show "count_list (bm[i := b]) b = Suc (count_list bm b)"
    "Suc (count_list (bm[i := b]) (\<not> b)) = count_list bm (\<not> b)"
    unfolding up by simp_all
qed

lemma free_count_card:
  assumes "frame_pool_wf p"
  shows "fp_free_count p = int FRAME_POOL_SIZE - int (card (frame_pool_used p))"
proof -
  from assms obtain bm where bm: "length bm = FRAME_POOL_SIZE" "fp_free_count p = int (count_list bm False)"
    "frame_pool_used p = {i. i < FRAME_POOL_SIZE \<and> bm ! i}" by (rule frame_pool_wfE)
  have "card (frame_pool_used p) = length (filter (\<lambda>b. b) bm)"
    by (simp add: bm length_filter_conv_card)
  moreover have "count_list bm False = length (filter (\<lambda>b. \<not> b) bm)"
    by (induction bm) auto
  moreover have "length (filter (\<lambda>b. b) bm) + length (filter (\<lambda>b. \<not> b) bm) = length bm"
    by (rule sum_length_filter_compl)
  ultimately show ?thesis using bm by linarith
qed

text \<open>Taking and returning a slot, as operations on well-formed pools.\<close>

lemma frame_pool_flip:
  assumes "frame_pool_wf p" "fp_slots p = Some ss" "fp_bitmap p = Some bm" "i < FRAME_POOL_SIZE"
    "bm ! i = (\<not> b)" "fp_bitmap p' = Some (bm[i := b])"
    "fp_slots p' = Some (ss[i := (ss ! i)\<lparr>fs_in_use := b, fs_tx_msg := m\<rparr>])"
    "fp_size p' = fp_size p"
    "fp_free_count p' = fp_free_count p + (if b then - 1 else 1)"
  shows "frame_pool_wf p'"
    "frame_pool_used p' = (if b then insert i (frame_pool_used p) else frame_pool_used p - {i})"
proof -
  have wf: "fp_size p = FRAME_POOL_SIZE" "length ss = FRAME_POOL_SIZE" "length bm = FRAME_POOL_SIZE"
    "\<forall>j < FRAME_POOL_SIZE. slot_ok (bm ! j) j (ss ! j)" "fp_free_count p = int (count_list bm False)"
    using assms(1-3) unfolding frame_pool_wf_def by simp_all
  have "int (count_list (bm[i := b]) False) = int (count_list bm False) + (if b then - 1 else 1)"
    using count_list_flip [of i bm b] assms(4,5) wf(3) by (cases b) auto
  moreover have "slot_ok (bm[i := b] ! j) j (ss[i := (ss ! i)\<lparr>fs_in_use := b, fs_tx_msg := m\<rparr>] ! j)"
    if "j < FRAME_POOL_SIZE" for j
    using wf(2-4) assms(4) that by (cases "i = j") (auto simp: slot_ok_def)
  ultimately show "frame_pool_wf p'"
    unfolding frame_pool_wf_def using assms(6-) wf by simp
  show "frame_pool_used p' = (if b then insert i (frame_pool_used p) else frame_pool_used p - {i})"
    using assms(3-6) wf(3) by (auto simp: frame_pool_used_def nth_list_update split: if_splits)
qed

lemma find_next_zero_bit_spec:
  assumes "i \<le> sz" "sz \<le> length bm"
  shows "\<exists>j. find_next_zero_bit bm sz i = Some j \<and> i \<le> j \<and> j \<le> sz \<and>
    (\<forall>k. i \<le> k \<and> k < j \<longrightarrow> bm ! k) \<and> (j < sz \<longrightarrow> \<not> bm ! j)"
  using assms
proof (induction bm sz i rule: find_next_zero_bit.induct)
  case (1 bm sz i)
  show ?case
  proof (cases "i < sz \<and> bm ! i")
    case True
    with 1 obtain j where j: "find_next_zero_bit bm sz (Suc i) = Some j" "Suc i \<le> j" "j \<le> sz"
      "\<forall>k. Suc i \<le> k \<and> k < j \<longrightarrow> bm ! k" "j < sz \<longrightarrow> \<not> bm ! j" by auto
    have "find_next_zero_bit bm sz i = Some j"
      using True j(1) "1.prems" by (simp add: find_next_zero_bit.simps [of bm sz i])
    moreover have "bm ! k" if "i \<le> k" "k < j" for k
      using that True j(4) by (cases "k = i") auto
    ultimately show ?thesis using j by (intro exI [of _ j]) auto
  next
    case False
    with "1.prems" show ?thesis
      by (intro exI [of _ i]) (auto simp: find_next_zero_bit.simps [of bm sz i])
  qed
qed

section \<open>The pool meets the contract\<close>

lemma frame_pool_get_cases:
  assumes "frame_pool_wf p"
  obtains (full) "frame_pool_get p = Some (None, p)" "frame_pool_used p = {..<FRAME_POOL_SIZE}"
  | (slot) i p' where "frame_pool_get p = Some (Some i, p')" "i < FRAME_POOL_SIZE" "frame_pool_wf p'"
      "i \<notin> frame_pool_used p" "frame_pool_used p' = insert i (frame_pool_used p)"
proof -
  obtain ss bm where wf: "fp_slots p = Some ss" "fp_bitmap p = Some bm" "fp_size p = FRAME_POOL_SIZE"
    "length ss = FRAME_POOL_SIZE" "length bm = FRAME_POOL_SIZE"
    "frame_pool_used p = {i. i < FRAME_POOL_SIZE \<and> bm ! i}"
    using assms by (rule frame_pool_wfE)
  obtain j where j: "find_next_zero_bit bm FRAME_POOL_SIZE 0 = Some j" "j \<le> FRAME_POOL_SIZE"
    "\<And>k. k < j \<Longrightarrow> bm ! k" "j < FRAME_POOL_SIZE \<Longrightarrow> \<not> bm ! j"
    using find_next_zero_bit_spec [of 0 FRAME_POOL_SIZE bm] wf by auto
  show thesis
  proof (cases "j < FRAME_POOL_SIZE")
    case False
    with j(1,2) wf have "frame_pool_get p = Some (None, p)" by (simp add: frame_pool_get_def)
    moreover from False j wf(6) have "frame_pool_used p = {..<FRAME_POOL_SIZE}" by auto
    ultimately show thesis by (rule full)
  next
    case True
    define p' where "p' = p\<lparr>fp_bitmap := Some (bm[j := True]),
      fp_slots := Some (ss[j := (ss ! j)\<lparr>fs_in_use := True, fs_tx_msg := None\<rparr>]),
      fp_free_count := fp_free_count p - 1\<rparr>"
    have "frame_pool_get p = Some (Some j, p')"
      using True j(1) wf by (simp add: frame_pool_get_def p'_def)
    moreover have "frame_pool_wf p'" "frame_pool_used p' = insert j (frame_pool_used p)"
      using frame_pool_flip [of p ss bm j True p' None] assms wf True j(4) by (simp_all add: p'_def)
    ultimately show thesis using True j(4) wf(6) by (intro slot) auto
  qed
qed

lemma frame_pool_put_used:
  assumes "frame_pool_wf p" "i \<in> frame_pool_used p"
  shows "\<exists>p'. frame_pool_put p i = Some p' \<and> frame_pool_wf p' \<and>
    frame_pool_used p' = frame_pool_used p - {i}"
proof -
  obtain ss bm where wf: "fp_slots p = Some ss" "fp_bitmap p = Some bm" "fp_size p = FRAME_POOL_SIZE"
    "length ss = FRAME_POOL_SIZE" "length bm = FRAME_POOL_SIZE"
    "\<And>i. i < FRAME_POOL_SIZE \<Longrightarrow> slot_ok (bm ! i) i (ss ! i)"
    "frame_pool_used p = {i. i < FRAME_POOL_SIZE \<and> bm ! i}"
    using assms(1) by (rule frame_pool_wfE) blast
  with assms(2) have i: "i < FRAME_POOL_SIZE" "bm ! i" "slot_idx (ss ! i) = i"
    by (auto simp: slot_ok_def)
  define p' where "p' = p\<lparr>fp_bitmap := Some (bm[i := False]),
    fp_slots := Some (ss[i := (ss ! i)\<lparr>fs_in_use := False, fs_tx_msg := None\<rparr>]),
    fp_free_count := fp_free_count p + 1\<rparr>"
  have "frame_pool_put p i = Some p'"
    using wf i by (simp add: frame_pool_put_def p'_def)
  moreover have "frame_pool_wf p'" "frame_pool_used p' = frame_pool_used p - {i}"
    using frame_pool_flip [of p ss bm i False p' None] assms(1) wf i by (simp_all add: p'_def)
  ultimately show ?thesis by blast
qed

lemma get_batch_step:
  assumes "frame_pool_wf p" "fp_bitmap p = Some bm" "idx \<le> FRAME_POOL_SIZE"
    "\<And>k. k < idx \<Longrightarrow> bm ! k" "int TX_POOL_RESERVE < fp_free_count p"
  obtains j p' where "j < FRAME_POOL_SIZE" "j \<notin> frame_pool_used p" "frame_pool_wf p'"
    "frame_pool_used p' = insert j (frame_pool_used p)" "fp_bitmap p' = Some (bm[j := True])"
    "\<And>k. k < Suc j \<Longrightarrow> bm[j := True] ! k"
    "\<And>got n. get_batch_loop p got idx (Suc n) = get_batch_loop p' (j # got) (Suc j) n"
proof -
  obtain ss where wf: "fp_slots p = Some ss" "fp_size p = FRAME_POOL_SIZE" "length ss = FRAME_POOL_SIZE"
    "length bm = FRAME_POOL_SIZE" "frame_pool_used p = {i. i < FRAME_POOL_SIZE \<and> bm ! i}"
    using assms(1) by (rule frame_pool_wfE) (use assms(2) in auto)
  obtain j where j: "find_next_zero_bit bm FRAME_POOL_SIZE idx = Some j" "idx \<le> j" "j \<le> FRAME_POOL_SIZE"
    "\<forall>k. idx \<le> k \<and> k < j \<longrightarrow> bm ! k" "j < FRAME_POOL_SIZE \<longrightarrow> \<not> bm ! j"
    using find_next_zero_bit_spec [of idx FRAME_POOL_SIZE bm] assms(3) wf(4) by auto
  have below: "bm ! k" if "k < j" for k
    using that j(4) assms(4) by (cases "k < idx") auto
  have lt: "j < FRAME_POOL_SIZE"
  proof (rule ccontr)
    assume "\<not> j < FRAME_POOL_SIZE"
    with below j(3) wf(5) have "frame_pool_used p = {..<FRAME_POOL_SIZE}" by auto
    with free_count_card [OF assms(1)] assms(5) show False by simp
  qed
  define p' where "p' = p\<lparr>fp_bitmap := Some (bm[j := True]), fp_free_count := fp_free_count p - 1,
    fp_slots := Some (ss[j := (ss ! j)\<lparr>fs_in_use := True, fs_tx_msg := None\<rparr>])\<rparr>"
  have "frame_pool_wf p'" "frame_pool_used p' = insert j (frame_pool_used p)"
    using frame_pool_flip [of p ss bm j True p' None] assms wf lt j(5) by (simp_all add: p'_def)
  moreover have "get_batch_loop p got idx (Suc n) = get_batch_loop p' (j # got) (Suc j) n" for got n
    using assms(2,5) wf lt j(1) by (simp add: p'_def)
  moreover have "bm[j := True] ! k" if "k < Suc j" for k
    using that below lt wf(4) by (cases "k = j") auto
  ultimately show thesis using lt j(5) wf(5) by (intro that [of j p']) (auto simp: p'_def)
qed

lemma get_batch_loop_spec:
  assumes "frame_pool_wf p" "fp_bitmap p = Some bm" "idx \<le> FRAME_POOL_SIZE" "\<And>k. k < idx \<Longrightarrow> bm ! k"
  shows "\<exists>more p'. get_batch_loop p got idx n = Some (rev got @ more, p') \<and> frame_pool_wf p' \<and>
    distinct more \<and> set more \<inter> frame_pool_used p = {} \<and>
    frame_pool_used p' = set more \<union> frame_pool_used p \<and>
    length more = min n (FRAME_POOL_SIZE - card (frame_pool_used p) - TX_POOL_RESERVE)"
  using assms
proof (induction n arbitrary: p got idx bm)
  case 0
  then show ?case by (intro exI [of _ "[]"]) auto
next
  case (Suc n)
  note free = free_count_card [OF Suc.prems(1)]
  show ?case
  proof (cases "fp_free_count p \<le> int TX_POOL_RESERVE")
    case True
    with free Suc.prems(1) show ?thesis by (intro exI [of _ "[]"]) auto
  next
    case False
    then have "int TX_POOL_RESERVE < fp_free_count p" by simp
    from get_batch_step [OF Suc.prems this] obtain j p' where
      j: "j < FRAME_POOL_SIZE" "j \<notin> frame_pool_used p" "frame_pool_wf p'"
      "frame_pool_used p' = insert j (frame_pool_used p)" "fp_bitmap p' = Some (bm[j := True])"
      "\<And>k. k < Suc j \<Longrightarrow> bm[j := True] ! k"
      "\<And>got n. get_batch_loop p got idx (Suc n) = get_batch_loop p' (j # got) (Suc j) n" by metis
    from Suc.IH [OF j(3,5) Suc_leI [OF j(1)] j(6), of "j # got"] obtain more p'' where
      m: "get_batch_loop p' (j # got) (Suc j) n = Some (rev (j # got) @ more, p'')" "frame_pool_wf p''"
      "distinct more" "set more \<inter> frame_pool_used p' = {}"
      "frame_pool_used p'' = set more \<union> frame_pool_used p'"
      "length more = min n (FRAME_POOL_SIZE - card (frame_pool_used p') - TX_POOL_RESERVE)" by blast
    have "card (frame_pool_used p') = Suc (card (frame_pool_used p))"
      using j(2,4) frame_pool_used_bounded [of p] finite_subset by fastforce
    with m False free j(2,4) show ?thesis
      unfolding j(7) by (intro exI [of _ "j # more"] exI [of _ p'']) auto
  qed
qed

lemma frame_pool_get_batch_spec:
  assumes "frame_pool_wf p"
  shows "\<exists>got p'. frame_pool_get_batch p n = Some (got, p') \<and> frame_pool_wf p' \<and> distinct got \<and>
    set got \<inter> frame_pool_used p = {} \<and> frame_pool_used p' = set got \<union> frame_pool_used p \<and>
    length got = min n (FRAME_POOL_SIZE - card (frame_pool_used p) - TX_POOL_RESERVE)"
proof -
  from assms obtain bm where "fp_bitmap p = Some bm" by (rule frame_pool_wfE)
  from get_batch_loop_spec [OF assms this, of 0 "[]" n] show ?thesis
    by (simp add: frame_pool_get_batch_def)
qed

interpretation fpool: reserving_pool frame_pool_wf frame_pool_used FRAME_POOL_SIZE
  frame_pool_get frame_pool_put TX_POOL_RESERVE frame_pool_get_batch
proof unfold_locales
  fix p p' i n got
  assume wf: "frame_pool_wf p"
  show "frame_pool_used p \<subseteq> {..<FRAME_POOL_SIZE}" by (rule frame_pool_used_bounded)
  show "frame_pool_get p \<noteq> None" using wf by (cases rule: frame_pool_get_cases) auto
  show "frame_pool_wf p' \<and> i \<notin> frame_pool_used p \<and> frame_pool_used p' = insert i (frame_pool_used p)"
    if "frame_pool_get p = Some (Some i, p')"
    using wf that by (cases rule: frame_pool_get_cases) auto
  show "p' = p \<and> frame_pool_used p = {..<FRAME_POOL_SIZE}" if "frame_pool_get p = Some (None, p')"
    using wf that by (cases rule: frame_pool_get_cases) auto
  show "\<exists>p'. frame_pool_put p i = Some p' \<and> frame_pool_wf p' \<and> frame_pool_used p' = frame_pool_used p - {i}"
    if "i \<in> frame_pool_used p"
    using frame_pool_put_used [OF wf that] .
  note batch = frame_pool_get_batch_spec [OF wf, of n]
  show "frame_pool_get_batch p n \<noteq> None" using batch by auto
  show "frame_pool_wf p' \<and> distinct got \<and> length got \<le> n \<and> set got \<inter> frame_pool_used p = {} \<and>
      frame_pool_used p' = set got \<union> frame_pool_used p"
    if "frame_pool_get_batch p n = Some (got, p')" using batch that by auto
  show "length got = min n (FRAME_POOL_SIZE - card (frame_pool_used p) - TX_POOL_RESERVE)"
    if "frame_pool_get_batch p n = Some (got, p')" using batch that by auto
qed

section \<open>Allocation\<close>

lemma free_dma_filter: "free_dma k live = filter (\<lambda>j. k \<le> j) live"
  by (induction k arbitrary: live) (auto simp: removeAll_filter_not_eq intro!: filter_cong)

lemma alloc_slots_spec:
  assumes "length ss = n" "i \<le> n" "alloc_slots dma n i ss live = (r, ss', live')"
  shows "length ss' = n \<and> (case r of
      Inr _ \<Rightarrow> live' = rev [i..<n] @ live \<and> (\<forall>j < i. ss' ! j = ss ! j) \<and>
        (\<forall>j. i \<le> j \<and> j < n \<longrightarrow> dma j \<noteq> None \<and>
          ss' ! j = (ss ! j)\<lparr>fs_virt := dma j, slot_idx := j, fs_in_use := False\<rparr>)
    | Inl k \<Rightarrow> i \<le> k \<and> k < n \<and> dma k = None \<and> live' = rev [i..<k] @ live)"
  using assms
proof (induction dma n i ss live rule: alloc_slots.induct)
  case (1 dma n i ss live)
  show ?case
  proof (cases "n \<le> i \<or> dma i = None")
    case True
    with "1.prems" show ?thesis
      by (auto simp: alloc_slots.simps [of dma n i] split: if_splits)
  next
    case False
    then obtain mem where mem: "dma i = Some mem" and i: "\<not> n \<le> i" by auto
    let ?s = "(ss ! i)\<lparr>fs_virt := Some mem, slot_idx := i, fs_in_use := False\<rparr>"
    from "1.prems" mem i have rec: "alloc_slots dma n (Suc i) (ss[i := ?s]) (i # live) = (r, ss', live')"
      by (simp add: alloc_slots.simps [of dma n i])
    note IH = "1.IH" [OF i mem _ _ rec]
    have up: "rev [i..<m] @ live = rev [Suc i..<m] @ i # live" if "i < m" for m
      using that by (simp add: upt_conv_Cons)
    show ?thesis
    proof (cases r)
      case (Inl k)
      with IH i "1.prems"(1) show ?thesis using up by auto
    next
      case (Inr u)
      with IH i "1.prems"(1) have I: "length ss' = n" "live' = rev [Suc i..<n] @ i # live"
        "\<forall>j < Suc i. ss' ! j = ss[i := ?s] ! j"
        "\<forall>j. Suc i \<le> j \<and> j < n \<longrightarrow> dma j \<noteq> None \<and>
          ss' ! j = (ss[i := ?s] ! j)\<lparr>fs_virt := dma j, slot_idx := j, fs_in_use := False\<rparr>" by auto
      have "dma j \<noteq> None \<and> ss' ! j = (ss ! j)\<lparr>fs_virt := dma j, slot_idx := j, fs_in_use := False\<rparr>"
        if "i \<le> j" "j < n" for j
        using that I(3,4) mem i "1.prems"(1) by (cases "i = j") auto
      with I i up [of n] Inr show ?thesis by auto
    qed
  qed
qed

text \<open>\<open>dma_alloc_coherent (dev, ODL_TB5_FRAME_SIZE)\<close> returns memory of the size asked for.\<close>

definition dma_sized :: "nat \<Rightarrow> (nat \<Rightarrow> byte list option) \<Rightarrow> bool" where
  "dma_sized n dma \<longleftrightarrow> (\<forall>i mem. dma i = Some mem \<longrightarrow> length mem = n)"

lemma frame_pool_alloc_success:
  assumes "dma_sized FRAME_SIZE dma" "frame_pool_alloc sk bk dma p live = (Inr (), p', live')"
  shows "frame_pool_wf p'" "frame_pool_used p' = {}" "live' = rev [0..<FRAME_POOL_SIZE] @ live"
proof -
  obtain ss where a: "alloc_slots dma FRAME_POOL_SIZE 0 (replicate FRAME_POOL_SIZE zero_slot) live
      = (Inr (), ss, live')"
    and p': "p' = p\<lparr>fp_size := FRAME_POOL_SIZE, fp_free_count := int FRAME_POOL_SIZE, fp_slots := Some ss,
      fp_bitmap := Some (replicate FRAME_POOL_SIZE False)\<rparr>"
    using assms(2) by (auto simp: frame_pool_alloc_def Let_def split: if_splits prod.splits sum.splits)
  from alloc_slots_spec [OF _ _ a] have S: "length ss = FRAME_POOL_SIZE"
    "live' = rev [0..<FRAME_POOL_SIZE] @ live"
    "\<forall>j < FRAME_POOL_SIZE. dma j \<noteq> None \<and>
       ss ! j = zero_slot\<lparr>fs_virt := dma j, slot_idx := j, fs_in_use := False\<rparr>" by auto
  then show "live' = rev [0..<FRAME_POOL_SIZE] @ live" by simp
  have "slot_ok False j (ss ! j)" if "j < FRAME_POOL_SIZE" for j
    using S(3) that assms(1) by (auto simp: slot_ok_def dma_sized_def split: option.splits)
  moreover have "count_list (replicate n False) False = n" for n by (induction n) auto
  ultimately show "frame_pool_wf p'" using S(1) by (simp add: frame_pool_wf_def p')
  show "frame_pool_used p' = {}" by (auto simp: frame_pool_used_def p')
qed

lemma frame_pool_alloc_failure:
  assumes "frame_pool_alloc sk bk dma p live = (Inl e, p', live')" "\<forall>j \<in> set live. FRAME_POOL_SIZE \<le> j"
  shows "e = ENOMEM" "fp_slots p' = None" "live' = live" "fp_free_count p' = int FRAME_POOL_SIZE"
proof -
  have "live' = live" if "alloc_slots dma FRAME_POOL_SIZE 0 (replicate FRAME_POOL_SIZE zero_slot) live
      = (Inl k, ss, l)" "live' = free_dma k l" for k ss l
    using alloc_slots_spec [OF _ _ that(1)] that(2) assms(2)
    by (auto simp: free_dma_filter filter_id_conv)
  with assms(1) show "e = ENOMEM" "fp_slots p' = None" "live' = live"
    "fp_free_count p' = int FRAME_POOL_SIZE"
    by (auto simp: frame_pool_alloc_def Let_def split: if_splits prod.splits sum.splits)
qed

lemma frame_pool_alloc_ok:
  assumes "\<And>i. dma i \<noteq> None"
  shows "\<exists>p' live'. frame_pool_alloc True True dma p live = (Inr (), p', live')"
proof -
  obtain r ss l where a: "alloc_slots dma FRAME_POOL_SIZE 0 (replicate FRAME_POOL_SIZE zero_slot) live
      = (r, ss, l)" by (metis prod_cases3)
  from alloc_slots_spec [OF _ _ this] assms have "\<exists>u. r = Inr u" by (cases r) auto
  with a show ?thesis by (auto simp: frame_pool_alloc_def Let_def)
qed

lemma frame_pool_free_live:
  assumes "frame_pool_wf p"
  shows "frame_pool_free p live =
    (p\<lparr>fp_slots := None, fp_bitmap := None\<rparr>, filter (\<lambda>j. FRAME_POOL_SIZE \<le> j) live)"
proof -
  obtain ss bm where wf: "fp_slots p = Some ss" "fp_size p = FRAME_POOL_SIZE"
    "\<And>i. i < FRAME_POOL_SIZE \<Longrightarrow> slot_ok (bm ! i) i (ss ! i)"
    using assms by (rule frame_pool_wfE) blast
  have "fs_virt (ss ! i) \<noteq> None" if "i < FRAME_POOL_SIZE" for i
    using wf(3) [OF that] by (auto simp: slot_ok_def split: option.splits)
  then have "filter (\<lambda>j. \<not> (j < FRAME_POOL_SIZE \<and> fs_virt (ss ! j) \<noteq> None)) live = filter (\<lambda>j. FRAME_POOL_SIZE \<le> j) live"
    by (intro filter_cong) (fastforce simp: not_less [symmetric])+
  with wf(1,2) show ?thesis by (simp add: frame_pool_free_def fold_removeAll)
qed

section \<open>Properties\<close>

text \<open>C7: After a successful allocation, whatever disciplined clients do with
  \<open>odl_tb5_frame_pool_get\<close> and \<open>odl_tb5_frame_pool_put\<close>, the pool never reads outside its bitmap
  or its slots, a slot that is out is never handed out again, and a request is served as long as
  fewer than 4096 slots are out.\<close>

theorem frame_pool_exclusive:
  assumes "dma_sized FRAME_SIZE dma" "frame_pool_alloc sk bk dma p0 live = (Inr (), p1, live')"
    "pool_client frame_pool_get frame_pool_put p1 p held"
  shows "distinct held \<and> frame_pool_get p \<noteq> None \<and> (\<forall>i \<in> set held. frame_pool_put p i \<noteq> None) \<and>
    (\<forall>i p'. frame_pool_get p = Some (Some i, p') \<longrightarrow> i \<notin> set held) \<and>
    (length held < FRAME_POOL_SIZE \<longrightarrow> (\<exists>i p'. frame_pool_get p = Some (Some i, p')))"
proof -
  note init = frame_pool_alloc_success [OF assms(1,2)]
  note client = assms(3) init(1,2)
  show ?thesis
    using fpool.client_invariant [OF client] fpool.client_safe [OF client]
      fpool.client_served [OF client] by blast
qed

definition sample_dma :: "nat \<Rightarrow> byte list option" where
  "sample_dma i = Some (replicate FRAME_SIZE 0)"

definition sample_pool :: frame_pool where
  "sample_pool = fst (snd (frame_pool_alloc True True sample_dma
     \<lparr>fp_slots = None, fp_bitmap = None, fp_size = 0, fp_free_count = 0\<rparr> []))"

lemma sample_dma_sized: "dma_sized FRAME_SIZE sample_dma"
  by (simp add: dma_sized_def sample_dma_def)

lemma sample_pool_alloc:
  "frame_pool_alloc True True sample_dma
     \<lparr>fp_slots = None, fp_bitmap = None, fp_size = 0, fp_free_count = 0\<rparr> [] =
   (Inr (), sample_pool, rev [0..<FRAME_POOL_SIZE])"
proof -
  let ?z = "\<lparr>fp_slots = None, fp_bitmap = None, fp_size = 0, fp_free_count = 0\<rparr>"
  obtain p' l' where a: "frame_pool_alloc True True sample_dma ?z [] = (Inr (), p', l')"
    using frame_pool_alloc_ok [of sample_dma ?z "[]"] by (auto simp: sample_dma_def)
  with frame_pool_alloc_success(3) [OF sample_dma_sized a] show ?thesis by (simp add: sample_pool_def)
qed

lemmas sample_pool_ok = frame_pool_alloc_success [OF sample_dma_sized sample_pool_alloc]

theorem frame_pool_exclusive_witness:
  "\<exists>i p. frame_pool_get sample_pool = Some (Some i, p) \<and> frame_pool_put p i \<noteq> None \<and>
    (\<exists>j p'. frame_pool_get p = Some (Some j, p') \<and> j \<noteq> i)"
proof -
  note excl = frame_pool_exclusive [OF sample_dma_sized sample_pool_alloc]
  have c0: "pool_client frame_pool_get frame_pool_put sample_pool sample_pool []"
    by (rule client_init)
  obtain i p where g: "frame_pool_get sample_pool = Some (Some i, p)"
    using excl [OF c0] by (auto simp: driver_consts)
  with c0 have "pool_client frame_pool_get frame_pool_put sample_pool p [i]" by (rule client_get)
  from excl [OF this] g show ?thesis by (force simp: driver_consts)
qed



text \<open>Pool allocation is all or nothing. When any allocation fails, \<open>odl_tb5_frame_pool_alloc\<close>
  returns -ENOMEM and every DMA frame it had obtained is released; when it succeeds, all 4096 frames
  are allocated, and \<open>odl_tb5_frame_pool_free\<close> releases them again whatever the clients did in between.\<close>

theorem frame_pool_lifecycle:
  assumes "dma_sized FRAME_SIZE dma" "\<forall>j \<in> set live. FRAME_POOL_SIZE \<le> j"
    "frame_pool_alloc sk bk dma p0 live = (r, p1, live1)"
  shows "case r of
      Inl e \<Rightarrow> e = ENOMEM \<and> live1 = live \<and> frame_pool_free p1 live1 = (p1, live)
    | Inr _ \<Rightarrow> live1 = rev [0..<FRAME_POOL_SIZE] @ live \<and>
        (\<forall>p held. pool_client frame_pool_get frame_pool_put p1 p held \<longrightarrow>
          snd (frame_pool_free p live1) = live)"
proof (cases r)
  case (Inl e)
  with frame_pool_alloc_failure [OF _ assms(2)] assms(3) show ?thesis
    by (auto simp: frame_pool_free_def)
next
  case (Inr u)
  then have a: "frame_pool_alloc sk bk dma p0 live = (Inr (), p1, live1)" using assms(3) by simp
  note ok = frame_pool_alloc_success [OF assms(1) a]
  have "snd (frame_pool_free p live1) = live"
    if "pool_client frame_pool_get frame_pool_put p1 p held" for p held
    using fpool.client_invariant [OF that ok(1,2)] assms(2)
    by (auto simp: frame_pool_free_live ok(3) filter_id_conv)
  with Inr ok(3) show ?thesis by simp
qed

theorem frame_pool_lifecycle_witness:
  "snd (frame_pool_free sample_pool (rev [0..<FRAME_POOL_SIZE])) = []"
  using frame_pool_lifecycle [OF sample_dma_sized _ sample_pool_alloc]
    client_init [of frame_pool_get frame_pool_put sample_pool] by auto

end
