(* ===== verification/Batch_Pool.thy ===== *)
theory Batch_Pool
  imports Frame_Pool
begin

text \<open>
  The pool of 32 batch buffers of 256 KiB that the throughput transmit path stages its messages in
  (\<^verbatim>\<open>driver/odl_tb5_ring_dma.c\<close>, lines 1321 to 1433). Unlike the frame pool it keeps its free
  entries in a list. A buffer is named by its index in \<open>bufs\<close>.
\<close>

section \<open>State\<close>

record batch_buf =
  bb_virt :: "byte list option"
  bb_frames :: "ring_frame list"
  bb_tx_msg :: "nat option"
  bb_frames_pending :: int
  bb_total_frames :: nat
  bb_in_use :: bool

record batch_pool =
  bp_bufs :: "batch_buf list"
  bp_free_list :: "nat list"
  bp_free_count :: int

section \<open>Operations\<close>

text \<open>
  \<open>dma i\<close> is what \<open>dma_alloc_coherent\<close> returns for buffer \<open>i\<close>, \<open>live\<close> the buffers whose
  memory is allocated. The loop of \<open>odl_tb5_batch_pool_alloc\<close> ends with \<open>Inl i\<close> when the
  allocation of buffer \<open>i\<close> fails.
\<close>

function alloc_bufs ::
  "(nat \<Rightarrow> byte list option) \<Rightarrow> nat \<Rightarrow> batch_pool \<Rightarrow> nat list \<Rightarrow> (nat + unit) \<times> batch_pool \<times> nat list" where
  "alloc_bufs dma i p live =
     (if BATCH_BUF_COUNT \<le> i then (Inr (), p, live)
      else case dma i of
             None \<Rightarrow> (Inl i, p\<lparr>bp_bufs := (bp_bufs p)[i := (bp_bufs p ! i)\<lparr>bb_virt := None\<rparr>]\<rparr>, live)
           | Some mem \<Rightarrow>
               alloc_bufs dma (Suc i)
                 (p\<lparr>bp_bufs := (bp_bufs p)[i := (bp_bufs p ! i)\<lparr>bb_virt := Some mem, bb_in_use := False,
                      bb_tx_msg := None, bb_frames_pending := 0\<rparr>],
                    bp_free_list := bp_free_list p @ [i],
                    bp_free_count := bp_free_count p + 1\<rparr>)
                 (i # live))"
  by pat_completeness auto
termination
  by (relation "measure (\<lambda>(dma, i, p, live). BATCH_BUF_COUNT - i)") auto

declare alloc_bufs.simps [simp del]

primrec unalloc_bufs :: "nat \<Rightarrow> batch_buf list \<Rightarrow> batch_buf list" where
  "unalloc_bufs 0 bs = bs"
| "unalloc_bufs (Suc i) bs = unalloc_bufs i (bs[i := (bs ! i)\<lparr>bb_virt := None\<rparr>])"

definition batch_pool_alloc ::
  "(nat \<Rightarrow> byte list option) \<Rightarrow> batch_pool \<Rightarrow> nat list \<Rightarrow> (errno + unit) \<times> batch_pool \<times> nat list" where
  "batch_pool_alloc dma p live =
     (case alloc_bufs dma 0 (p\<lparr>bp_free_list := [], bp_free_count := 0\<rparr>) live of
        (Inr _, p, live) \<Rightarrow> (Inr (), p, live)
      | (Inl i, p, live) \<Rightarrow>
          (Inl ENOMEM,
           p\<lparr>bp_bufs := unalloc_bufs i (bp_bufs p), bp_free_list := [], bp_free_count := 0\<rparr>,
           free_dma i live))"

text \<open>\<open>rings\<close>: the device still has a TX or an RX ring to take the DMA device from.\<close>

definition batch_pool_free :: "bool \<Rightarrow> batch_pool \<Rightarrow> nat list \<Rightarrow> batch_pool \<times> nat list" where
  "batch_pool_free rings p live =
     (if bb_virt (bp_bufs p ! 0) = None \<or> \<not> rings then (p, live)
      else (\<lparr>bp_bufs = map (bb_virt_update (\<lambda>_. None)) (bp_bufs p),
             bp_free_list = [], bp_free_count = 0\<rparr>,
            fold (\<lambda>i live. if bb_virt (bp_bufs p ! i) \<noteq> None then removeAll i live else live)
              [0..<BATCH_BUF_COUNT] live))"

definition batch_pool_get :: "batch_pool \<Rightarrow> (nat option \<times> batch_pool) option" where
  "batch_pool_get p =
     (case bp_free_list p of
        [] \<Rightarrow> Some (None, p)
      | i # rest \<Rightarrow>
          if length (bp_bufs p) \<le> i then None
          else Some (Some i,
                 p\<lparr>bp_free_list := rest,
                   bp_bufs := (bp_bufs p)[i := (bp_bufs p ! i)\<lparr>bb_in_use := True\<rparr>],
                   bp_free_count := bp_free_count p - 1\<rparr>))"

text \<open>\<open>list_add_tail\<close> of an entry that is linked already corrupts the list: undefined.\<close>

definition batch_pool_put :: "batch_pool \<Rightarrow> nat \<Rightarrow> batch_pool option" where
  "batch_pool_put p i =
     (if length (bp_bufs p) \<le> i \<or> i \<in> set (bp_free_list p) then None
      else Some (p\<lparr>bp_bufs := (bp_bufs p)[i := (bp_bufs p ! i)\<lparr>bb_in_use := False, bb_tx_msg := None\<rparr>],
                   bp_free_list := bp_free_list p @ [i],
                   bp_free_count := bp_free_count p + 1\<rparr>))"

section \<open>Well-formedness\<close>

definition buf_ok :: "bool \<Rightarrow> batch_buf \<Rightarrow> bool" where
  "buf_ok b s \<longleftrightarrow> bb_in_use s = b \<and> length (bb_frames s) = BATCH_FRAMES \<and>
     (case bb_virt s of None \<Rightarrow> False | Some mem \<Rightarrow> length mem = BATCH_BUF_SIZE)"

definition batch_pool_wf :: "batch_pool \<Rightarrow> bool" where
  "batch_pool_wf p \<longleftrightarrow>
     length (bp_bufs p) = BATCH_BUF_COUNT \<and> distinct (bp_free_list p) \<and>
     list_all (\<lambda>i. i < BATCH_BUF_COUNT) (bp_free_list p) \<and>
     bp_free_count p = int (length (bp_free_list p)) \<and>
     (\<forall>i < BATCH_BUF_COUNT. buf_ok (i \<notin> set (bp_free_list p)) (bp_bufs p ! i))"

definition batch_pool_used :: "batch_pool \<Rightarrow> nat set" where
  "batch_pool_used p = {..<BATCH_BUF_COUNT} - set (bp_free_list p)"

lemma batch_pool_free_iff: "batch_pool_wf p \<Longrightarrow> i < BATCH_BUF_COUNT \<Longrightarrow>
    i \<in> set (bp_free_list p) \<longleftrightarrow> i \<notin> batch_pool_used p"
  by (auto simp: batch_pool_used_def)

section \<open>The pool meets the contract\<close>

lemma batch_pool_get_slot:
  assumes "batch_pool_wf p" "batch_pool_get p = Some (Some i, p')"
  shows "batch_pool_wf p' \<and> i \<notin> batch_pool_used p \<and> batch_pool_used p' = insert i (batch_pool_used p)"
proof -
  obtain rest where fl: "bp_free_list p = i # rest" and
    p': "p' = p\<lparr>bp_free_list := rest, bp_bufs := (bp_bufs p)[i := (bp_bufs p ! i)\<lparr>bb_in_use := True\<rparr>],
      bp_free_count := bp_free_count p - 1\<rparr>"
    using assms(2) by (auto simp: batch_pool_get_def split: list.splits if_splits)
  have i: "i < BATCH_BUF_COUNT" "length (bp_bufs p) = BATCH_BUF_COUNT" "i \<notin> set rest"
    using assms(1) fl by (auto simp: batch_pool_wf_def)
  have "buf_ok (j \<notin> set rest) (bp_bufs p' ! j)" if "j < BATCH_BUF_COUNT" for j
    using assms(1) that i fl by (cases "i = j") (auto simp: batch_pool_wf_def buf_ok_def p')
  then have "batch_pool_wf p'" using assms(1) fl by (simp add: batch_pool_wf_def p')
  then show ?thesis using i fl by (auto simp: batch_pool_used_def p')
qed

lemma batch_pool_put_slot:
  assumes "batch_pool_wf p" "i \<in> batch_pool_used p"
  shows "\<exists>p'. batch_pool_put p i = Some p' \<and> batch_pool_wf p' \<and>
    batch_pool_used p' = batch_pool_used p - {i}"
proof -
  have i: "i < BATCH_BUF_COUNT" "length (bp_bufs p) = BATCH_BUF_COUNT" "i \<notin> set (bp_free_list p)"
    using assms by (auto simp: batch_pool_wf_def batch_pool_used_def)
  define p' where "p' = p\<lparr>bp_bufs := (bp_bufs p)[i := (bp_bufs p ! i)\<lparr>bb_in_use := False, bb_tx_msg := None\<rparr>],
    bp_free_list := bp_free_list p @ [i], bp_free_count := bp_free_count p + 1\<rparr>"
  have "batch_pool_put p i = Some p'" using i by (simp add: batch_pool_put_def p'_def)
  moreover have "buf_ok (j \<notin> set (bp_free_list p')) (bp_bufs p' ! j)" if "j < BATCH_BUF_COUNT" for j
    using assms(1) that i by (cases "i = j") (auto simp: batch_pool_wf_def buf_ok_def p'_def)
  then have "batch_pool_wf p'" using assms(1) i by (simp add: batch_pool_wf_def p'_def)
  moreover have "batch_pool_used p' = batch_pool_used p - {i}"
    by (auto simp: batch_pool_used_def p'_def)
  ultimately show ?thesis by blast
qed

interpretation bpool: slot_pool batch_pool_wf batch_pool_used BATCH_BUF_COUNT
  batch_pool_get batch_pool_put
proof unfold_locales
  fix p p' i
  assume wf: "batch_pool_wf p"
  show "batch_pool_used p \<subseteq> {..<BATCH_BUF_COUNT}" by (auto simp: batch_pool_used_def)
  show "batch_pool_get p \<noteq> None"
    using wf by (auto simp: batch_pool_get_def batch_pool_wf_def split: list.splits)
  show "batch_pool_wf p' \<and> i \<notin> batch_pool_used p \<and> batch_pool_used p' = insert i (batch_pool_used p)"
    if "batch_pool_get p = Some (Some i, p')" using batch_pool_get_slot [OF wf that] .
  show "p' = p \<and> batch_pool_used p = {..<BATCH_BUF_COUNT}" if "batch_pool_get p = Some (None, p')"
    using that by (auto simp: batch_pool_get_def batch_pool_used_def split: list.splits if_splits)
  show "\<exists>p'. batch_pool_put p i = Some p' \<and> batch_pool_wf p' \<and> batch_pool_used p' = batch_pool_used p - {i}"
    if "i \<in> batch_pool_used p" using batch_pool_put_slot [OF wf that] .
qed

section \<open>Allocation\<close>

definition bufs_shape :: "batch_pool \<Rightarrow> bool" where
  "bufs_shape p \<longleftrightarrow> length (bp_bufs p) = BATCH_BUF_COUNT \<and>
     list_all (\<lambda>b. length (bb_frames b) = BATCH_FRAMES) (bp_bufs p)"

lemma alloc_bufs_spec:
  assumes "bufs_shape p" "i \<le> BATCH_BUF_COUNT" "dma_sized BATCH_BUF_SIZE dma"
    "alloc_bufs dma i p live = (r, p', live')"
  shows "bufs_shape p' \<and> (case r of
      Inr _ \<Rightarrow> live' = rev [i..<BATCH_BUF_COUNT] @ live \<and>
        bp_free_list p' = bp_free_list p @ [i..<BATCH_BUF_COUNT] \<and>
        bp_free_count p' = bp_free_count p + int (BATCH_BUF_COUNT - i) \<and>
        (\<forall>j < i. bp_bufs p' ! j = bp_bufs p ! j) \<and>
        (\<forall>j. i \<le> j \<and> j < BATCH_BUF_COUNT \<longrightarrow> buf_ok False (bp_bufs p' ! j))
    | Inl k \<Rightarrow> i \<le> k \<and> k < BATCH_BUF_COUNT \<and> live' = rev [i..<k] @ live)"
  using assms
proof (induction dma i p live rule: alloc_bufs.induct)
  case (1 dma i p live)
  have upd: "bufs_shape (p\<lparr>bp_bufs := (bp_bufs p)[i := b]\<rparr>)" if "length (bb_frames b) = BATCH_FRAMES" for b
    using "1.prems"(1) that by (auto simp: bufs_shape_def list_all_update)
  have fr: "i < BATCH_BUF_COUNT \<Longrightarrow> length (bb_frames (bp_bufs p ! i)) = BATCH_FRAMES"
    using "1.prems"(1) by (auto simp: bufs_shape_def list_all_length)
  show ?case
  proof (cases "BATCH_BUF_COUNT \<le> i \<or> dma i = None")
    case True
    with "1.prems" show ?thesis using upd fr
      by (auto simp: alloc_bufs.simps [of dma i] split: if_splits)
  next
    case False
    then obtain mem where mem: "dma i = Some mem" and i: "\<not> BATCH_BUF_COUNT \<le> i" by auto
    let ?b = "(bp_bufs p ! i)\<lparr>bb_virt := Some mem, bb_in_use := False, bb_tx_msg := None, bb_frames_pending := 0\<rparr>"
    let ?p = "p\<lparr>bp_bufs := (bp_bufs p)[i := ?b], bp_free_list := bp_free_list p @ [i],
      bp_free_count := bp_free_count p + 1\<rparr>"
    from "1.prems" mem i have rec: "alloc_bufs dma (Suc i) ?p (i # live) = (r, p', live')"
      by (simp add: alloc_bufs.simps [of dma i])
    have sh: "bufs_shape ?p" using upd [of ?b] fr i by (simp add: bufs_shape_def)
    note IH = "1.IH" [OF i mem sh _ "1.prems"(3) rec]
    have up: "[i..<m] = i # [Suc i..<m]" if "i < m" for m using that by (rule upt_conv_Cons)
    have ok: "buf_ok False ?b" using fr i mem "1.prems"(3) by (simp add: buf_ok_def dma_sized_def)
    show ?thesis
    proof (cases r)
      case (Inl k)
      with IH i show ?thesis using up [of k] by auto
    next
      case (Inr u)
      with IH i have I: "bufs_shape p'" "live' = rev [Suc i..<BATCH_BUF_COUNT] @ i # live"
        "bp_free_list p' = bp_free_list p @ i # [Suc i..<BATCH_BUF_COUNT]"
        "bp_free_count p' = bp_free_count p + 1 + int (BATCH_BUF_COUNT - Suc i)"
        "\<forall>j < Suc i. bp_bufs p' ! j = bp_bufs ?p ! j"
        "\<forall>j. Suc i \<le> j \<and> j < BATCH_BUF_COUNT \<longrightarrow> buf_ok False (bp_bufs p' ! j)" by auto
      have "buf_ok False (bp_bufs p' ! j)" if "i \<le> j" "j < BATCH_BUF_COUNT" for j
        using that I(5,6) ok i "1.prems"(1) by (cases "i = j") (auto simp: bufs_shape_def)
      with I i up [of BATCH_BUF_COUNT] Inr show ?thesis by auto
    qed
  qed
qed

lemma batch_pool_alloc_success:
  assumes "bufs_shape p" "dma_sized BATCH_BUF_SIZE dma" "batch_pool_alloc dma p live = (Inr (), p', live')"
  shows "batch_pool_wf p'" "batch_pool_used p' = {}" "live' = rev [0..<BATCH_BUF_COUNT] @ live"
proof -
  have a: "alloc_bufs dma 0 (p\<lparr>bp_free_list := [], bp_free_count := 0\<rparr>) live = (Inr (), p', live')"
    using assms(3) by (auto simp: batch_pool_alloc_def split: prod.splits sum.splits)
  have "bufs_shape (p\<lparr>bp_free_list := [], bp_free_count := 0\<rparr>)" using assms(1) by (simp add: bufs_shape_def)
  from alloc_bufs_spec [OF this _ assms(2) a] show "batch_pool_wf p'" "batch_pool_used p' = {}"
    "live' = rev [0..<BATCH_BUF_COUNT] @ live"
    by (auto simp: batch_pool_wf_def batch_pool_used_def bufs_shape_def list_all_iff)
qed

lemma batch_pool_alloc_failure:
  assumes "bufs_shape p" "dma_sized BATCH_BUF_SIZE dma" "\<forall>j \<in> set live. BATCH_BUF_COUNT \<le> j"
    "batch_pool_alloc dma p live = (Inl e, p', live')"
  shows "e = ENOMEM" "live' = live" "bp_free_list p' = []" "bp_free_count p' = 0"
proof -
  obtain k q l where a: "alloc_bufs dma 0 (p\<lparr>bp_free_list := [], bp_free_count := 0\<rparr>) live = (Inl k, q, l)"
    and "e = ENOMEM" "live' = free_dma k l" "bp_free_list p' = []" "bp_free_count p' = 0"
    using assms(4) by (auto simp: batch_pool_alloc_def split: prod.splits sum.splits)
  moreover have "bufs_shape (p\<lparr>bp_free_list := [], bp_free_count := 0\<rparr>)"
    using assms(1) by (simp add: bufs_shape_def)
  from alloc_bufs_spec [OF this _ assms(2) a] assms(3) have "free_dma k l = live"
    by (auto simp: free_dma_filter filter_id_conv)
  ultimately show "e = ENOMEM" "live' = live" "bp_free_list p' = []" "bp_free_count p' = 0" by simp_all
qed

text \<open>After a failed allocation the pool is empty and safe: every request is refused.\<close>

lemma batch_pool_get_empty: "bp_free_list p = [] \<Longrightarrow> batch_pool_get p = Some (None, p)"
  by (simp add: batch_pool_get_def)

section \<open>Properties\<close>

text \<open>Batch buffers are handed out exclusively. After \<open>odl_tb5_batch_pool_alloc\<close> succeeds, no
  interleaving of \<open>odl_tb5_batch_pool_get\<close> and \<open>odl_tb5_batch_pool_put\<close> by clients that return only
  what they hold corrupts the free list or hands out a buffer that is out; a request fails only
  when all 32 are out. When the allocation fails, nothing stays allocated and every request is
  refused.\<close>

theorem batch_pool_exclusive:
  assumes "bufs_shape p0" "dma_sized BATCH_BUF_SIZE dma" "\<forall>j \<in> set live. BATCH_BUF_COUNT \<le> j"
    "batch_pool_alloc dma p0 live = (r, p1, live')"
  shows "case r of
      Inl e \<Rightarrow> e = ENOMEM \<and> live' = live \<and> batch_pool_get p1 = Some (None, p1)
    | Inr _ \<Rightarrow> \<forall>p held. pool_client batch_pool_get batch_pool_put p1 p held \<longrightarrow>
        distinct held \<and> batch_pool_get p \<noteq> None \<and> (\<forall>i \<in> set held. batch_pool_put p i \<noteq> None) \<and>
        (\<forall>i p'. batch_pool_get p = Some (Some i, p') \<longrightarrow> i \<notin> set held) \<and>
        (length held < BATCH_BUF_COUNT \<longrightarrow> (\<exists>i p'. batch_pool_get p = Some (Some i, p')))"
proof (cases r)
  case (Inl e)
  with batch_pool_alloc_failure [OF assms(1-3)] assms(4) show ?thesis by (simp add: batch_pool_get_empty)
next
  case (Inr u)
  then have "batch_pool_alloc dma p0 live = (Inr (), p1, live')" using assms(4) by simp
  note init = batch_pool_alloc_success [OF assms(1,2) this]
  show ?thesis unfolding Inr sum.case
    using bpool.client_invariant [OF _ init(1,2)] bpool.client_safe [OF _ init(1,2)]
      bpool.client_served [OF _ init(1,2)] by blast
qed

definition sample_bufs :: batch_pool where
  "sample_bufs = \<lparr>bp_bufs = replicate BATCH_BUF_COUNT
     \<lparr>bb_virt = None, bb_frames = replicate BATCH_FRAMES zero_frame, bb_tx_msg = None,
      bb_frames_pending = 0, bb_total_frames = 0, bb_in_use = False\<rparr>,
     bp_free_list = [], bp_free_count = 0\<rparr>"

theorem batch_pool_exclusive_witness:
  "(case batch_pool_alloc (\<lambda>i. if i < 2 then Some (replicate BATCH_BUF_SIZE 0) else None) sample_bufs [] of
     (r, p, live) \<Rightarrow> r = Inl ENOMEM \<and> live = [] \<and> batch_pool_get p = Some (None, p))"
proof -
  let ?dma = "\<lambda>i::nat. if i < 2 then Some (replicate BATCH_BUF_SIZE (0::byte)) else None"
  obtain r p l where a: "batch_pool_alloc ?dma sample_bufs [] = (r, p, l)" by (metis prod_cases3)
  have "bufs_shape sample_bufs" "dma_sized BATCH_BUF_SIZE ?dma"
    by (auto simp: bufs_shape_def sample_bufs_def dma_sized_def list_all_iff)
  from batch_pool_exclusive [OF this _ a] have "case r of Inl e \<Rightarrow> e = ENOMEM \<and> l = [] \<and> batch_pool_get p = Some (None, p)
    | Inr _ \<Rightarrow> True" by (auto split: sum.splits)
  moreover have "\<exists>e. r = Inl e"
    using a by (auto simp: batch_pool_alloc_def driver_consts alloc_bufs.simps)
  ultimately show ?thesis using a by auto
qed

end
