(* ===== verification/Stream_Wire.thy ===== *)
theory Stream_Wire
  imports Odl_Prelude
begin

text \<open>
  The on-wire format of stream frames: the eight byte header \<open>struct odl_tb5_stream_hdr\<close> of
  \<^verbatim>\<open>driver/odl_tb5_core.h\<close>, the control header \<open>struct odl_tb5_dma_hdr\<close>, the flags of
  \<^verbatim>\<open>driver/uapi/odl_tb5_uapi.h\<close>, and the reference definition \<open>msg_frames\<close> of what a message looks
  like on the wire, which the two send paths are compared with.
\<close>

section \<open>Headers\<close>

record stream_hdr =
  sh_src_id :: u8
  sh_dst_id :: u8
  sh_flags :: u8
  sh_reserved :: u8
  sh_payload_len :: u16
  sh_frag_idx :: u16

definition SHDR_F_MSG_START :: u8 where [driver_consts]: "SHDR_F_MSG_START = 1"
definition SHDR_F_MSG_END :: u8 where [driver_consts]: "SHDR_F_MSG_END = 2"
definition SHDR_F_SINGLE :: u8 where [driver_consts]: "SHDR_F_SINGLE = 3"

definition hdr_bytes :: "stream_hdr \<Rightarrow> byte list" where
  "hdr_bytes h = [sh_src_id h, sh_dst_id h, sh_flags h, sh_reserved h]
     @ le16 (sh_payload_len h) @ le16 (sh_frag_idx h)"

definition hdr_of_bytes :: "byte list \<Rightarrow> stream_hdr option" where
  "hdr_of_bytes bs =
     (if length bs < STREAM_HDR_SIZE then None
      else Some \<lparr>sh_src_id = bs ! 0, sh_dst_id = bs ! 1, sh_flags = bs ! 2, sh_reserved = bs ! 3,
             sh_payload_len = le16_to_cpu [bs ! 4, bs ! 5], sh_frag_idx = le16_to_cpu [bs ! 6, bs ! 7]\<rparr>)"

definition DMA_MAGIC :: u32 where "DMA_MAGIC = 0x4F444C35"
definition DMA_PING :: u32 where "DMA_PING = 1"
definition DMA_PONG :: u32 where "DMA_PONG = 2"
definition DMA_HDR_SIZE :: nat where [driver_consts]: "DMA_HDR_SIZE = 16"

definition dma_hdr_bytes :: "u32 \<Rightarrow> byte list" where
  "dma_hdr_bytes ty = le32 DMA_MAGIC @ le32 ty @ replicate 8 0"

definition dma_hdr_magic :: "byte list \<Rightarrow> u32" where
  "dma_hdr_magic bs = le32_to_cpu (take 4 bs)"

definition dma_hdr_type :: "byte list \<Rightarrow> u32" where
  "dma_hdr_type bs = le32_to_cpu (take 4 (drop 4 bs))"

lemma length_hdr_bytes [simp]: "length (hdr_bytes h) = STREAM_HDR_SIZE"
  by (simp add: hdr_bytes_def driver_consts)

lemma hdr_roundtrip [simp]: "hdr_of_bytes (hdr_bytes h @ rest) = Some h"
proof -
  have "[x, y] = le16 w \<Longrightarrow> le16_to_cpu [x, y] = w" for x y w by (metis le16_roundtrip)
  then show ?thesis
    by (simp add: hdr_of_bytes_def hdr_bytes_def le16_def driver_consts)
qed

lemma hdr_bytes_inj: "hdr_bytes h = hdr_bytes h' \<Longrightarrow> h = h'"
  by (metis append_Nil2 hdr_roundtrip option.inject)

lemma dma_hdr_roundtrip:
  "length (dma_hdr_bytes ty) = DMA_HDR_SIZE"
  "dma_hdr_magic (dma_hdr_bytes ty @ rest) = DMA_MAGIC"
  "dma_hdr_type (dma_hdr_bytes ty @ rest) = ty"
  by (simp_all add: dma_hdr_bytes_def dma_hdr_magic_def dma_hdr_type_def driver_consts)

section \<open>Messages on the wire\<close>

text \<open>The flags a sender puts in the header, from its \<open>first\<close> and \<open>last\<close> variables.\<close>

definition shdr_flags :: "bool \<Rightarrow> bool \<Rightarrow> u8" where
  "shdr_flags is_first is_last =
     (if is_first \<and> is_last then SHDR_F_SINGLE
      else if is_first then SHDR_F_MSG_START
      else if is_last then SHDR_F_MSG_END
      else 0)"

lemma shdr_flags_bits:
  "shdr_flags is_first is_last AND SHDR_F_MSG_START \<noteq> 0 \<longleftrightarrow> is_first"
  "shdr_flags is_first is_last AND SHDR_F_MSG_END \<noteq> 0 \<longleftrightarrow> is_last"
  by (cases is_first; cases is_last; simp add: shdr_flags_def driver_consts)+

definition frag_hdr :: "u8 \<Rightarrow> u8 \<Rightarrow> bool \<Rightarrow> bool \<Rightarrow> nat \<Rightarrow> u16 \<Rightarrow> stream_hdr" where
  "frag_hdr src dst is_first is_last payload idx =
     \<lparr>sh_src_id = src, sh_dst_id = dst, sh_flags = shdr_flags is_first is_last, sh_reserved = 0,
      sh_payload_len = of_nat payload, sh_frag_idx = idx\<rparr>"

text \<open>
  A message of \<open>n\<close> fragments, from fragment \<open>i\<close> on: one frame per chunk of at most 4024 bytes, numbered
  consecutively, the first flagged as the start and the last as the end.
\<close>

fun frames_from :: "u8 \<Rightarrow> u8 \<Rightarrow> nat \<Rightarrow> byte list list \<Rightarrow> byte list list" where
  "frames_from src dst i [] = []"
| "frames_from src dst i (c # cs) =
     (hdr_bytes (frag_hdr src dst (i = 0) (cs = []) (length c) (of_nat i)) @ c)
     # frames_from src dst (Suc i) cs"

definition msg_frames :: "u8 \<Rightarrow> u8 \<Rightarrow> byte list \<Rightarrow> byte list list" where
  "msg_frames src dst data = frames_from src dst 0 (chunks STREAM_PAYLOAD_MAX data)"

lemma length_frames_from [simp]: "length (frames_from src dst i cs) = length cs"
  by (induction cs arbitrary: i) auto

lemma length_msg_frames: "length (msg_frames src dst data) = DIV_ROUND_UP (length data) STREAM_PAYLOAD_MAX"
  by (simp add: msg_frames_def length_chunks)

lemma drop_frames_from: "drop n (frames_from src dst i cs) = frames_from src dst (i + n) (drop n cs)"
proof (induction n arbitrary: i cs)
  case (Suc n)
  then show ?case by (cases cs) auto
qed simp

lemma nth_frames_from:
  "k < length cs \<Longrightarrow> frames_from src dst i cs ! k =
     hdr_bytes (frag_hdr src dst (i + k = 0) (Suc k = length cs) (length (cs ! k)) (of_nat (i + k))) @ cs ! k"
proof (induction cs arbitrary: i k)
  case (Cons c cs)
  then show ?case by (cases k) (auto simp del: of_nat_add)
qed simp

end
