(* ===== verification/Device.thy ===== *)
theory Device
  imports Batch_Pool Stream_Wire
begin

text \<open>
  The state of the driver: the records of \<^verbatim>\<open>driver/odl_tb5_core.h\<close> with the fields that the
  modelled code reads or writes (locks, wait queues and work items carry no data and are left out).
  Heap objects that several parties point to, streams and transmit messages, live in maps from
  addresses; an access to an address that is not mapped is a use after free and has the value
  \<open>None\<close> in every operation.

  The two fields \<open>dev_tx_pending\<close> and \<open>dev_wire\<close> describe the NHI: the descriptors that
  \<open>tb_ring_tx\<close> accepted and that have not called back, and the bytes of every frame it accepted.
\<close>

section \<open>Messages and streams\<close>

record tx_msg =
  tm_dst_id :: u8
  tm_len :: nat
  tm_sent :: nat
  tm_frames_pending :: int
  tm_refs :: nat
  tm_completion_ref :: int
  tm_done :: bool
  tm_failed :: bool
  tm_stream :: nat

record rx_msg =
  rm_src_id :: u8
  rm_flags :: u8
  rm_data :: "byte list"
  rm_len :: nat

record stream =
  st_id :: u8
  st_owner :: "nat option"
  st_tx_queue :: "nat list"
  st_tx_completed :: int
  st_tx_in_flight :: int
  st_rx_queue :: "rx_msg list"
  st_rx_queue_len :: int
  st_rx_queue_max :: int
  st_rx_complete :: int
  rx_asm_buf :: "byte list option"
  rx_asm_len :: nat
  rx_asm_cap :: nat
  rx_asm_src_id :: u8
  rx_asm_next_frag :: u16
  rx_asm_bad :: bool
  rx_frag_drops :: int
  st_dying :: bool
  st_refcount :: nat

section \<open>Rings and transmit mode\<close>

record dma_buf =
  db_virt :: "byte list option"
  db_size :: nat

record ring_ctx =
  rc_ring :: "nat option"
  rc_frames :: "ring_frame list option"
  rc_ring_size :: nat
  rc_started :: bool
  rc_completed :: int
  rc_submitted :: int
  rc_bufs :: "dma_buf list"
  rc_front :: nat
  rc_back :: nat
  rc_posted_buf :: nat
  rc_frames_posted :: bool
  rc_swapped_since_post :: bool

datatype tx_mode = TX_LATENCY | TX_THROUGHPUT

record tx_adaptive =
  ta_mode :: tx_mode
  ta_consecutive_low :: nat
  ta_high_watermark :: nat
  ta_low_watermark :: nat

section \<open>Handshake and diagnostics\<close>

record handshake =
  hs_local_tx_hopid :: int
  hs_remote_tx_hopid :: int
  login_retries :: nat
  login_sent :: bool
  login_received :: bool
  connecting :: bool
  login_generation :: u32
  peer_ring_size :: nat
  stale_remote_tx_hopid :: int
  in_hopid_valid :: bool
  in_hopid :: int
  pong_received :: bool
  peer_ping_answered :: bool
  verify_rx_type :: u32

record rx_stats =
  rx_err_crc :: int
  rx_err_overrun :: int
  rx_canceled :: int
  rx_err_short :: int
  rx_err_len :: int
  rx_frames_ok :: int
  rx_repost_starved :: int
  rx_repost_short :: int
  rx_posted_min :: int

section \<open>The device\<close>

text \<open>
  A frame descriptor is identified by the array it lies in: the frame pool, a batch buffer, or the
  legacy descriptor arrays of the two rings.
\<close>

datatype frame_ref = PoolSlot nat | BatchFrame nat nat | LegacyTx nat | LegacyRx nat

record odl_device =
  dev_state :: conn_state
  dev_tx :: ring_ctx
  dev_rx :: ring_ctx
  dev_pool :: frame_pool
  dev_bpool :: batch_pool
  dev_adapt :: tx_adaptive
  dev_streams :: "nat list"
  dev_ida :: "nat list"
  dev_heap :: "nat \<rightharpoonup> stream"
  dev_msgs :: "nat \<rightharpoonup> tx_msg"
  dev_owners :: "nat \<Rightarrow> nat list"
  dev_rx_posted :: int
  dev_rx_target :: int
  dev_stats :: rx_stats
  dev_hs :: handshake
  dev_ctrl_reply :: bool
  dev_removing :: bool
  dev_tx_pending :: "frame_ref list"
  dev_rx_pending :: "frame_ref list"
  dev_wire :: "byte list list"

text \<open>Access to the heap objects; \<open>None\<close> is a use after free.\<close>

definition upd_stream :: "nat \<Rightarrow> (stream \<Rightarrow> stream) \<Rightarrow> odl_device \<Rightarrow> odl_device option" where
  "upd_stream a f d = (case dev_heap d a of None \<Rightarrow> None
     | Some s \<Rightarrow> Some (d\<lparr>dev_heap := (dev_heap d)(a \<mapsto> f s)\<rparr>))"

definition upd_msg :: "nat \<Rightarrow> (tx_msg \<Rightarrow> tx_msg) \<Rightarrow> odl_device \<Rightarrow> odl_device option" where
  "upd_msg a f d = (case dev_msgs d a of None \<Rightarrow> None
     | Some m \<Rightarrow> Some (d\<lparr>dev_msgs := (dev_msgs d)(a \<mapsto> f m)\<rparr>))"

text \<open>Writing the memory or the descriptor of a pool slot.\<close>

definition upd_slot :: "nat \<Rightarrow> (frame_slot \<Rightarrow> frame_slot) \<Rightarrow> odl_device \<Rightarrow> odl_device option" where
  "upd_slot i f d =
     do {
       ss \<leftarrow> fp_slots (dev_pool d);
       if i < length ss
       then Some (d\<lparr>dev_pool := (dev_pool d)\<lparr>fp_slots := Some (ss[i := f (ss ! i)])\<rparr>\<rparr>)
       else None
     }"

definition get_slot :: "nat \<Rightarrow> odl_device \<Rightarrow> frame_slot option" where
  "get_slot i d =
     do { ss \<leftarrow> fp_slots (dev_pool d); if i < length ss then Some (ss ! i) else None }"

definition PDF_SOF_DATA :: nat where "PDF_SOF_DATA = 1"
definition PDF_EOF_DATA :: nat where "PDF_EOF_DATA = 2"
definition PDF_SOF_CTRL :: nat where "PDF_SOF_CTRL = 1"
definition PDF_EOF_CTRL :: nat where "PDF_EOF_CTRL = 2"

section \<open>The NHI rings\<close>

text \<open>
  \<open>tb_ring_tx\<close> and \<open>tb_ring_rx\<close> belong to the Thunderbolt core: whether they accept a descriptor
  is the parameter \<open>ok\<close>. They dereference the ring. An accepted descriptor stays pending until its
  callback, and the bytes of an accepted TX descriptor go on the wire.
\<close>

definition tb_ring_tx :: "bool \<Rightarrow> frame_ref \<Rightarrow> byte list \<Rightarrow> odl_device \<Rightarrow> odl_device option" where
  "tb_ring_tx ok r bs d =
     (case rc_ring (dev_tx d) of
        None \<Rightarrow> None
      | Some _ \<Rightarrow> Some (if ok then d\<lparr>dev_tx_pending := dev_tx_pending d @ [r], dev_wire := dev_wire d @ [bs]\<rparr>
                         else d))"

definition tb_ring_rx :: "bool \<Rightarrow> frame_ref \<Rightarrow> odl_device \<Rightarrow> odl_device option" where
  "tb_ring_rx ok r d =
     (case rc_ring (dev_rx d) of
        None \<Rightarrow> None
      | Some _ \<Rightarrow> Some (if ok then d\<lparr>dev_rx_pending := dev_rx_pending d @ [r]\<rparr> else d))"

section \<open>Keeping the receive ring filled\<close>

definition rx_desc :: "frame_slot \<Rightarrow> frame_slot" where
  "rx_desc s = s\<lparr>fs_frame := (fs_frame s)\<lparr>rf_size := 0, rf_callback := RxCallback,
     rf_sof := PDF_SOF_DATA, rf_eof := PDF_EOF_DATA\<rparr>\<rparr>"

text \<open>
  The loop of \<open>odl_tb5_rx_repost\<close>. \<open>ok n\<close> is the outcome of the \<open>tb_ring_rx\<close> call made when
  \<open>n\<close> frames are posted.
\<close>

function rx_repost_loop :: "(int \<Rightarrow> bool) \<Rightarrow> int \<Rightarrow> int \<Rightarrow> odl_device \<Rightarrow> (int \<times> odl_device) option" where
  "rx_repost_loop ok target posted d =
     (if target \<le> posted then Some (posted, d)
      else do {
        (r, p) \<leftarrow> frame_pool_get (dev_pool d);
        case r of
          None \<Rightarrow>
            (let st = dev_stats d; shortfall = target - posted;
                 st = st\<lparr>rx_repost_starved := rx_repost_starved st + 1\<rparr>;
                 st = (if rx_repost_short st < shortfall then st\<lparr>rx_repost_short := shortfall\<rparr> else st)
             in Some (posted, d\<lparr>dev_pool := p, dev_stats := st\<rparr>))
        | Some i \<Rightarrow> do {
            d \<leftarrow> upd_slot i rx_desc (d\<lparr>dev_pool := p\<rparr>);
            d \<leftarrow> tb_ring_rx (ok posted) (PoolSlot i) d;
            if ok posted
            then rx_repost_loop ok target (posted + 1) (d\<lparr>dev_rx_posted := dev_rx_posted d + 1\<rparr>)
            else do {
              p \<leftarrow> frame_pool_put (dev_pool d) i;
              Some (posted, d\<lparr>dev_pool := p\<rparr>)
            }
          }
      })"
  by pat_completeness auto
termination
  by (relation "measure (\<lambda>(ok, target, posted, d). nat (target - posted))") auto

declare rx_repost_loop.simps [simp del]

definition rx_repost :: "(int \<Rightarrow> bool) \<Rightarrow> odl_device \<Rightarrow> odl_device option" where
  "rx_repost ok d =
     do {
       (posted, d) \<leftarrow> rx_repost_loop ok (dev_rx_target d) (dev_rx_posted d) d;
       Some (if posted < rx_posted_min (dev_stats d)
             then d\<lparr>dev_stats := (dev_stats d)\<lparr>rx_posted_min := posted\<rparr>\<rparr> else d)
     }"

text \<open>Writing a slot keeps the pool well formed when it keeps the slot's index, use mark and size.\<close>

definition keeps_slot :: "(frame_slot \<Rightarrow> frame_slot) \<Rightarrow> bool" where
  "keeps_slot f \<longleftrightarrow> (\<forall>s. slot_idx (f s) = slot_idx s \<and> fs_in_use (f s) = fs_in_use s \<and>
     map_option length (fs_virt (f s)) = map_option length (fs_virt s))"

lemma keeps_slot_rx_desc [simp]: "keeps_slot rx_desc"
  by (simp add: keeps_slot_def rx_desc_def)

lemma slot_ok_keeps:
  assumes "keeps_slot f" "slot_ok b i s"
  shows "slot_ok b i (f s)"
proof -
  obtain mem where "fs_virt s = Some mem" "length mem = FRAME_SIZE"
    using assms(2) by (auto simp: slot_ok_def split: option.splits)
  moreover have "map_option length (fs_virt (f s)) = map_option length (fs_virt s)"
    using assms(1) by (simp add: keeps_slot_def)
  ultimately have "\<exists>mem. fs_virt (f s) = Some mem \<and> length mem = FRAME_SIZE"
    by (cases "fs_virt (f s)") simp_all
  moreover have "slot_idx (f s) = slot_idx s" "fs_in_use (f s) = fs_in_use s"
    using assms(1) by (simp_all add: keeps_slot_def)
  ultimately show ?thesis using assms(2) by (auto simp: slot_ok_def)
qed

lemma upd_slot_wf:
  assumes "frame_pool_wf (dev_pool d)" "i < FRAME_POOL_SIZE" "keeps_slot f"
  shows "\<exists>p. upd_slot i f d = Some (d\<lparr>dev_pool := p\<rparr>) \<and> frame_pool_wf p \<and>
    frame_pool_used p = frame_pool_used (dev_pool d) \<and> fp_free_count p = fp_free_count (dev_pool d)"
proof -
  obtain ss bm where wf: "fp_slots (dev_pool d) = Some ss" "fp_bitmap (dev_pool d) = Some bm"
    "fp_size (dev_pool d) = FRAME_POOL_SIZE" "length ss = FRAME_POOL_SIZE" "length bm = FRAME_POOL_SIZE"
    "\<And>j. j < FRAME_POOL_SIZE \<Longrightarrow> slot_ok (bm ! j) j (ss ! j)"
    "fp_free_count (dev_pool d) = int (count_list bm False)"
    using assms(1) by (rule frame_pool_wfE) blast
  let ?p = "(dev_pool d)\<lparr>fp_slots := Some (ss[i := f (ss ! i)])\<rparr>"
  have "slot_ok (bm ! j) j (ss[i := f (ss ! i)] ! j)" if "j < FRAME_POOL_SIZE" for j
    using wf(4,6) assms(2,3) that slot_ok_keeps by (cases "i = j") auto
  then have "frame_pool_wf ?p" using wf by (simp add: frame_pool_wf_def)
  moreover have "upd_slot i f d = Some (d\<lparr>dev_pool := ?p\<rparr>)"
    using wf assms(2) by (simp add: upd_slot_def)
  ultimately show ?thesis by (intro exI [of _ ?p]) (simp add: frame_pool_used_def)
qed

lemma rx_repost_step:
  assumes "frame_pool_wf (dev_pool d)" "rc_ring (dev_rx d) \<noteq> None" "\<not> target \<le> posted"
  obtains (starved) st where "frame_pool_used (dev_pool d) = {..<FRAME_POOL_SIZE}"
      "rx_repost_loop ok target posted d = Some (posted, d\<lparr>dev_stats := st\<rparr>)"
  | (refused) p where "\<not> ok posted" "frame_pool_wf p"
      "frame_pool_used p = frame_pool_used (dev_pool d)"
      "rx_repost_loop ok target posted d = Some (posted, d\<lparr>dev_pool := p\<rparr>)"
  | (posted) i p where "ok posted" "i < FRAME_POOL_SIZE" "i \<notin> frame_pool_used (dev_pool d)" "frame_pool_wf p"
      "frame_pool_used p = insert i (frame_pool_used (dev_pool d))"
      "rx_repost_loop ok target posted d = rx_repost_loop ok target (posted + 1)
         (d\<lparr>dev_pool := p, dev_rx_pending := dev_rx_pending d @ [PoolSlot i],
            dev_rx_posted := dev_rx_posted d + 1\<rparr>)"
  using assms(1)
proof (cases rule: frame_pool_get_cases)
  case full
  note step = rx_repost_loop.simps [of ok target posted d]
  let ?st = "let st = (dev_stats d)\<lparr>rx_repost_starved := rx_repost_starved (dev_stats d) + 1\<rparr>
    in if rx_repost_short st < target - posted then st\<lparr>rx_repost_short := target - posted\<rparr> else st"
  have "rx_repost_loop ok target posted d = Some (posted, d\<lparr>dev_stats := ?st\<rparr>)"
    unfolding step using full assms(3) by (simp add: Let_def)
  with full(2) show thesis by (rule starved)
next
  case (slot i p)
  note step = rx_repost_loop.simps [of ok target posted d]
  obtain q where q: "upd_slot i rx_desc (d\<lparr>dev_pool := p\<rparr>) = Some (d\<lparr>dev_pool := q\<rparr>)" "frame_pool_wf q"
    "frame_pool_used q = insert i (frame_pool_used (dev_pool d))"
    using upd_slot_wf [of "d\<lparr>dev_pool := p\<rparr>" i rx_desc] slot by auto
  obtain r where r: "rc_ring (dev_rx d) = Some r" using assms(2) by auto
  show thesis
  proof (cases "ok posted")
    case True
    then have "rx_repost_loop ok target posted d = rx_repost_loop ok target (posted + 1)
         (d\<lparr>dev_pool := q, dev_rx_pending := dev_rx_pending d @ [PoolSlot i],
            dev_rx_posted := dev_rx_posted d + 1\<rparr>)"
      unfolding step using slot(1) q(1) r assms(3) by (simp add: tb_ring_rx_def)
    with True slot(2,4) q(2,3) show thesis by (rule posted)
  next
    case False
    obtain q' where q': "frame_pool_put q i = Some q'" "frame_pool_wf q'"
      "frame_pool_used q' = frame_pool_used (dev_pool d)"
      using frame_pool_put_used [OF q(2), of i] q(3) slot(4) by auto
    have "rx_repost_loop ok target posted d = Some (posted, d\<lparr>dev_pool := q'\<rparr>)"
      unfolding step using False slot(1) q(1) q'(1) r assms(3) by (simp add: tb_ring_rx_def)
    with False q'(2,3) show thesis by (rule refused)
  qed
qed

text \<open>What reposting does: it posts new, distinct slots, never more than the target, and all of them
  when the ring accepts every descriptor and the pool has enough; nothing else changes but counters.\<close>

definition reposted :: "odl_device \<Rightarrow> nat list \<Rightarrow> frame_pool \<Rightarrow> rx_stats \<Rightarrow> odl_device" where
  "reposted d new p st = d\<lparr>dev_pool := p, dev_rx_pending := dev_rx_pending d @ map PoolSlot new,
     dev_rx_posted := dev_rx_posted d + int (length new), dev_stats := st\<rparr>"

definition repost_ok :: "odl_device \<Rightarrow> int \<Rightarrow> nat list \<Rightarrow> frame_pool \<Rightarrow> bool" where
  "repost_ok d room new p \<longleftrightarrow> frame_pool_wf p \<and> distinct new \<and>
     set new \<inter> frame_pool_used (dev_pool d) = {} \<and>
     frame_pool_used p = set new \<union> frame_pool_used (dev_pool d) \<and> int (length new) \<le> max 0 room"

lemma rx_repost_loop_spec:
  assumes "frame_pool_wf (dev_pool d)" "rc_ring (dev_rx d) \<noteq> None"
  shows "\<exists>new p st. rx_repost_loop ok target posted d = Some (posted + int (length new), reposted d new p st) \<and>
    repost_ok d (target - posted) new p \<and>
    ((\<forall>n. ok n) \<longrightarrow> length new = min (nat (target - posted)) (FRAME_POOL_SIZE - card (frame_pool_used (dev_pool d))))"
  using assms
proof (induction "nat (target - posted)" arbitrary: posted d)
  case 0
  then show ?case
    by (intro exI [of _ "[]"] exI [of _ "dev_pool d"] exI [of _ "dev_stats d"])
      (simp add: rx_repost_loop.simps [of ok target posted d] repost_ok_def reposted_def)
next
  case (Suc k)
  then have False: "\<not> target \<le> posted" and k: "k = nat (target - (posted + 1))" by auto
  from Suc.prems False show ?case
  proof (cases rule: rx_repost_step [where ok = ok])
    case (starved st)
    with Suc.prems(1) show ?thesis
      by (intro exI [of _ "[]"] exI [of _ "dev_pool d"] exI [of _ st]) (simp add: repost_ok_def reposted_def)
  next
    case (refused p)
    then show ?thesis
      by (intro exI [of _ "[]"] exI [of _ p] exI [of _ "dev_stats d"]) (auto simp: repost_ok_def reposted_def)
  next
    case (posted i p)
    let ?d = "d\<lparr>dev_pool := p, dev_rx_pending := dev_rx_pending d @ [PoolSlot i],
          dev_rx_posted := dev_rx_posted d + 1\<rparr>"
    obtain new q st where IH: "rx_repost_loop ok target (posted + 1) ?d
        = Some (posted + 1 + int (length new), reposted ?d new q st)"
      "repost_ok ?d (target - (posted + 1)) new q"
      "(\<forall>n. ok n) \<longrightarrow> length new = min (nat (target - (posted + 1))) (FRAME_POOL_SIZE - card (frame_pool_used p))"
      using Suc.hyps(1) [OF k, of ?d] posted(4) Suc.prems(2) by auto
    have "card (frame_pool_used p) = Suc (card (frame_pool_used (dev_pool d)))"
      using posted(3,5) frame_pool_used_bounded [of "dev_pool d"] finite_subset by fastforce
    moreover have "card (frame_pool_used p) \<le> FRAME_POOL_SIZE"
      using fpool.card_used_le [OF posted(4)] .
    ultimately have "(\<forall>n. ok n) \<longrightarrow> length (i # new)
        = min (nat (target - posted)) (FRAME_POOL_SIZE - card (frame_pool_used (dev_pool d)))"
      using IH(3) k Suc.hyps(2) unfolding list.size by (intro impI) (drule (1) mp, linarith)
    moreover have "reposted ?d new q st = reposted d (i # new) q st" by (simp add: reposted_def)
    moreover have "repost_ok d (target - posted) (i # new) q"
      using IH(2) posted(3,5) False by (auto simp: repost_ok_def)
    ultimately show ?thesis using posted(6) IH(1)
      by (intro exI [of _ "i # new"] exI [of _ q] exI [of _ st]) simp
  qed
qed

lemma rx_repost_spec:
  assumes "frame_pool_wf (dev_pool d)" "rc_ring (dev_rx d) \<noteq> None"
  obtains new p st where "rx_repost ok d = Some (reposted d new p st)"
    "repost_ok d (dev_rx_target d - dev_rx_posted d) new p"
    "(\<forall>n. ok n) \<Longrightarrow> length new = min (nat (dev_rx_target d - dev_rx_posted d))
       (FRAME_POOL_SIZE - card (frame_pool_used (dev_pool d)))"
proof -
  obtain new p st where L: "rx_repost_loop ok (dev_rx_target d) (dev_rx_posted d) d
      = Some (dev_rx_posted d + int (length new), reposted d new p st)"
    "repost_ok d (dev_rx_target d - dev_rx_posted d) new p"
    "(\<forall>n. ok n) \<longrightarrow> length new = min (nat (dev_rx_target d - dev_rx_posted d))
       (FRAME_POOL_SIZE - card (frame_pool_used (dev_pool d)))"
    using rx_repost_loop_spec [OF assms] by metis
  have "\<exists>st'. rx_repost ok d = Some (reposted d new p st')"
    unfolding rx_repost_def L(1) by (auto simp: reposted_def)
  with L(2,3) that show thesis by blast
qed

end
