(* ===== verification/Streams.thy ===== *)
theory Streams
  imports Device
begin

text \<open>
  The life cycle of streams (\<^verbatim>\<open>driver/odl_tb5_ring_dma.c\<close>, lines 1439 to 1647): creation with a
  number from the device's ID allocator, lookup by number with a reference taken, destruction, and
  the reference count that decides when the object is freed. The hash table is the list
  \<open>dev_streams\<close> of addresses, the latest first; since at most one stream in it has a given number,
  the order of the buckets does not matter for lookup.
\<close>

section \<open>The ID allocator\<close>

text \<open>\<open>ida_alloc_range\<close> of the kernel returns the smallest free number of the range, or -ENOSPC;
  \<open>mem\<close> says whether the allocations it makes itself succeed.\<close>

definition ida_alloc_range :: "bool \<Rightarrow> nat list \<Rightarrow> nat \<Rightarrow> nat \<Rightarrow> errno + nat" where
  "ida_alloc_range mem ida lo hi =
     (if \<not> mem then Inl ENOMEM
      else case find (\<lambda>i. i \<notin> set ida) [lo..<Suc hi] of None \<Rightarrow> Inl ENOSPC | Some i \<Rightarrow> Inr i)"

section \<open>Operations\<close>

text \<open>
  The queue of unsent messages of a stream is freed with it; a message that is no longer allocated
  would be freed twice, which is undefined.
\<close>

fun free_msgs :: "nat list \<Rightarrow> (nat \<rightharpoonup> tx_msg) \<Rightarrow> (nat \<rightharpoonup> tx_msg) option" where
  "free_msgs [] ms = Some ms"
| "free_msgs (a # as) ms = (case ms a of None \<Rightarrow> None | Some _ \<Rightarrow> free_msgs as (ms(a := None)))"

definition stream_free :: "nat \<Rightarrow> odl_device \<Rightarrow> odl_device option" where
  "stream_free a d =
     do {
       s \<leftarrow> dev_heap d a;
       ms \<leftarrow> free_msgs (st_tx_queue s) (dev_msgs d);
       Some (d\<lparr>dev_msgs := ms, dev_heap := (dev_heap d)(a := None)\<rparr>)
     }"

text \<open>\<open>kref_put (&stream->refcount, odl_tb5_stream_free)\<close>\<close>

definition stream_put :: "nat \<Rightarrow> odl_device \<Rightarrow> odl_device option" where
  "stream_put a d =
     do {
       s \<leftarrow> dev_heap d a;
       case st_refcount s of
         0 \<Rightarrow> None
       | Suc n \<Rightarrow>
           if n = 0 then stream_free a d
           else Some (d\<lparr>dev_heap := (dev_heap d)(a \<mapsto> s\<lparr>st_refcount := n\<rparr>)\<rparr>)
     }"

definition new_stream :: "u8 \<Rightarrow> nat option \<Rightarrow> stream" where
  "new_stream i owner = \<lparr>st_id = i, st_owner = owner, st_tx_queue = [], st_tx_completed = 0,
     st_tx_in_flight = 0, st_rx_queue = [], st_rx_queue_len = 0, st_rx_queue_max = 65536,
     st_rx_complete = 0, rx_asm_buf = None, rx_asm_len = 0, rx_asm_cap = 0, rx_asm_src_id = 0,
     rx_asm_next_frag = 0, rx_asm_bad = False, rx_frag_drops = 0, st_dying = False, st_refcount = 1\<rparr>"

definition add_owned :: "nat option \<Rightarrow> nat \<Rightarrow> odl_device \<Rightarrow> odl_device" where
  "add_owned owner a d = (case owner of None \<Rightarrow> d
     | Some c \<Rightarrow> d\<lparr>dev_owners := (dev_owners d)(c := a # dev_owners d c)\<rparr>)"

definition del_owned :: "nat option \<Rightarrow> nat \<Rightarrow> odl_device \<Rightarrow> odl_device" where
  "del_owned owner a d = (case owner of None \<Rightarrow> d
     | Some c \<Rightarrow> d\<lparr>dev_owners := (dev_owners d)(c := removeAll a (dev_owners d c))\<rparr>)"

text \<open>
  \<open>alloc\<close> is the address \<open>kzalloc\<close> returns, \<open>mem\<close> the fate of the ID allocator's own allocation and
  \<open>rx_ok\<close> the ring's answers to the receive descriptors that the first stream posts.
\<close>

definition stream_create ::
  "nat option \<Rightarrow> bool \<Rightarrow> (int \<Rightarrow> bool) \<Rightarrow> nat option \<Rightarrow> u8 \<Rightarrow> odl_device
    \<Rightarrow> ((errno + nat) \<times> odl_device) option" where
  "stream_create alloc mem rx_ok owner filter_id d =
     (case alloc of
        None \<Rightarrow> Some (Inl ENOMEM, d)
      | Some a \<Rightarrow>
          case (if filter_id = 0 then ida_alloc_range mem (dev_ida d) 20 255
                else if filter_id < 1 then Inl EINVAL
                else ida_alloc_range mem (dev_ida d) (unat filter_id) (unat filter_id)) of
            Inl e \<Rightarrow> Some (Inl e, d)
          | Inr i \<Rightarrow>
              let d = d\<lparr>dev_ida := i # dev_ida d,
                        dev_heap := (dev_heap d)(a \<mapsto> new_stream (of_nat i) owner),
                        dev_streams := a # dev_streams d\<rparr>;
                  d = add_owned owner a d
              in if dev_rx_target d = 0 \<and> fp_slots (dev_pool d) \<noteq> None
                 then do {
                   d \<leftarrow> rx_repost rx_ok (d\<lparr>dev_rx_target := int (fp_size (dev_pool d) div 2)\<rparr>);
                   Some (Inr a, d)
                 }
                 else Some (Inr a, d))"

text \<open>Deleting a node that is not hashed corrupts the table: undefined.\<close>

definition stream_destroy :: "nat \<Rightarrow> odl_device \<Rightarrow> odl_device option" where
  "stream_destroy a d =
     do {
       s \<leftarrow> dev_heap d a;
       if a \<notin> set (dev_streams d) then None
       else
         let d = d\<lparr>dev_heap := (dev_heap d)(a \<mapsto> s\<lparr>st_dying := True\<rparr>),
                   dev_streams := removeAll a (dev_streams d)\<rparr>;
             d = del_owned (st_owner s) a d;
             d = d\<lparr>dev_ida := removeAll (unat (st_id s)) (dev_ida d)\<rparr>
         in stream_put a d
     }"

fun destroy_each :: "nat list \<Rightarrow> odl_device \<Rightarrow> odl_device option" where
  "destroy_each [] d = Some d"
| "destroy_each (a # as) d = do { d \<leftarrow> stream_destroy a d; destroy_each as d }"

definition streams_destroy_all :: "odl_device \<Rightarrow> odl_device option" where
  "streams_destroy_all d = destroy_each (dev_streams d) d"

text \<open>
  The lookup stops at the first entry with the number; it fails when that entry's count is zero
  already.
\<close>

fun lookup_chain :: "u8 \<Rightarrow> nat list \<Rightarrow> odl_device \<Rightarrow> (nat option \<times> odl_device) option" where
  "lookup_chain i [] d = Some (None, d)"
| "lookup_chain i (a # as) d =
     do {
       s \<leftarrow> dev_heap d a;
       if st_id s = i then
         (if st_refcount s = 0 then Some (None, d)
          else Some (Some a, d\<lparr>dev_heap := (dev_heap d)(a \<mapsto> s\<lparr>st_refcount := Suc (st_refcount s)\<rparr>)\<rparr>))
       else lookup_chain i as d
     }"

definition stream_lookup :: "u8 \<Rightarrow> odl_device \<Rightarrow> (nat option \<times> odl_device) option" where
  "stream_lookup i d = lookup_chain i (dev_streams d) d"

section \<open>The contract of a registry of counted objects\<close>

text \<open>
  \<open>pub\<close> is what the registry publishes under each key, \<open>alive\<close> the objects that are allocated, and
  the invariant is relative to \<open>ext\<close>, the number of references that clients hold to each object.
\<close>

inductive reg_client ::
  "('k \<Rightarrow> 'd \<Rightarrow> (nat option \<times> 'd) option) \<Rightarrow> (nat \<Rightarrow> 'd \<Rightarrow> 'd option) \<Rightarrow> (nat \<Rightarrow> 'd \<Rightarrow> 'd option) \<Rightarrow>
   ('d \<Rightarrow> 'k \<Rightarrow> nat \<Rightarrow> 'd \<Rightarrow> bool) \<Rightarrow> ('d \<Rightarrow> 'k \<Rightarrow> nat option) \<Rightarrow> 'd \<Rightarrow> (nat \<Rightarrow> nat) \<Rightarrow> 'd \<Rightarrow> bool"
  for lookup put destroy create pub d0 where
  reg_init: "reg_client lookup put destroy create pub d0 (\<lambda>_. 0) d0"
| reg_create: "reg_client lookup put destroy create pub d0 ext d \<Longrightarrow> create d k a d' \<Longrightarrow>
    reg_client lookup put destroy create pub d0 ext d'"
| reg_found: "reg_client lookup put destroy create pub d0 ext d \<Longrightarrow> lookup k d = Some (Some a, d') \<Longrightarrow>
    reg_client lookup put destroy create pub d0 (ext(a := Suc (ext a))) d'"
| reg_missing: "reg_client lookup put destroy create pub d0 ext d \<Longrightarrow> lookup k d = Some (None, d') \<Longrightarrow>
    reg_client lookup put destroy create pub d0 ext d'"
| reg_put: "reg_client lookup put destroy create pub d0 ext d \<Longrightarrow> 0 < ext a \<Longrightarrow> put a d = Some d' \<Longrightarrow>
    reg_client lookup put destroy create pub d0 (ext(a := ext a - 1)) d'"
| reg_destroy: "reg_client lookup put destroy create pub d0 ext d \<Longrightarrow> pub d k = Some a \<Longrightarrow>
    destroy a d = Some d' \<Longrightarrow> reg_client lookup put destroy create pub d0 ext d'"

locale counted_registry =
  fixes inv :: "(nat \<Rightarrow> nat) \<Rightarrow> 'd \<Rightarrow> bool"
    and pub :: "'d \<Rightarrow> 'k \<Rightarrow> nat option"
    and alive :: "'d \<Rightarrow> nat set"
    and lookup :: "'k \<Rightarrow> 'd \<Rightarrow> (nat option \<times> 'd) option"
    and put :: "nat \<Rightarrow> 'd \<Rightarrow> 'd option"
    and destroy :: "nat \<Rightarrow> 'd \<Rightarrow> 'd option"
    and create :: "'d \<Rightarrow> 'k \<Rightarrow> nat \<Rightarrow> 'd \<Rightarrow> bool"
  assumes alive_iff: "inv ext d \<Longrightarrow> a \<in> alive d \<longleftrightarrow> 0 < ext a \<or> (\<exists>k. pub d k = Some a)"
    and lookup_law: "inv ext d \<Longrightarrow> \<exists>d'. lookup k d = Some (pub d k, d') \<and> pub d' = pub d \<and>
      inv (case pub d k of None \<Rightarrow> ext | Some a \<Rightarrow> ext(a := Suc (ext a))) d'"
    and put_law: "inv ext d \<Longrightarrow> 0 < ext a \<Longrightarrow>
      \<exists>d'. put a d = Some d' \<and> pub d' = pub d \<and> inv (ext(a := ext a - 1)) d'"
    and destroy_law: "inv ext d \<Longrightarrow> pub d k = Some a \<Longrightarrow>
      \<exists>d'. destroy a d = Some d' \<and> pub d' = (pub d)(k := None) \<and> inv ext d'"
    and create_law: "inv ext d \<Longrightarrow> create d k a d' \<Longrightarrow>
      inv ext d' \<and> pub d k = None \<and> pub d' = (pub d)(k := Some a)"
begin

lemma reg_client_inv:
  assumes "reg_client lookup put destroy create pub d0 ext d" "inv (\<lambda>_. 0) d0"
  shows "inv ext d"
  using assms
proof (induction rule: reg_client.induct)
  case (reg_create ext d k a d')
  then show ?case using create_law by blast
next
  case (reg_found ext d k a d')
  then have "pub d k = Some a" using lookup_law [of ext d k] by auto
  with reg_found show ?case using lookup_law [of ext d k] by (auto simp: fun_upd_def)
next
  case (reg_missing ext d k d')
  then have "pub d k = None" using lookup_law [of ext d k] by auto
  with reg_missing show ?case using lookup_law [of ext d k] by auto
next
  case (reg_put ext d a d')
  then show ?case using put_law [of ext d a] by (auto simp: fun_upd_def)
next
  case (reg_destroy ext d k a d')
  then show ?case using destroy_law [of ext d k a] by auto
qed simp

lemma reg_client_safe:
  assumes "reg_client lookup put destroy create pub d0 ext d" "inv (\<lambda>_. 0) d0"
  shows "\<exists>d'. lookup k d = Some (pub d k, d')"
    "0 < ext a \<Longrightarrow> put a d \<noteq> None"
    "pub d k = Some a \<Longrightarrow> \<exists>d'. destroy a d = Some d' \<and> pub d' = (pub d)(k := None)"
    "a \<in> alive d \<longleftrightarrow> 0 < ext a \<or> (\<exists>k. pub d k = Some a)"
proof -
  note I = reg_client_inv [OF assms]
  show "\<exists>d'. lookup k d = Some (pub d k, d')" using lookup_law [OF I] by blast
  show "0 < ext a \<Longrightarrow> put a d \<noteq> None" using put_law [OF I, of a] by auto
  show "pub d k = Some a \<Longrightarrow> \<exists>d'. destroy a d = Some d' \<and> pub d' = (pub d)(k := None)"
    using destroy_law [OF I] by blast
  show "a \<in> alive d \<longleftrightarrow> 0 < ext a \<or> (\<exists>k. pub d k = Some a)" using alive_iff [OF I] .
qed

end

section \<open>The stream invariant\<close>

definition rx_base_ok :: "odl_device \<Rightarrow> bool" where
  "rx_base_ok d \<longleftrightarrow> (fp_slots (dev_pool d) \<noteq> None \<longrightarrow> frame_pool_wf (dev_pool d)) \<and> rc_ring (dev_rx d) \<noteq> None"

definition stream_ok :: "nat \<Rightarrow> bool \<Rightarrow> stream option \<Rightarrow> bool" where
  "stream_ok n hashed so \<longleftrightarrow>
     (case so of
        None \<Rightarrow> n = 0 \<and> \<not> hashed
      | Some s \<Rightarrow> st_refcount s = n + (if hashed then 1 else 0) \<and> 0 < st_refcount s \<and>
          st_tx_queue s = [] \<and> st_dying s = (\<not> hashed))"

definition stream_num :: "odl_device \<Rightarrow> nat \<Rightarrow> nat" where
  "stream_num d a = unat (st_id (the (dev_heap d a)))"

definition streams_wf :: "(nat \<Rightarrow> nat) \<Rightarrow> odl_device \<Rightarrow> bool" where
  "streams_wf ext d \<longleftrightarrow> rx_base_ok d \<and> distinct (dev_ida d) \<and> 0 \<notin> set (dev_ida d) \<and>
     dev_ida d = map (stream_num d) (dev_streams d) \<and>
     (\<forall>a. stream_ok (ext a) (a \<in> set (dev_streams d)) (dev_heap d a))"

definition stream_pub :: "odl_device \<Rightarrow> u8 \<Rightarrow> nat option" where
  "stream_pub d i = find (\<lambda>a. st_id (the (dev_heap d a)) = i) (dev_streams d)"

definition stream_created :: "odl_device \<Rightarrow> u8 \<Rightarrow> nat \<Rightarrow> odl_device \<Rightarrow> bool" where
  "stream_created d i a d' \<longleftrightarrow> dev_heap d a = None \<and>
     (\<exists>mem rx_ok owner filter_id. stream_create (Some a) mem rx_ok owner filter_id d = Some (Inr a, d') \<and>
        st_id (the (dev_heap d' a)) = i)"

lemma streams_wfD:
  assumes "streams_wf ext d"
  shows "rx_base_ok d" "distinct (dev_ida d)" "0 \<notin> set (dev_ida d)"
    "dev_ida d = map (stream_num d) (dev_streams d)" "distinct (dev_streams d)"
    "stream_ok (ext a) (a \<in> set (dev_streams d)) (dev_heap d a)"
    "a \<in> set (dev_streams d) \<Longrightarrow> \<exists>s. dev_heap d a = Some s \<and> 0 < st_refcount s"
proof -
  show I: "rx_base_ok d" "distinct (dev_ida d)" "0 \<notin> set (dev_ida d)"
    "dev_ida d = map (stream_num d) (dev_streams d)"
    and ok: "stream_ok (ext a) (a \<in> set (dev_streams d)) (dev_heap d a)" for a
    using assms by (auto simp: streams_wf_def)
  from I(2,4) show "distinct (dev_streams d)" by (metis distinct_map)
  show "a \<in> set (dev_streams d) \<Longrightarrow> \<exists>s. dev_heap d a = Some s \<and> 0 < st_refcount s"
    using ok [of a] by (auto simp: stream_ok_def split: option.splits)
qed

lemma stream_num_inj:
  assumes "streams_wf ext d" "a \<in> set (dev_streams d)" "b \<in> set (dev_streams d)"
    "st_id (the (dev_heap d a)) = st_id (the (dev_heap d b))"
  shows "a = b"
proof -
  have "inj_on (stream_num d) (set (dev_streams d))"
    using streams_wfD(2,4) [OF assms(1)] by (metis distinct_map)
  moreover have "stream_num d a = stream_num d b" using assms(4) by (simp add: stream_num_def)
  ultimately show ?thesis using assms(2,3) by (blast dest: inj_onD)
qed

lemma stream_pub_iff:
  assumes "streams_wf ext d"
  shows "stream_pub d i = Some a \<longleftrightarrow> a \<in> set (dev_streams d) \<and> st_id (the (dev_heap d a)) = i"
proof
  assume "stream_pub d i = Some a"
  then show "a \<in> set (dev_streams d) \<and> st_id (the (dev_heap d a)) = i"
    by (auto simp: stream_pub_def find_Some_iff)
next
  assume a: "a \<in> set (dev_streams d) \<and> st_id (the (dev_heap d a)) = i"
  then obtain b where b: "stream_pub d i = Some b"
    by (cases "stream_pub d i") (auto simp: stream_pub_def find_None_iff)
  then have "b \<in> set (dev_streams d)" "st_id (the (dev_heap d b)) = i"
    by (auto simp: stream_pub_def find_Some_iff)
  with a stream_num_inj [OF assms, of a b] b show "stream_pub d i = Some a" by auto
qed

text \<open>A published map is determined by its graph.\<close>

lemma stream_pub_eqI:
  assumes "streams_wf ext d" "\<And>i a. (a \<in> set (dev_streams d) \<and> st_id (the (dev_heap d a)) = i) = (g i = Some a)"
  shows "stream_pub d = g"
proof
  fix i
  show "stream_pub d i = g i"
  proof (cases "g i")
    case None
    with assms(2) stream_pub_iff [OF assms(1)] show ?thesis by (metis not_None_eq)
  next
    case (Some a)
    with assms(2) stream_pub_iff [OF assms(1)] show ?thesis by metis
  qed
qed

lemma lookup_chain_find:
  assumes "\<And>a. a \<in> set as \<Longrightarrow> \<exists>s. dev_heap d a = Some s \<and> 0 < st_refcount s"
  shows "lookup_chain i as d =
    (case find (\<lambda>a. st_id (the (dev_heap d a)) = i) as of
       None \<Rightarrow> Some (None, d)
     | Some a \<Rightarrow> Some (Some a, d\<lparr>dev_heap := (dev_heap d)(a \<mapsto> (the (dev_heap d a))
         \<lparr>st_refcount := Suc (st_refcount (the (dev_heap d a)))\<rparr>)\<rparr>))"
  using assms
proof (induction as)
  case (Cons a as)
  then obtain s where "dev_heap d a = Some s" "0 < st_refcount s" by auto
  with Cons show ?case by auto
qed simp

text \<open>Changing a stream without touching its number keeps the registry.\<close>

lemma streams_wf_upd:
  assumes "streams_wf ext d" "dev_heap d a = Some s" "st_id s' = st_id s"
    "stream_ok (ext' a) (a \<in> set (dev_streams d)) (Some s')" "\<And>b. b \<noteq> a \<Longrightarrow> ext' b = ext b"
  shows "streams_wf ext' (d\<lparr>dev_heap := (dev_heap d)(a \<mapsto> s')\<rparr>)"
    "stream_pub (d\<lparr>dev_heap := (dev_heap d)(a \<mapsto> s')\<rparr>) = stream_pub d"
proof -
  let ?d = "d\<lparr>dev_heap := (dev_heap d)(a \<mapsto> s')\<rparr>"
  have num: "stream_num ?d = stream_num d" using assms(2,3) by (auto simp: stream_num_def)
  show wf: "streams_wf ext' ?d"
    using streams_wfD(1-4,6) [OF assms(1)] assms(4,5) unfolding streams_wf_def num
    by (auto simp: rx_base_ok_def)
  show "stream_pub ?d = stream_pub d"
    using assms(2,3) by (auto simp: stream_pub_def intro!: ext arg_cong2 [where f = find])
qed

lemma stream_put_eq:
  assumes "dev_heap d a = Some s" "st_tx_queue s = []" "st_refcount s = Suc n"
  shows "stream_put a d = Some (d\<lparr>dev_heap := (dev_heap d)(a :=
    (if n = 0 then None else Some (s\<lparr>st_refcount := n\<rparr>)))\<rparr>)"
  using assms by (simp add: stream_put_def stream_free_def)

lemma stream_put_law:
  assumes "streams_wf ext d" "0 < ext a"
  shows "\<exists>d'. stream_put a d = Some d' \<and> stream_pub d' = stream_pub d \<and> streams_wf (ext(a := ext a - 1)) d'"
proof -
  note ok = streams_wfD(6) [OF assms(1), of a]
  then obtain s where s: "dev_heap d a = Some s" "st_tx_queue s = []"
    "st_refcount s = ext a + (if a \<in> set (dev_streams d) then 1 else 0)"
    using assms(2) by (auto simp: stream_ok_def split: option.splits)
  define n where "n = st_refcount s - 1"
  have n: "st_refcount s = Suc n" using s(3) assms(2) by (simp add: n_def)
  show ?thesis
  proof (cases "n = 0")
    case True
    let ?d = "d\<lparr>dev_heap := (dev_heap d)(a := None)\<rparr>"
    have e: "ext a = 1" "a \<notin> set (dev_streams d)"
      using True n s(3) assms(2) by (auto split: if_splits)
    then have num: "map (stream_num ?d) (dev_streams d) = map (stream_num d) (dev_streams d)"
      by (auto simp: stream_num_def)
    have "streams_wf (ext(a := ext a - 1)) ?d"
      using streams_wfD(1-4,6) [OF assms(1)] e unfolding streams_wf_def
      by (auto simp: rx_base_ok_def num stream_ok_def)
    moreover have "stream_pub ?d = stream_pub d"
      using e(2) by (auto simp: stream_pub_def intro!: ext find_cong)
    ultimately show ?thesis using stream_put_eq [OF s(1,2) n] True by auto
  next
    case False
    let ?s = "s\<lparr>st_refcount := n\<rparr>"
    have "stream_ok (ext a - 1) (a \<in> set (dev_streams d)) (Some ?s)"
      using ok s n False by (auto simp: stream_ok_def)
    then have "streams_wf (ext(a := ext a - 1)) (d\<lparr>dev_heap := (dev_heap d)(a \<mapsto> ?s)\<rparr>)"
      "stream_pub (d\<lparr>dev_heap := (dev_heap d)(a \<mapsto> ?s)\<rparr>) = stream_pub d"
      using streams_wf_upd [OF assms(1) s(1), of ?s "ext(a := ext a - 1)"] by simp_all
    then show ?thesis using stream_put_eq [OF s(1,2) n] False by auto
  qed
qed

lemma stream_lookup_law:
  assumes "streams_wf ext d"
  shows "\<exists>d'. stream_lookup i d = Some (stream_pub d i, d') \<and> stream_pub d' = stream_pub d \<and>
    streams_wf (case stream_pub d i of None \<Rightarrow> ext | Some a \<Rightarrow> ext(a := Suc (ext a))) d'"
proof (cases "stream_pub d i")
  case None
  with assms show ?thesis
    using lookup_chain_find [OF streams_wfD(7) [OF assms], of "dev_streams d" i]
    by (simp add: stream_lookup_def stream_pub_def)
next
  case (Some a)
  then have a: "a \<in> set (dev_streams d)" using stream_pub_iff [OF assms] by blast
  then obtain s where s: "dev_heap d a = Some s" using streams_wfD(7) [OF assms] by blast
  let ?s = "s\<lparr>st_refcount := Suc (st_refcount s)\<rparr>"
  have "stream_lookup i d = Some (Some a, d\<lparr>dev_heap := (dev_heap d)(a \<mapsto> ?s)\<rparr>)"
    using lookup_chain_find [OF streams_wfD(7) [OF assms], of "dev_streams d" i] Some s
    by (simp add: stream_lookup_def stream_pub_def)
  moreover have "stream_ok (Suc (ext a)) (a \<in> set (dev_streams d)) (Some ?s)"
    using streams_wfD(6) [OF assms, of a] s by (auto simp: stream_ok_def)
  then have "streams_wf (ext(a := Suc (ext a))) (d\<lparr>dev_heap := (dev_heap d)(a \<mapsto> ?s)\<rparr>)"
    "stream_pub (d\<lparr>dev_heap := (dev_heap d)(a \<mapsto> ?s)\<rparr>) = stream_pub d"
    using streams_wf_upd [OF assms s, of ?s "ext(a := Suc (ext a))"] by simp_all
  ultimately show ?thesis using Some by auto
qed

lemma stream_destroy_eq:
  assumes "streams_wf ext d" "a \<in> set (dev_streams d)" "dev_heap d a = Some s"
  shows "stream_destroy a d = Some (del_owned (st_owner s) a (d\<lparr>
    dev_heap := (dev_heap d)(a := (if ext a = 0 then None
      else Some (s\<lparr>st_dying := True, st_refcount := ext a\<rparr>))),
    dev_streams := removeAll a (dev_streams d),
    dev_ida := removeAll (unat (st_id s)) (dev_ida d)\<rparr>))"
proof -
  have s: "st_tx_queue s = []" "st_refcount s = Suc (ext a)"
    using streams_wfD(6) [OF assms(1), of a] assms(2,3) by (auto simp: stream_ok_def)
  show ?thesis
    using assms(2,3) s
    by (cases "st_owner s") (simp_all add: stream_destroy_def del_owned_def stream_put_eq)
qed

text \<open>Removing a stream from the table.\<close>

lemma streams_wf_unhash:
  assumes "streams_wf ext d" "a \<in> set (dev_streams d)" "dev_heap d a = Some s"
    "dev_heap d' = (dev_heap d)(a := so)" "stream_ok (ext a) False so"
    "dev_streams d' = removeAll a (dev_streams d)" "dev_ida d' = removeAll (unat (st_id s)) (dev_ida d)"
    "dev_pool d' = dev_pool d" "dev_rx d' = dev_rx d"
  shows "streams_wf ext d'" "stream_pub d' = (stream_pub d)(st_id s := None)"
proof -
  note I = streams_wfD [OF assms(1)]
  have num: "stream_num d' b = stream_num d b" if "b \<noteq> a" for b
    using that assms(4) by (simp add: stream_num_def)
  have uniq: "stream_num d b = unat (st_id s) \<longleftrightarrow> b = a" if "b \<in> set (dev_streams d)" for b
    using stream_num_inj [OF assms(1) that assms(2)] assms(3)
    by (auto simp: stream_num_def word_unat_eq_iff)
  have "removeAll (unat (st_id s)) (dev_ida d) = map (stream_num d) (removeAll a (dev_streams d))"
    unfolding I(4) removeAll_filter_not_eq filter_map
    by (intro arg_cong [where f = "map (stream_num d)"] filter_cong refl) (metis comp_apply uniq)
  also have "\<dots> = map (stream_num d') (removeAll a (dev_streams d))" using num by simp
  finally have ida: "dev_ida d' = map (stream_num d') (dev_streams d')" using assms(6,7) by simp
  have ids: "distinct (dev_ida d')" "0 \<notin> set (dev_ida d')"
    using I(2,3) assms(7) by (simp_all add: distinct_removeAll)
  have "stream_ok (ext b) (b \<in> set (dev_streams d')) (dev_heap d' b)" for b
    using I(6) [of b] assms(4-6) by (cases "b = a") auto
  with ids ida I(1) assms(8,9) show wf: "streams_wf ext d'"
    by (simp add: streams_wf_def rx_base_ok_def)
  show "stream_pub d' = (stream_pub d)(st_id s := None)"
  proof (rule stream_pub_eqI [OF wf])
    fix i b
    have "st_id (the (dev_heap d b)) = st_id s \<longleftrightarrow> b = a" if "b \<in> set (dev_streams d)"
      using stream_num_inj [OF assms(1) that assms(2)] assms(3) by auto
    then show "(b \<in> set (dev_streams d') \<and> st_id (the (dev_heap d' b)) = i)
      = (((stream_pub d)(st_id s := None)) i = Some b)"
      using stream_pub_iff [OF assms(1), of i b] assms(4,6) by (cases "b = a") auto
  qed
qed

lemma del_owned_fields [simp]:
  "dev_heap (del_owned ow a d) = dev_heap d" "dev_streams (del_owned ow a d) = dev_streams d"
  "dev_ida (del_owned ow a d) = dev_ida d" "dev_pool (del_owned ow a d) = dev_pool d"
  "dev_rx (del_owned ow a d) = dev_rx d"
  by (simp_all add: del_owned_def split: option.splits)

lemma add_owned_fields [simp]:
  "dev_heap (add_owned ow a d) = dev_heap d" "dev_streams (add_owned ow a d) = dev_streams d"
  "dev_ida (add_owned ow a d) = dev_ida d" "dev_pool (add_owned ow a d) = dev_pool d"
  "dev_rx (add_owned ow a d) = dev_rx d" "dev_rx_target (add_owned ow a d) = dev_rx_target d"
  by (simp_all add: add_owned_def split: option.splits)

lemma stream_destroy_law:
  assumes "streams_wf ext d" "stream_pub d i = Some a"
  shows "\<exists>d'. stream_destroy a d = Some d' \<and> stream_pub d' = (stream_pub d)(i := None) \<and> streams_wf ext d'"
proof -
  have a: "a \<in> set (dev_streams d)" "st_id (the (dev_heap d a)) = i"
    using assms by (auto simp: stream_pub_iff)
  then obtain s where s: "dev_heap d a = Some s" "st_id s = i"
    using streams_wfD(7) [OF assms(1)] by fastforce
  define so where "so = (if ext a = 0 then None else Some (s\<lparr>st_dying := True, st_refcount := ext a\<rparr>))"
  define d' where "d' = del_owned (st_owner s) a (d\<lparr>dev_heap := (dev_heap d)(a := so),
    dev_streams := removeAll a (dev_streams d), dev_ida := removeAll (unat (st_id s)) (dev_ida d)\<rparr>)"
  have "stream_ok (ext a) False so"
    using streams_wfD(6) [OF assms(1), of a] s a by (auto simp: so_def stream_ok_def)
  then have "streams_wf ext d'" "stream_pub d' = (stream_pub d)(st_id s := None)"
    using streams_wf_unhash [OF assms(1) a(1) s(1), of d' so] by (simp_all add: d'_def)
  then show ?thesis using stream_destroy_eq [OF assms(1) a(1) s(1)] s(2) by (simp add: d'_def so_def)
qed

lemma ida_alloc_range_fresh:
  "ida_alloc_range mem ida lo hi = Inr i \<Longrightarrow> lo \<le> i \<and> i \<le> hi \<and> i \<notin> set ida"
  by (auto simp: ida_alloc_range_def find_Some_iff simp del: upt_Suc split: if_splits option.splits)

text \<open>What a successful creation leaves behind: a fresh number, a fresh stream in front of the table,
  and, for the first stream, receive descriptors on the ring.\<close>

definition with_stream :: "nat \<Rightarrow> nat option \<Rightarrow> nat \<Rightarrow> odl_device \<Rightarrow> odl_device" where
  "with_stream i owner a d = add_owned owner a (d\<lparr>dev_ida := i # dev_ida d,
     dev_heap := (dev_heap d)(a \<mapsto> new_stream (of_nat i) owner), dev_streams := a # dev_streams d\<rparr>)"

lemma stream_create_eq:
  "stream_create (Some a) mem rx_ok owner filter_id d =
     (case (if filter_id = 0 then ida_alloc_range mem (dev_ida d) 20 255
            else ida_alloc_range mem (dev_ida d) (unat filter_id) (unat filter_id)) of
        Inl e \<Rightarrow> Some (Inl e, d)
      | Inr i \<Rightarrow>
          if dev_rx_target d = 0 \<and> fp_slots (dev_pool d) \<noteq> None
          then do {
            d \<leftarrow> rx_repost rx_ok ((with_stream i owner a d)\<lparr>dev_rx_target := int (fp_size (dev_pool d) div 2)\<rparr>);
            Some (Inr a, d)
          }
          else Some (Inr a, with_stream i owner a d))"
proof -
  have "(if filter_id = 0 then x else if filter_id < 1 then y else z) = (if filter_id = 0 then x else z)"
    for x y z :: "errno + nat" using word_less_1 [of filter_id] by simp
  then show ?thesis unfolding stream_create_def option.case Let_def with_stream_def
    by (intro sum.case_cong refl) auto
qed

lemma stream_create_cases:
  assumes "stream_create (Some a) mem rx_ok owner filter_id d = Some (Inr b, d')" "rx_base_ok d"
  obtains i where "b = a" "1 \<le> i" "i \<le> 255" "i \<notin> set (dev_ida d)"
    "filter_id \<noteq> 0 \<Longrightarrow> i = unat filter_id" "filter_id = 0 \<Longrightarrow> 20 \<le> i" "rx_base_ok d'"
    "dev_ida d' = i # dev_ida d" "dev_streams d' = a # dev_streams d"
    "dev_heap d' = (dev_heap d)(a \<mapsto> new_stream (of_nat i) owner)"
proof -
  obtain i where i: "(if filter_id = 0 then ida_alloc_range mem (dev_ida d) 20 255
      else ida_alloc_range mem (dev_ida d) (unat filter_id) (unat filter_id)) = Inr i"
    using assms(1) unfolding stream_create_eq by (auto split: sum.splits)
  note res = assms(1) [unfolded stream_create_eq i sum.case]
  have "(0::nat) < unat filter_id" if "filter_id \<noteq> 0" using that by (simp add: unat_gt_0)
  moreover have "unat filter_id \<le> 255" using unsigned_less [of filter_id, where ?'a = nat] by simp
  ultimately have lim: "1 \<le> i" "i \<le> 255" "i \<notin> set (dev_ida d)" "filter_id \<noteq> 0 \<Longrightarrow> i = unat filter_id"
    "filter_id = 0 \<Longrightarrow> 20 \<le> i"
    using ida_alloc_range_fresh [of mem "dev_ida d" 20 255 i] i
      ida_alloc_range_fresh [of mem "dev_ida d" "unat filter_id" "unat filter_id" i]
    by (cases "filter_id = 0"; simp)+
  have "b = a \<and> rx_base_ok d' \<and> dev_ida d' = i # dev_ida d \<and> dev_streams d' = a # dev_streams d \<and>
    dev_heap d' = (dev_heap d)(a \<mapsto> new_stream (of_nat i) owner)"
  proof (cases "dev_rx_target d = 0 \<and> fp_slots (dev_pool d) \<noteq> None")
    case True
    let ?d = "(with_stream i owner a d)\<lparr>dev_rx_target := int (fp_size (dev_pool d) div 2)\<rparr>"
    have "frame_pool_wf (dev_pool ?d)" "rc_ring (dev_rx ?d) \<noteq> None"
      using True assms(2) by (auto simp: rx_base_ok_def with_stream_def)
    then obtain new p st where "rx_repost rx_ok ?d = Some (reposted ?d new p st)" "frame_pool_wf p"
      by (rule rx_repost_spec) (auto simp: repost_ok_def)
    with True res assms(2) show ?thesis
      by (auto simp: reposted_def with_stream_def rx_base_ok_def)
  next
    case False
    with res assms(2) show ?thesis by (auto simp: with_stream_def rx_base_ok_def split: if_splits)
  qed
  with lim that show thesis by blast
qed

lemma stream_created_law:
  assumes "streams_wf ext d" "stream_created d i a d'"
  shows "streams_wf ext d' \<and> stream_pub d i = None \<and> stream_pub d' = (stream_pub d)(i := Some a)"
proof -
  note I = streams_wfD [OF assms(1)]
  obtain mem rx_ok owner filter_id where free: "dev_heap d a = None"
    and c: "stream_create (Some a) mem rx_ok owner filter_id d = Some (Inr a, d')"
    and i: "st_id (the (dev_heap d' a)) = i"
    using assms(2) by (auto simp: stream_created_def)
  from c I(1) obtain n where n: "1 \<le> n" "n \<le> 255" "n \<notin> set (dev_ida d)" "rx_base_ok d'"
    "dev_ida d' = n # dev_ida d" "dev_streams d' = a # dev_streams d"
    "dev_heap d' = (dev_heap d)(a \<mapsto> new_stream (of_nat n) owner)" by (rule stream_create_cases)
  have un: "unat (of_nat n :: u8) = n" using n(2) by (simp add: unsigned_of_nat take_bit_nat_eq_self)
  have i_n: "i = of_nat n" using i n(7) by (simp add: new_stream_def)
  have na: "a \<notin> set (dev_streams d)" "ext a = 0" using I(7) free I(6) [of a] by (auto simp: stream_ok_def)
  have num: "map (stream_num d') (dev_streams d) = map (stream_num d) (dev_streams d)"
    using na n(7) by (auto simp: stream_num_def)
  have "stream_num d' a = n" using n(7) un by (simp add: stream_num_def new_stream_def)
  then have ida: "dev_ida d' = map (stream_num d') (dev_streams d')" using n(5,6) num I(4) by simp
  have "stream_ok (ext b) (b \<in> set (dev_streams d')) (dev_heap d' b)" for b
    using I(6) [of b] n(6,7) na by (cases "b = a") (auto simp: stream_ok_def new_stream_def)
  with ida n(1,3,4,5) I(2,3) have wf: "streams_wf ext d'" by (auto simp: streams_wf_def)
  have other: "st_id (the (dev_heap d b)) \<noteq> i" if "b \<in> set (dev_streams d)" for b
  proof
    assume "st_id (the (dev_heap d b)) = i"
    then have "stream_num d b = n" using i_n un by (simp add: stream_num_def)
    with that I(4) n(3) show False by auto
  qed
  then have none: "stream_pub d i = None" by (auto simp: stream_pub_def find_None_iff)
  have "stream_pub d' = (stream_pub d)(i := Some a)"
  proof (rule stream_pub_eqI [OF wf])
    fix j b
    show "(b \<in> set (dev_streams d') \<and> st_id (the (dev_heap d' b)) = j)
      = (((stream_pub d)(i := Some a)) j = Some b)"
      using other na i n(6,7) stream_pub_iff [OF assms(1), of j b] by (cases "b = a") auto
  qed
  with wf none show ?thesis by blast
qed

interpretation sreg: counted_registry streams_wf stream_pub "\<lambda>d. dom (dev_heap d)"
  stream_lookup stream_put stream_destroy stream_created
proof unfold_locales
  fix ext d a k d'
  assume wf: "streams_wf ext d"
  show "a \<in> dom (dev_heap d) \<longleftrightarrow> 0 < ext a \<or> (\<exists>k. stream_pub d k = Some a)"
    using streams_wfD(6) [OF wf, of a] stream_pub_iff [OF wf]
    by (auto simp: stream_ok_def split: option.splits if_splits)
  show "\<exists>d'. stream_lookup k d = Some (stream_pub d k, d') \<and> stream_pub d' = stream_pub d \<and>
      streams_wf (case stream_pub d k of None \<Rightarrow> ext | Some a \<Rightarrow> ext(a := Suc (ext a))) d'"
    by (rule stream_lookup_law [OF wf])
  show "\<exists>d'. stream_put a d = Some d' \<and> stream_pub d' = stream_pub d \<and> streams_wf (ext(a := ext a - 1)) d'"
    if "0 < ext a" by (rule stream_put_law [OF wf that])
  show "\<exists>d'. stream_destroy a d = Some d' \<and> stream_pub d' = (stream_pub d)(k := None) \<and> streams_wf ext d'"
    if "stream_pub d k = Some a" by (rule stream_destroy_law [OF wf that])
  show "streams_wf ext d' \<and> stream_pub d k = None \<and> stream_pub d' = (stream_pub d)(k := Some a)"
    if "stream_created d k a d'" by (rule stream_created_law [OF wf that])
qed

lemma destroy_each_all:
  assumes "streams_wf ext d"
  shows "\<exists>d'. destroy_each (dev_streams d) d = Some d' \<and> streams_wf ext d' \<and> dev_streams d' = []"
  using assms
proof (induction "dev_streams d" arbitrary: d)
  case (Cons a as)
  then have a: "a \<in> set (dev_streams d)" by (metis list.set_intros(1))
  then obtain s where s: "dev_heap d a = Some s" using streams_wfD(7) [OF Cons.prems] by blast
  with a have "stream_pub d (st_id s) = Some a" using stream_pub_iff [OF Cons.prems] by auto
  then obtain d' where d': "stream_destroy a d = Some d'" "streams_wf ext d'"
    using stream_destroy_law [OF Cons.prems] by blast
  have "dev_streams d' = removeAll a (dev_streams d)"
    using stream_destroy_eq [OF Cons.prems a s] d'(1) by simp
  then have as: "as = dev_streams d'"
    using Cons.hyps(2) streams_wfD(5) [OF Cons.prems] by (metis distinct.simps(2) removeAll.simps(2) removeAll_id)
  from Cons.hyps(1) [OF as d'(2)] show ?case using as d'(1) Cons.hyps(2) [symmetric] by simp
qed (auto)

definition empty_device :: "odl_device \<Rightarrow> bool" where
  "empty_device d \<longleftrightarrow> rx_base_ok d \<and> dev_streams d = [] \<and> dev_ida d = [] \<and> dev_heap d = Map.empty"

lemma empty_device_wf: "empty_device d \<Longrightarrow> streams_wf (\<lambda>_. 0) d"
  by (auto simp: empty_device_def streams_wf_def stream_ok_def)

section \<open>Properties\<close>

text \<open>C6: The stream table is free of use after free and of leaks. Take any sequence of
  \<open>odl_tb5_stream_create\<close>, \<open>odl_tb5_stream_lookup\<close>, \<open>odl_tb5_stream_put\<close> (of references obtained by lookup)
  and \<open>odl_tb5_stream_destroy\<close> (of streams in the table) on a device that starts without streams.
  Then every further such call is defined, a lookup returns exactly the stream published under the number,
  destroying removes exactly that number, and a stream object is allocated if and only if
  it is in the table or somebody holds a reference.\<close>

theorem stream_registry_safe:
  assumes "empty_device d0"
    "reg_client stream_lookup stream_put stream_destroy stream_created stream_pub d0 ext d"
  shows "(\<forall>i. \<exists>d'. stream_lookup i d = Some (stream_pub d i, d')) \<and>
    (\<forall>a. 0 < ext a \<longrightarrow> stream_put a d \<noteq> None) \<and>
    (\<forall>i a. stream_pub d i = Some a \<longrightarrow>
       (\<exists>d'. stream_destroy a d = Some d' \<and> stream_pub d' = (stream_pub d)(i := None))) \<and>
    dom (dev_heap d) = {a. 0 < ext a} \<union> ran (stream_pub d)"
proof -
  note safe = sreg.reg_client_safe [OF assms(2) empty_device_wf [OF assms(1)]]
  have "dom (dev_heap d) = {a. 0 < ext a} \<union> ran (stream_pub d)"
    using safe(4) by (auto simp: ran_def)
  with safe(1-3) show ?thesis by blast
qed

definition sample_ring :: ring_ctx where
  "sample_ring = \<lparr>rc_ring = Some 1, rc_frames = None, rc_ring_size = 64, rc_started = True, rc_completed = 0,
     rc_submitted = 0, rc_bufs = [], rc_front = 0, rc_back = 1, rc_posted_buf = 0, rc_frames_posted = False,
     rc_swapped_since_post = False\<rparr>"

definition sample_hs :: handshake where
  "sample_hs = \<lparr>hs_local_tx_hopid = 8, hs_remote_tx_hopid = 8, login_retries = 0, login_sent = True,
     login_received = True, connecting = False, login_generation = 1, peer_ring_size = 64,
     stale_remote_tx_hopid = -1, in_hopid_valid = True, in_hopid = 8, pong_received = False,
     peer_ping_answered = False, verify_rx_type = 0\<rparr>"

definition sample_stats :: rx_stats where
  "sample_stats = \<lparr>rx_err_crc = 0, rx_err_overrun = 0, rx_canceled = 0, rx_err_short = 0, rx_err_len = 0,
     rx_frames_ok = 0, rx_repost_starved = 0, rx_repost_short = 0, rx_posted_min = 0\<rparr>"

definition sample_device :: odl_device where
  "sample_device = \<lparr>dev_state = READY, dev_tx = sample_ring, dev_rx = sample_ring, dev_pool = sample_pool,
     dev_bpool = sample_bufs, dev_adapt = \<lparr>ta_mode = TX_LATENCY, ta_consecutive_low = 0,
       ta_high_watermark = 48, ta_low_watermark = 16\<rparr>,
     dev_streams = [], dev_ida = [], dev_heap = Map.empty, dev_msgs = Map.empty, dev_owners = (\<lambda>_. []),
     dev_rx_posted = 0, dev_rx_target = 1, dev_stats = sample_stats, dev_hs = sample_hs,
     dev_ctrl_reply = False, dev_removing = False, dev_tx_pending = [], dev_rx_pending = [], dev_wire = []\<rparr>"

lemma sample_device_empty: "empty_device sample_device"
  using sample_pool_ok(1)
  by (simp add: empty_device_def sample_device_def sample_ring_def rx_base_ok_def)

lemma sample_created: "stream_created sample_device 21 7 (with_stream 21 None 7 sample_device)"
proof -
  have "stream_create (Some 7) True (\<lambda>_. True) None 21 sample_device
      = Some (Inr 7, with_stream 21 None 7 sample_device)"
    unfolding stream_create_eq by (simp add: ida_alloc_range_def sample_device_def)
  then show ?thesis
    by (auto simp: stream_created_def sample_device_def with_stream_def add_owned_def new_stream_def)
qed

lemma sample_client:
  "reg_client stream_lookup stream_put stream_destroy stream_created stream_pub sample_device
     (\<lambda>_. 0) (with_stream 21 None 7 sample_device)"
  by (rule reg_create [where create = stream_created, OF reg_init]) (rule sample_created)

theorem stream_registry_safe_witness:
  "(\<exists>d'. stream_lookup 21 (with_stream 21 None 7 sample_device) = Some (Some 7, d')) \<and>
   (\<exists>d'. stream_lookup 20 (with_stream 21 None 7 sample_device) = Some (None, d'))"
proof -
  let ?d = "with_stream 21 None 7 sample_device"
  from stream_registry_safe [OF sample_device_empty sample_client]
  have "\<exists>d'. stream_lookup i ?d = Some (stream_pub ?d i, d')" for i by blast
  moreover have "stream_pub ?d 21 = Some 7" "stream_pub ?d 20 = None"
    by (simp_all add: stream_pub_def with_stream_def sample_device_def add_owned_def new_stream_def)
  ultimately show ?thesis by metis
qed

text \<open>Device teardown releases every stream: \<open>odl_tb5_streams_destroy_all\<close> completes, leaves no stream in
  the table and no number allocated, and the only stream objects that survive are those to which a
  reference is held, all marked dying, so that their waiters return.\<close>

theorem streams_destroy_all_complete:
  assumes "empty_device d0"
    "reg_client stream_lookup stream_put stream_destroy stream_created stream_pub d0 ext d"
  shows "\<exists>d'. streams_destroy_all d = Some d' \<and> dev_streams d' = [] \<and> dev_ida d' = [] \<and>
    dom (dev_heap d') = {a. 0 < ext a} \<and> (\<forall>a s. dev_heap d' a = Some s \<longrightarrow> st_dying s)"
proof -
  have "streams_wf ext d" by (rule sreg.reg_client_inv [OF assms(2) empty_device_wf [OF assms(1)]])
  then obtain d' where d': "streams_destroy_all d = Some d'" "streams_wf ext d'" "dev_streams d' = []"
    using destroy_each_all unfolding streams_destroy_all_def by blast
  have ok: "stream_ok (ext a) False (dev_heap d' a)" for a
    using streams_wfD(6) [OF d'(2), of a] d'(3) by simp
  have "a \<in> dom (dev_heap d') \<longleftrightarrow> 0 < ext a" for a
    using ok [of a] by (auto simp: stream_ok_def split: option.splits)
  then have "dom (dev_heap d') = {a. 0 < ext a}" by auto
  moreover have "st_dying s" if "dev_heap d' a = Some s" for a s
    using ok [of a] that by (simp add: stream_ok_def)
  ultimately show ?thesis using d' streams_wfD(4) [OF d'(2)] by auto
qed

theorem streams_destroy_all_complete_witness:
  "\<exists>d'. streams_destroy_all (with_stream 21 None 7 sample_device) = Some d' \<and> dom (dev_heap d') = {}"
  using streams_destroy_all_complete [OF sample_device_empty sample_client] by auto

end
