(* ===== verification/Rx_Assembly.thy ===== *)
theory Rx_Assembly
  imports Streams
begin

text \<open>
  Message assembly on the receive side (the part of \<open>odl_tb5_rx_callback\<close> in
  \<^verbatim>\<open>driver/odl_tb5_ring_dma.c\<close>, lines 325 to 478, that works on one stream) and the calls by which a
  process takes messages (\<open>odl_tb5_stream_recv\<close>, \<open>odl_tb5_stream_wait_rx\<close>, lines 2040 to 2253). The
  assembly is proved to implement an abstract assembler over byte strings, and the statements about loss of
  fragments are proved of that.

  Parameters: \<open>kmalloc n\<close> is what \<open>kmalloc (n, GFP_ATOMIC)\<close> returns, \<open>None\<close> for NULL and otherwise the
  memory with whatever it contains; \<open>rxm_ok\<close> is the success of the allocation of the queue entry.
\<close>

section \<open>Assembly of one fragment\<close>

definition asm_reset :: "stream_hdr \<Rightarrow> stream \<Rightarrow> stream" where
  "asm_reset h s =
     (if sh_flags h AND SHDR_F_MSG_START \<noteq> 0
      then s\<lparr>rx_asm_buf := None, rx_asm_len := 0, rx_asm_cap := 0, rx_asm_src_id := sh_src_id h,
             rx_asm_next_frag := 0, rx_asm_bad := False\<rparr>
      else s)"

definition asm_sequence :: "u16 \<Rightarrow> stream \<Rightarrow> stream" where
  "asm_sequence fidx s =
     (let s = (if fidx \<noteq> rx_asm_next_frag s
               then s\<lparr>rx_asm_bad := True, rx_frag_drops := rx_frag_drops s + 1\<rparr> else s)
      in s\<lparr>rx_asm_next_frag := fidx + 1\<rparr>)"

definition asm_grow :: "(nat \<Rightarrow> byte list option) \<Rightarrow> nat \<Rightarrow> stream \<Rightarrow> stream option" where
  "asm_grow kmalloc plen s =
     (if rx_asm_cap s < rx_asm_len s + plen
      then (let new_cap = max 8192 (max (rx_asm_cap s * 2) (rx_asm_len s + plen))
            in case kmalloc new_cap of
                 None \<Rightarrow> Some s
               | Some nb \<Rightarrow> do {
                   nb \<leftarrow> (case rx_asm_buf s of
                            None \<Rightarrow> Some nb
                          | Some b \<Rightarrow> do { old \<leftarrow> mem_read 0 (rx_asm_len s) b; mem_write 0 old nb });
                   Some (s\<lparr>rx_asm_buf := Some nb, rx_asm_cap := new_cap\<rparr>)
                 })
      else Some s)"

definition asm_append :: "byte list \<Rightarrow> stream \<Rightarrow> stream option" where
  "asm_append payload s =
     (case rx_asm_buf s of
        None \<Rightarrow> Some s
      | Some b \<Rightarrow>
          if rx_asm_len s + length payload \<le> rx_asm_cap s
          then do {
            b \<leftarrow> mem_write (rx_asm_len s) payload b;
            Some (s\<lparr>rx_asm_buf := Some b, rx_asm_len := rx_asm_len s + length payload\<rparr>)
          }
          else Some s)"

definition asm_clear :: "stream \<Rightarrow> stream" where
  "asm_clear s = s\<lparr>rx_asm_buf := None, rx_asm_len := 0, rx_asm_cap := 0\<rparr>"

definition asm_end :: "bool \<Rightarrow> stream_hdr \<Rightarrow> stream \<Rightarrow> stream" where
  "asm_end rxm_ok h s =
     (if sh_flags h AND SHDR_F_MSG_END = 0 then s
      else if rx_asm_bad s then (asm_clear s)\<lparr>rx_asm_bad := False, rx_asm_next_frag := 0\<rparr>
      else case rx_asm_buf s of
             Some b \<Rightarrow>
               if rxm_ok \<and> st_rx_queue_len s < st_rx_queue_max s
               then (asm_clear s)\<lparr>
                      st_rx_queue := st_rx_queue s @
                        [\<lparr>rm_src_id = rx_asm_src_id s, rm_flags = SHDR_F_MSG_END, rm_data = b,
                          rm_len = rx_asm_len s\<rparr>],
                      st_rx_queue_len := st_rx_queue_len s + 1,
                      st_rx_complete := st_rx_complete s + 1\<rparr>
               else asm_clear s
           | None \<Rightarrow> asm_clear s)"

definition rx_assemble ::
  "(nat \<Rightarrow> byte list option) \<Rightarrow> bool \<Rightarrow> stream_hdr \<Rightarrow> byte list \<Rightarrow> stream \<Rightarrow> stream option" where
  "rx_assemble kmalloc rxm_ok h payload s =
     do {
       s \<leftarrow> asm_grow kmalloc (length payload) (asm_sequence (sh_frag_idx h) (asm_reset h s));
       s \<leftarrow> asm_append payload s;
       Some (asm_end rxm_ok h s)
     }"

section \<open>Taking messages\<close>

text \<open>A call that waits either returns or is still waiting in the given state.\<close>

datatype 'a wait_result = Waiting | Returned 'a

text \<open>
  \<open>intr\<close>: a signal ends the wait, which returns at once when its condition holds; \<open>copy_ok\<close>: the copy to the user's buffer succeeds. The third component
  of the result is what was written to the user's buffer.
\<close>

definition stream_recv ::
  "bool \<Rightarrow> bool \<Rightarrow> nat \<Rightarrow> stream \<Rightarrow> (errno + u8 \<times> byte list) wait_result \<times> stream" where
  "stream_recv intr copy_ok buf_len s =
     (if \<not> (0 < st_rx_complete s \<or> st_dying s)
      then (if intr then Returned (Inl EINTR) else Waiting, s)
      else if st_dying s \<and> st_rx_complete s \<le> 0 then (Returned (Inl ESHUTDOWN), s)
      else case st_rx_queue s of
             [] \<Rightarrow> (Returned (Inl EAGAIN), s)
           | m # ms \<Rightarrow>
               let actual_len = min (rm_len m) buf_len;
                   s = s\<lparr>st_rx_queue := ms, st_rx_queue_len := st_rx_queue_len s - 1,
                         st_rx_complete := st_rx_complete s - 1\<rparr>
               in if copy_ok then (Returned (Inr (rm_src_id m, take actual_len (rm_data m))), s)
                  else (Returned (Inl EFAULT), s))"

text \<open>\<open>timeout\<close>: the timeout expired before the condition held; with \<open>timeout_ms = 0\<close> there is none.\<close>

definition stream_wait_rx :: "bool \<Rightarrow> bool \<Rightarrow> u32 \<Rightarrow> stream \<Rightarrow> (errno + unit) wait_result" where
  "stream_wait_rx intr timeout timeout_ms s =
     (let cond = 0 < st_rx_complete s \<or> st_dying s
      in if \<not> cond then
           (if intr then Returned (Inl EINTR)
            else if timeout_ms \<noteq> 0 \<and> timeout then Returned (Inl ETIMEDOUT) else Waiting)
         else if st_dying s \<and> st_rx_complete s \<le> 0 then Returned (Inl ESHUTDOWN)
         else Returned (Inr ()))"

definition stream_can_recv :: "stream \<Rightarrow> bool" where
  "stream_can_recv s \<longleftrightarrow> 0 < st_rx_complete s"

section \<open>The abstract assembler\<close>

text \<open>
  What the assembly promises, over byte strings: the bytes so far, the next fragment expected and
  whether one was missed. \<open>asm_step\<close> returns the message it completes, if any.
\<close>

record assembly =
  as_src :: u8
  as_data :: "byte list"
  as_next :: u16
  as_bad :: bool

definition asm_step :: "stream_hdr \<Rightarrow> byte list \<Rightarrow> assembly \<Rightarrow> (u8 \<times> byte list) option \<times> assembly" where
  "asm_step h payload a =
     (let a = (if sh_flags h AND SHDR_F_MSG_START \<noteq> 0
               then \<lparr>as_src = sh_src_id h, as_data = [], as_next = 0, as_bad = False\<rparr> else a);
          a = a\<lparr>as_bad := (as_bad a \<or> sh_frag_idx h \<noteq> as_next a), as_next := sh_frag_idx h + 1,
                as_data := as_data a @ payload\<rparr>
      in if sh_flags h AND SHDR_F_MSG_END = 0 then (None, a)
         else if as_bad a then (None, a\<lparr>as_data := [], as_next := 0, as_bad := False\<rparr>)
         else (Some (as_src a, as_data a), a\<lparr>as_data := []\<rparr>))"

definition asm_abs :: "stream \<Rightarrow> assembly" where
  "asm_abs s = \<lparr>as_src = rx_asm_src_id s,
     as_data = (case rx_asm_buf s of None \<Rightarrow> [] | Some b \<Rightarrow> take (rx_asm_len s) b),
     as_next = rx_asm_next_frag s, as_bad = rx_asm_bad s\<rparr>"

definition queue_abs :: "stream \<Rightarrow> (u8 \<times> byte list) list" where
  "queue_abs s = map (\<lambda>m. (rm_src_id m, take (rm_len m) (rm_data m))) (st_rx_queue s)"

text \<open>The invariant of a stream's receive side.\<close>

definition rx_wf :: "stream \<Rightarrow> bool" where
  "rx_wf s \<longleftrightarrow>
     (case rx_asm_buf s of None \<Rightarrow> rx_asm_len s = 0 \<and> rx_asm_cap s = 0
      | Some b \<Rightarrow> length b = rx_asm_cap s \<and> rx_asm_len s \<le> rx_asm_cap s) \<and>
     list_all (\<lambda>m. rm_len m \<le> length (rm_data m)) (st_rx_queue s) \<and>
     st_rx_queue_len s = int (length (st_rx_queue s)) \<and> st_rx_complete s = st_rx_queue_len s \<and>
     st_rx_queue_len s \<le> st_rx_queue_max s"

lemma rx_view_refcount [simp]:
  "rx_wf (s\<lparr>st_refcount := n\<rparr>) = rx_wf s" "asm_abs (s\<lparr>st_refcount := n\<rparr>) = asm_abs s"
  "queue_abs (s\<lparr>st_refcount := n\<rparr>) = queue_abs s"
  by (simp_all add: rx_wf_def asm_abs_def queue_abs_def split: option.splits)

text \<open>\<open>kmalloc\<close> returns memory of the size asked for.\<close>

definition kmalloc_sized :: "(nat \<Rightarrow> byte list option) \<Rightarrow> bool" where
  "kmalloc_sized kmalloc \<longleftrightarrow> (\<forall>n mem. kmalloc n = Some mem \<longrightarrow> length mem = n)"

section \<open>Assembly refines the abstract assembler\<close>

lemma asm_sequence_reset_wf: "rx_wf s \<Longrightarrow> rx_wf (asm_sequence i (asm_reset h s))"
  by (auto simp: rx_wf_def asm_reset_def asm_sequence_def Let_def split: option.splits)

lemma asm_grow_spec:
  assumes "rx_wf s" "kmalloc_sized kmalloc"
  shows "\<exists>b c. asm_grow kmalloc n s = Some (s\<lparr>rx_asm_buf := b, rx_asm_cap := c\<rparr>) \<and>
    rx_wf (s\<lparr>rx_asm_buf := b, rx_asm_cap := c\<rparr>) \<and>
    asm_abs (s\<lparr>rx_asm_buf := b, rx_asm_cap := c\<rparr>) = asm_abs s \<and>
    ((\<forall>k. kmalloc k \<noteq> None) \<and> 0 < n \<longrightarrow> b \<noteq> None \<and> rx_asm_len s + n \<le> c)"
proof (cases "rx_asm_cap s < rx_asm_len s + n")
  case False
  have "0 < n \<Longrightarrow> rx_asm_buf s \<noteq> None" using False assms(1) by (auto simp: rx_wf_def split: option.splits)
  with False assms(1) show ?thesis
    by (intro exI [of _ "rx_asm_buf s"] exI [of _ "rx_asm_cap s"]) (simp add: asm_grow_def)
next
  case True
  define c where "c = max 8192 (max (rx_asm_cap s * 2) (rx_asm_len s + n))"
  show ?thesis
  proof (cases "kmalloc c")
    case None
    with True have "asm_grow kmalloc n s = Some s" by (simp add: asm_grow_def c_def [symmetric] Let_def)
    moreover from None have "\<not> (\<forall>k. kmalloc k \<noteq> None)" by blast
    ultimately show ?thesis using assms(1)
      by (intro exI [of _ "rx_asm_buf s"] exI [of _ "rx_asm_cap s"])
        (simp del: not_None_eq, blast)
  next
    case (Some nb)
    then have nb: "length nb = c" using assms(2) by (simp add: kmalloc_sized_def)
    have room: "rx_asm_len s + n \<le> c" by (simp add: c_def)
    show ?thesis
    proof (cases "rx_asm_buf s")
      case None
      with True Some have "asm_grow kmalloc n s = Some (s\<lparr>rx_asm_buf := Some nb, rx_asm_cap := c\<rparr>)"
        unfolding asm_grow_def Let_def c_def [symmetric] by simp
      with None nb room assms(1) show ?thesis
        by (intro exI [of _ "Some nb"] exI [of _ c]) (auto simp: rx_wf_def asm_abs_def)
    next
      case (Some b)
      let ?nb = "take (rx_asm_len s) b @ drop (rx_asm_len s) nb"
      have b: "length b = rx_asm_cap s" "rx_asm_len s \<le> rx_asm_cap s"
        using assms(1) Some by (auto simp: rx_wf_def)
      then have "asm_grow kmalloc n s = Some (s\<lparr>rx_asm_buf := Some ?nb, rx_asm_cap := c\<rparr>)"
        using True Some \<open>kmalloc c = Some nb\<close> nb room
        by (simp add: asm_grow_def c_def [symmetric] Let_def mem_read_def mem_write_def)
      moreover have "rx_wf (s\<lparr>rx_asm_buf := Some ?nb, rx_asm_cap := c\<rparr>)"
        using b nb room assms(1) by (auto simp: rx_wf_def)
      ultimately show ?thesis using b room Some
        by (intro exI [of _ "Some ?nb"] exI [of _ c]) (simp add: asm_abs_def)
    qed
  qed
qed

lemma asm_append_spec:
  assumes "rx_wf s"
  shows "\<exists>b l. asm_append payload s = Some (s\<lparr>rx_asm_buf := b, rx_asm_len := l\<rparr>) \<and>
    rx_wf (s\<lparr>rx_asm_buf := b, rx_asm_len := l\<rparr>) \<and>
    (rx_asm_buf s \<noteq> None \<and> rx_asm_len s + length payload \<le> rx_asm_cap s \<longrightarrow> b \<noteq> None \<and>
      asm_abs (s\<lparr>rx_asm_buf := b, rx_asm_len := l\<rparr>) = (asm_abs s)\<lparr>as_data := as_data (asm_abs s) @ payload\<rparr>)"
proof (cases "rx_asm_buf s = None \<or> rx_asm_cap s < rx_asm_len s + length payload")
  case True
  with assms show ?thesis
    by (intro exI [of _ "rx_asm_buf s"] exI [of _ "rx_asm_len s"]) (auto simp: asm_append_def split: option.splits)
next
  case False
  then obtain b where b: "rx_asm_buf s = Some b" "length b = rx_asm_cap s"
    "rx_asm_len s + length payload \<le> rx_asm_cap s" using assms by (auto simp: rx_wf_def)
  let ?b = "take (rx_asm_len s) b @ payload @ drop (rx_asm_len s + length payload) b"
  have "asm_append payload s = Some (s\<lparr>rx_asm_buf := Some ?b, rx_asm_len := rx_asm_len s + length payload\<rparr>)"
    using b by (simp add: asm_append_def mem_write_def)
  moreover have "rx_wf (s\<lparr>rx_asm_buf := Some ?b, rx_asm_len := rx_asm_len s + length payload\<rparr>)"
    using b assms by (auto simp: rx_wf_def)
  ultimately show ?thesis using b
    by (intro exI [of _ "Some ?b"] exI [of _ "rx_asm_len s + length payload"]) (simp add: asm_abs_def)
qed

lemma asm_end_wf: "rx_wf s \<Longrightarrow> rx_wf (asm_end rxm_ok h s)"
  by (auto simp: rx_wf_def asm_end_def asm_clear_def split: option.splits)

text \<open>No fragment makes the assembly fault, whatever the allocator does.\<close>

lemma rx_assemble_wf:
  assumes "rx_wf s" "kmalloc_sized kmalloc"
  shows "\<exists>s'. rx_assemble kmalloc rxm_ok h payload s = Some s' \<and> rx_wf s' \<and>
    st_id s' = st_id s \<and> st_refcount s' = st_refcount s \<and> st_tx_queue s' = st_tx_queue s \<and>
    st_dying s' = st_dying s \<and> st_owner s' = st_owner s"
proof -
  let ?s = "asm_sequence (sh_frag_idx h) (asm_reset h s)"
  obtain b c where g: "asm_grow kmalloc (length payload) ?s = Some (?s\<lparr>rx_asm_buf := b, rx_asm_cap := c\<rparr>)"
    "rx_wf (?s\<lparr>rx_asm_buf := b, rx_asm_cap := c\<rparr>)"
    using asm_grow_spec [OF asm_sequence_reset_wf [OF assms(1)] assms(2)] by metis
  let ?t = "?s\<lparr>rx_asm_buf := b, rx_asm_cap := c\<rparr>"
  obtain b' l where a: "asm_append payload ?t = Some (?t\<lparr>rx_asm_buf := b', rx_asm_len := l\<rparr>)"
    "rx_wf (?t\<lparr>rx_asm_buf := b', rx_asm_len := l\<rparr>)"
    using asm_append_spec [OF g(2)] by metis
  from asm_end_wf [OF a(2)] show ?thesis
    by (simp add: rx_assemble_def g(1) a(1))
      (simp add: asm_end_def asm_clear_def asm_sequence_def asm_reset_def Let_def split: option.splits)
qed

lemma asm_end_abs:
  assumes "rx_wf s" "rx_asm_buf s \<noteq> None" "rxm_ok"
  shows "sh_flags h AND SHDR_F_MSG_END = 0 \<Longrightarrow> asm_end rxm_ok h s = s"
    "sh_flags h AND SHDR_F_MSG_END \<noteq> 0 \<Longrightarrow>
      asm_abs (asm_end rxm_ok h s) = (if rx_asm_bad s
        then (asm_abs s)\<lparr>as_data := [], as_next := 0, as_bad := False\<rparr> else (asm_abs s)\<lparr>as_data := []\<rparr>) \<and>
      queue_abs (asm_end rxm_ok h s) = queue_abs s @
        (if rx_asm_bad s \<or> st_rx_queue_max s \<le> st_rx_queue_len s then []
         else [(as_src (asm_abs s), as_data (asm_abs s))])"
  using assms by (auto simp: asm_end_def asm_clear_def asm_abs_def queue_abs_def split: option.splits)

text \<open>With memory available the assembly computes the abstract step, and the completed message is queued
  unless the queue is full.\<close>

lemma asm_sequence_reset_abs:
  "asm_abs (asm_sequence i (asm_reset h s)) =
    (let a = (if sh_flags h AND SHDR_F_MSG_START \<noteq> 0
       then \<lparr>as_src = sh_src_id h, as_data = [], as_next = 0, as_bad = False\<rparr> else asm_abs s)
     in a\<lparr>as_bad := (as_bad a \<or> i \<noteq> as_next a), as_next := i + 1\<rparr>)"
  "st_rx_queue (asm_sequence i (asm_reset h s)) = st_rx_queue s"
  "st_rx_queue_len (asm_sequence i (asm_reset h s)) = st_rx_queue_len s"
  "st_rx_queue_max (asm_sequence i (asm_reset h s)) = st_rx_queue_max s"
  by (auto simp: asm_abs_def asm_sequence_def asm_reset_def Let_def split: option.splits)

lemma asm_end_max: "st_rx_queue_max (asm_end rxm_ok h s) = st_rx_queue_max s"
  by (simp add: asm_end_def asm_clear_def split: option.splits)

lemma rx_assemble_refines:
  assumes "rx_wf s" "kmalloc_sized kmalloc" "\<And>k. kmalloc k \<noteq> None" "payload \<noteq> []"
  shows "\<exists>s'. rx_assemble kmalloc True h payload s = Some s' \<and> rx_wf s' \<and>
    asm_abs s' = snd (asm_step h payload (asm_abs s)) \<and> st_rx_queue_max s' = st_rx_queue_max s \<and>
    queue_abs s' = queue_abs s @ (case fst (asm_step h payload (asm_abs s)) of
      None \<Rightarrow> [] | Some m \<Rightarrow> if st_rx_queue_len s < st_rx_queue_max s then [m] else [])"
proof -
  let ?s = "asm_sequence (sh_frag_idx h) (asm_reset h s)"
  obtain b c where g: "asm_grow kmalloc (length payload) ?s = Some (?s\<lparr>rx_asm_buf := b, rx_asm_cap := c\<rparr>)"
    "rx_wf (?s\<lparr>rx_asm_buf := b, rx_asm_cap := c\<rparr>)"
    "asm_abs (?s\<lparr>rx_asm_buf := b, rx_asm_cap := c\<rparr>) = asm_abs ?s" "b \<noteq> None"
    "rx_asm_len ?s + length payload \<le> c"
    using asm_grow_spec [OF asm_sequence_reset_wf [OF assms(1)] assms(2), of "length payload"]
      assms(3,4) by (metis length_greater_0_conv)
  let ?t = "?s\<lparr>rx_asm_buf := b, rx_asm_cap := c\<rparr>"
  obtain b' l where a: "asm_append payload ?t = Some (?t\<lparr>rx_asm_buf := b', rx_asm_len := l\<rparr>)"
    "rx_wf (?t\<lparr>rx_asm_buf := b', rx_asm_len := l\<rparr>)" "b' \<noteq> None"
    "asm_abs (?t\<lparr>rx_asm_buf := b', rx_asm_len := l\<rparr>)
      = (asm_abs ?t)\<lparr>as_data := as_data (asm_abs ?t) @ payload\<rparr>"
    using asm_append_spec [OF g(2), of payload] g(4,5) by auto
  define u where "u = ?t\<lparr>rx_asm_buf := b', rx_asm_len := l\<rparr>"
  have res: "rx_assemble kmalloc True h payload s = Some (asm_end True h u)"
    by (simp add: rx_assemble_def g(1) a(1) u_def)
  have q: "queue_abs u = queue_abs s" "st_rx_queue_len u = st_rx_queue_len s"
    "st_rx_queue_max u = st_rx_queue_max s" "rx_asm_buf u \<noteq> None"
    using a(3) by (simp_all add: u_def queue_abs_def asm_sequence_reset_abs)
  have abs: "asm_abs u = (asm_abs ?s)\<lparr>as_data := as_data (asm_abs ?s) @ payload\<rparr>"
    using a(4) g(3) by (simp add: u_def)
  have bad: "rx_asm_bad u = as_bad (asm_abs u)" by (simp add: asm_abs_def)
  have wf: "rx_wf u" using a(2) by (simp add: u_def)
  have "asm_step h payload (asm_abs s) =
     (if sh_flags h AND SHDR_F_MSG_END = 0 then (None, asm_abs u)
      else if as_bad (asm_abs u) then (None, (asm_abs u)\<lparr>as_data := [], as_next := 0, as_bad := False\<rparr>)
      else (Some (as_src (asm_abs u), as_data (asm_abs u)), (asm_abs u)\<lparr>as_data := []\<rparr>))"
    unfolding abs asm_sequence_reset_abs asm_step_def by (simp add: Let_def)
  then show ?thesis
    using res asm_end_wf [OF wf, of True h] asm_end_abs [OF wf q(4), of True h] asm_end_max [of True h u] q bad
    by (cases "sh_flags h AND SHDR_F_MSG_END = 0"; cases "as_bad (asm_abs u)") auto
qed

section \<open>Loss of fragments\<close>

fun asm_run :: "(stream_hdr \<times> byte list) list \<Rightarrow> assembly \<Rightarrow> (u8 \<times> byte list) list \<times> assembly" where
  "asm_run [] a = ([], a)"
| "asm_run ((h, p) # fs) a =
     (case asm_step h p a of (out, a) \<Rightarrow>
        case asm_run fs a of (outs, a) \<Rightarrow>
          ((case out of None \<Rightarrow> outs | Some m \<Rightarrow> m # outs), a))"

text \<open>The fragments of a message as header and payload, from number \<open>i\<close> on.\<close>

fun frags_from :: "u8 \<Rightarrow> u8 \<Rightarrow> nat \<Rightarrow> byte list list \<Rightarrow> (stream_hdr \<times> byte list) list" where
  "frags_from src dst i [] = []"
| "frags_from src dst i (c # cs) =
     (frag_hdr src dst (i = 0) (cs = []) (length c) (of_nat i), c) # frags_from src dst (Suc i) cs"

definition msg_frags :: "u8 \<Rightarrow> u8 \<Rightarrow> byte list \<Rightarrow> (stream_hdr \<times> byte list) list" where
  "msg_frags src dst data = frags_from src dst 0 (chunks STREAM_PAYLOAD_MAX data)"

lemma msg_frames_frags: "msg_frames src dst data = map (\<lambda>(h, c). hdr_bytes h @ c) (msg_frags src dst data)"
proof -
  have "frames_from src dst i cs = map (\<lambda>(h, c). hdr_bytes h @ c) (frags_from src dst i cs)" for i cs
    by (induction cs arbitrary: i) auto
  then show ?thesis by (simp add: msg_frames_def msg_frags_def)
qed

lemma length_frags_from [simp]: "length (frags_from src dst i cs) = length cs"
  by (induction cs arbitrary: i) auto

lemma asm_run_append:
  "asm_run (fs @ gs) a = (case asm_run fs a of (o1, a) \<Rightarrow> case asm_run gs a of (o2, a) \<Rightarrow> (o1 @ o2, a))"
  by (induction fs a rule: asm_run.induct) (auto split: prod.splits option.splits)

lemma asm_step_frag:
  "asm_step (frag_hdr src dst is_first is_last n i) c a =
    (let a = (if is_first then \<lparr>as_src = src, as_data = [], as_next = 0, as_bad = False\<rparr> else a);
         a = a\<lparr>as_bad := (as_bad a \<or> i \<noteq> as_next a), as_next := i + 1, as_data := as_data a @ c\<rparr>
     in if \<not> is_last then (None, a)
        else if as_bad a then (None, a\<lparr>as_data := [], as_next := 0, as_bad := False\<rparr>)
        else (Some (as_src a, as_data a), a\<lparr>as_data := []\<rparr>))"
  using shdr_flags_bits [of is_first is_last] by (auto simp: asm_step_def frag_hdr_def Let_def)

lemma u16_of_nat_inj: "i < 65536 \<Longrightarrow> j < 65536 \<Longrightarrow> (of_nat i :: u16) = of_nat j \<longleftrightarrow> i = j"
  by (simp add: word_of_nat_eq_iff take_bit_nat_eq_self)

text \<open>Once a fragment is missed, nothing of the message is delivered.\<close>

lemma asm_run_missed:
  assumes "0 < i" "i + length cs \<le> 65536" "as_bad a \<or> (\<exists>j < i. as_next a = of_nat j)"
  shows "fst (asm_run (nths (frags_from src dst i cs) K) a) = []"
  using assms
proof (induction cs arbitrary: i a K)
  case (Cons c cs)
  have miss: "as_bad a \<or> of_nat i \<noteq> as_next a"
    using Cons.prems by (auto simp: u16_of_nat_inj)
  let ?a = "a\<lparr>as_bad := True, as_next := of_nat i + 1, as_data := as_data a @ c\<rparr>"
  have "fst (asm_run (nths (frags_from src dst (Suc i) cs) {j. Suc j \<in> K}) ?a) = []"
    "fst (asm_run (nths (frags_from src dst (Suc i) cs) {j. Suc j \<in> K}) a) = []"
    using Cons.prems less_Suc_eq by (intro Cons.IH; auto)+
  with miss Cons.prems(1) show ?case
    by (cases "cs = []") (auto simp: nths_Cons asm_step_frag Let_def split: prod.splits)
qed simp

text \<open>From a state that has every fragment before \<open>i\<close>, the message is delivered exactly when all the
  others arrive.\<close>

lemma asm_run_rest:
  assumes "0 < i" "i + length cs \<le> 65536" "cs \<noteq> []" "\<not> as_bad a" "as_next a = of_nat i"
  shows "fst (asm_run (nths (frags_from src dst i cs) K) a) =
    (if {..<length cs} \<subseteq> K then [(as_src a, as_data a @ concat cs)] else [])"
  using assms
proof (induction cs arbitrary: i a K)
  case (Cons c cs)
  let ?K = "{j. Suc j \<in> K}"
  have sub: "{..<length (c # cs)} \<subseteq> K \<longleftrightarrow> 0 \<in> K \<and> {..<length cs} \<subseteq> ?K"
    by (auto simp: lessThan_Suc_eq_insert_0)
  show ?case
  proof (cases "0 \<in> K")
    case False
    have "fst (asm_run (nths (frags_from src dst (Suc i) cs) ?K) a) = []"
      using Cons.prems by (intro asm_run_missed) auto
    with False sub show ?thesis by (simp add: nths_Cons)
  next
    case True
    show ?thesis
    proof (cases "cs = []")
      case True
      with \<open>0 \<in> K\<close> Cons.prems show ?thesis
        by (auto simp: nths_Cons asm_step_frag Let_def)
    next
      case False
      let ?a = "a\<lparr>as_next := of_nat i + 1, as_data := as_data a @ c\<rparr>"
      have "fst (asm_run (nths (frags_from src dst (Suc i) cs) ?K) ?a) =
        (if {..<length cs} \<subseteq> ?K then [(as_src ?a, as_data ?a @ concat cs)] else [])"
        using Cons.prems False by (intro Cons.IH) auto
      moreover have "asm_step (frag_hdr src dst (i = 0) (cs = []) (length c) (of_nat i)) c a = (None, ?a)"
        using Cons.prems False by (simp add: asm_step_frag)
      ultimately show ?thesis
        using True sub by (auto simp: nths_Cons split: prod.splits)
    qed
  qed
qed simp

lemma asm_run_message:
  assumes "0 \<in> K" "data \<noteq> []" "length (chunks STREAM_PAYLOAD_MAX data) \<le> 65536"
  shows "fst (asm_run (nths (msg_frags src dst data) K) a) =
    (if {..<length (chunks STREAM_PAYLOAD_MAX data)} \<subseteq> K then [(src, data)] else [])"
proof -
  obtain c cs where cs: "chunks STREAM_PAYLOAD_MAX data = c # cs"
    using assms(2) by (metis chunks_eq_Nil neq_Nil_conv)
  have data: "c @ concat cs = data" using concat_chunks [of STREAM_PAYLOAD_MAX data] cs by simp
  let ?K = "{j. Suc j \<in> K}"
  let ?a = "\<lparr>as_src = src, as_data = c, as_next = 1, as_bad = False\<rparr>"
  have sub: "{..<length (c # cs)} \<subseteq> K \<longleftrightarrow> {..<length cs} \<subseteq> ?K"
    using assms(1) by (auto simp: lessThan_Suc_eq_insert_0)
  show ?thesis
  proof (cases "cs = []")
    case True
    with cs data assms(1) show ?thesis
      by (simp add: msg_frags_def asm_step_frag lessThan_Suc)
  next
    case False
    have "fst (asm_run (nths (frags_from src dst 1 cs) ?K) ?a) =
      (if {..<length cs} \<subseteq> ?K then [(src, data)] else [])"
      using asm_run_rest [of 1 cs ?a src dst ?K] False assms(3) cs data by simp
    moreover have "asm_step (frag_hdr src dst True (cs = []) (length c) 0) c a = (None, ?a)"
      using False by (simp add: asm_step_frag)
    ultimately show ?thesis using assms(1) cs sub
      by (auto simp: msg_frags_def nths_Cons split: prod.splits)
  qed
qed

text \<open>The same for the driver's assembly: a sequence of fragments given to one stream.\<close>

fun rx_assemble_all ::
  "(nat \<Rightarrow> byte list option) \<Rightarrow> (stream_hdr \<times> byte list) list \<Rightarrow> stream \<Rightarrow> stream option" where
  "rx_assemble_all kmalloc [] s = Some s"
| "rx_assemble_all kmalloc ((h, p) # fs) s =
     do { s \<leftarrow> rx_assemble kmalloc True h p s; rx_assemble_all kmalloc fs s }"

lemma queue_len_abs: "rx_wf s \<Longrightarrow> st_rx_queue_len s = int (length (queue_abs s))"
  by (simp add: rx_wf_def queue_abs_def)

lemma rx_assemble_all_refines:
  assumes "rx_wf s" "kmalloc_sized kmalloc" "\<And>k. kmalloc k \<noteq> None" "\<And>h p. (h, p) \<in> set fs \<Longrightarrow> p \<noteq> []"
    "int (length (queue_abs s) + length (fst (asm_run fs (asm_abs s)))) \<le> st_rx_queue_max s"
  shows "\<exists>s'. rx_assemble_all kmalloc fs s = Some s' \<and> rx_wf s' \<and>
    queue_abs s' = queue_abs s @ fst (asm_run fs (asm_abs s)) \<and> asm_abs s' = snd (asm_run fs (asm_abs s))"
  using assms
proof (induction fs arbitrary: s)
  case (Cons f fs)
  obtain h p where f: "f = (h, p)" by (cases f)
  obtain out a where st: "asm_step h p (asm_abs s) = (out, a)" by (cases "asm_step h p (asm_abs s)")
  obtain outs a' where run: "asm_run fs a = (outs, a')" by (cases "asm_run fs a")
  have "p \<noteq> []" using Cons.prems(4) [of h p] f by simp
  then obtain s' where s': "rx_assemble kmalloc True h p s = Some s'" "rx_wf s'" "asm_abs s' = a"
    "st_rx_queue_max s' = st_rx_queue_max s"
    "queue_abs s' = queue_abs s @ (case out of None \<Rightarrow> []
      | Some m \<Rightarrow> if st_rx_queue_len s < st_rx_queue_max s then [m] else [])"
    using rx_assemble_refines [OF Cons.prems(1-3), of p h] st by auto
  have "case out of None \<Rightarrow> True | Some m \<Rightarrow> st_rx_queue_len s < st_rx_queue_max s"
    using Cons.prems(5) st run f queue_len_abs [OF Cons.prems(1)] by (auto split: option.splits)
  then have q: "queue_abs s' = queue_abs s @ (case out of None \<Rightarrow> [] | Some m \<Rightarrow> [m])"
    using s'(5) by (auto split: option.splits)
  have "\<exists>s''. rx_assemble_all kmalloc fs s' = Some s'' \<and> rx_wf s'' \<and>
    queue_abs s'' = queue_abs s' @ fst (asm_run fs (asm_abs s')) \<and> asm_abs s'' = snd (asm_run fs (asm_abs s'))"
    using Cons.prems(2-5) s' q st run f by (intro Cons.IH) (auto split: option.splits)
  then show ?case using s'(1,3) q st run f by (auto split: option.splits)
qed simp

lemma nths_payload:
  assumes "(h, p) \<in> set (nths (msg_frags src dst data) K)"
  shows "p \<noteq> []"
proof -
  have "p \<in> set cs" if "(h, p) \<in> set (frags_from src dst i cs)" for i cs
    using that by (induction cs arbitrary: i) auto
  then have "p \<in> set (chunks STREAM_PAYLOAD_MAX data)"
    using assms notin_set_nthsI unfolding msg_frags_def by fast
  then show ?thesis using chunks_bounded STREAM_PAYLOAD_MAX_pos(1) by blast
qed

lemma asm_run_messages:
  assumes "\<forall>(data, K) \<in> set ms. 0 \<in> K \<and> data \<noteq> [] \<and> length (chunks STREAM_PAYLOAD_MAX data) \<le> 65536"
  shows "fst (asm_run (concat (map (\<lambda>(data, K). nths (msg_frags src dst data) K) ms)) a) =
    map (\<lambda>(data, K). (src, data))
      (filter (\<lambda>(data, K). {..<length (chunks STREAM_PAYLOAD_MAX data)} \<subseteq> K) ms)"
  using assms
proof (induction ms arbitrary: a)
  case (Cons m ms)
  obtain data K where m: "m = (data, K)" by (cases m)
  obtain o1 a1 where r1: "asm_run (nths (msg_frags src dst data) K) a = (o1, a1)" by fastforce
  have o1: "o1 = (if {..<length (chunks STREAM_PAYLOAD_MAX data)} \<subseteq> K then [(src, data)] else [])"
    using asm_run_message [of K data src dst a] Cons.prems m r1 by auto
  let ?rest = "concat (map (\<lambda>(data, K). nths (msg_frags src dst data) K) ms)"
  obtain o2 a2 where r2: "asm_run ?rest a1 = (o2, a2)" by fastforce
  have "fst (asm_run ?rest a1) = map (\<lambda>(data, K). (src, data))
      (filter (\<lambda>(data, K). {..<length (chunks STREAM_PAYLOAD_MAX data)} \<subseteq> K) ms)"
    using Cons.prems by (intro Cons.IH) simp
  with r1 r2 o1 show ?case unfolding m by (simp add: asm_run_append)
qed simp

section \<open>Properties of the assembly\<close>

text \<open>C4: Fragment loss is detected. Let any number of messages arrive on a stream, of each of them an arbitrary
  subset of its fragments, in order, that contains the first one. Then the driver queues exactly the messages
  of which every fragment arrived, in order, with their exact contents, and none of the others. (Memory is
  available and the queue has room; each message is one the sender accepts.)\<close>

theorem rx_fragment_loss_detected:
  assumes "rx_wf s" "kmalloc_sized kmalloc" "\<And>k. kmalloc k \<noteq> None"
    "\<forall>(data, K) \<in> set ms. 0 \<in> K \<and> data \<noteq> [] \<and> length data \<le> STREAM_PAYLOAD_MAX * 4096"
    "int (length (queue_abs s) + length ms) \<le> st_rx_queue_max s"
  shows "\<exists>s'. rx_assemble_all kmalloc (concat (map (\<lambda>(data, K). nths (msg_frags src dst data) K) ms)) s = Some s' \<and>
    rx_wf s' \<and>
    queue_abs s' = queue_abs s @ map (\<lambda>(data, K). (src, data))
      (filter (\<lambda>(data, K). {..<length (msg_frags src dst data)} \<subseteq> K) ms)"
proof -
  let ?fs = "concat (map (\<lambda>(data, K). nths (msg_frags src dst data) K) ms)"
  have len: "length (msg_frags src dst data) = length (chunks STREAM_PAYLOAD_MAX data)" for data
    by (simp add: msg_frags_def)
  have "length (chunks STREAM_PAYLOAD_MAX data) \<le> 65536" if "length data \<le> STREAM_PAYLOAD_MAX * 4096" for data :: "byte list"
  proof -
    have "DIV_ROUND_UP (length data) STREAM_PAYLOAD_MAX \<le> 4096"
      using that by (simp add: DIV_ROUND_UP_le_iff mult.commute)
    then show ?thesis by (simp add: length_chunks)
  qed
  then have run: "fst (asm_run ?fs (asm_abs s)) = map (\<lambda>(data, K). (src, data))
      (filter (\<lambda>(data, K). {..<length (msg_frags src dst data)} \<subseteq> K) ms)"
    unfolding len using assms(4) by (intro asm_run_messages) auto
  have "p \<noteq> []" if "(h, p) \<in> set ?fs" for h p using that nths_payload by fastforce
  moreover have "int (length (queue_abs s) + length (fst (asm_run ?fs (asm_abs s)))) \<le> st_rx_queue_max s"
    unfolding run length_map using assms(5)
      length_filter_le [of "\<lambda>(data, K). {..<length (msg_frags src dst data)} \<subseteq> K" ms] by linarith
  ultimately show ?thesis
    using rx_assemble_all_refines [OF assms(1-3), of ?fs] unfolding run by blast
qed

definition sample_kmalloc :: "nat \<Rightarrow> byte list option" where
  "sample_kmalloc n = Some (replicate n 0)"

lemma sample_kmalloc_ok: "kmalloc_sized sample_kmalloc" "sample_kmalloc k \<noteq> None"
  by (simp_all add: kmalloc_sized_def sample_kmalloc_def)

lemma new_stream_rx_wf: "rx_wf (new_stream i owner)"
  by (simp add: rx_wf_def new_stream_def)

theorem rx_fragment_loss_detected_witness:
  "\<exists>s'. rx_assemble_all sample_kmalloc
      (nths (msg_frags 21 22 (replicate 5000 1)) {0} @ nths (msg_frags 21 22 [7, 8]) {0}) (new_stream 22 None) = Some s' \<and>
    queue_abs s' = [(21, [7, 8])]"
proof -
  have len: "length (msg_frags 21 22 (replicate 5000 1)) = 2" "length (msg_frags 21 22 [7, 8]) = 1"
    by (simp_all add: msg_frags_def length_chunks DIV_ROUND_UP_def STREAM_PAYLOAD_MAX_eq)
  show ?thesis
    using rx_fragment_loss_detected [OF new_stream_rx_wf sample_kmalloc_ok,
        of "[(replicate 5000 1, {0}), ([7, 8], {0})]" 22 None 21 22]
    by (auto simp: len STREAM_PAYLOAD_MAX_eq queue_abs_def new_stream_def lessThan_Suc numeral_2_eq_2)
qed

lemma drop_frags_from: "drop k (frags_from src dst i cs) = frags_from src dst (i + k) (drop k cs)"
proof (induction k arbitrary: i cs)
  case (Suc k)
  then show ?case by (cases cs) auto
qed simp

text \<open>C12: Loss of the first fragments is detected only by the fragment counter that the previous message left
  behind. When a message loses exactly its first \<open>k\<close> fragments (the one with the start flag among them), the
  rest is delivered as if it were a message, under the sender of the previous message, if the stream is not poisoned and
  its counter happens to be \<open>k\<close>. The counter is not cleared when a message is delivered: after a message of \<open>k\<close>
  fragments it is \<open>k\<close>.\<close>

theorem rx_lost_start_delivered:
  assumes "rx_wf s" "kmalloc_sized kmalloc" "\<And>j. kmalloc j \<noteq> None" "rx_asm_buf s = None" "\<not> rx_asm_bad s"
    "rx_asm_next_frag s = of_nat k" "0 < k" "k < length (msg_frags src dst data)"
    "length data \<le> STREAM_PAYLOAD_MAX * 4096" "st_rx_queue_len s < st_rx_queue_max s"
  shows "\<exists>s'. rx_assemble_all kmalloc (drop k (msg_frags src dst data)) s = Some s' \<and>
    queue_abs s' = queue_abs s @ [(rx_asm_src_id s, drop (k * STREAM_PAYLOAD_MAX) data)]"
proof -
  let ?cs = "chunks STREAM_PAYLOAD_MAX data"
  have fs: "drop k (msg_frags src dst data) = frags_from src dst k (drop k ?cs)"
    by (simp add: msg_frags_def drop_frags_from)
  have len: "k < length ?cs" using assms(8) by (simp add: msg_frags_def)
  have "length ?cs \<le> 4096"
    using assms(9) by (simp add: length_chunks DIV_ROUND_UP_le_iff mult.commute)
  then have "fst (asm_run (nths (frags_from src dst k (drop k ?cs)) UNIV) (asm_abs s))
      = [(rx_asm_src_id s, concat (drop k ?cs))]"
    using asm_run_rest [of k "drop k ?cs" "asm_abs s" src dst UNIV] assms(4-7) len
    by (simp add: asm_abs_def)
  moreover have "concat (drop j (chunks n xs)) = drop (j * n) xs" if "0 < n" for j n and xs :: "byte list"
    using that
  proof (induction j arbitrary: xs)
    case (Suc j)
    then show ?case by (cases "xs = []") (simp_all add: chunks_step add.commute)
  qed simp
  ultimately have run: "fst (asm_run (drop k (msg_frags src dst data)) (asm_abs s))
      = [(rx_asm_src_id s, drop (k * STREAM_PAYLOAD_MAX) data)]" by (simp add: fs nths_all)
  have "p \<noteq> []" if "(h, p) \<in> set (drop k (msg_frags src dst data))" for h p
    using that nths_payload [of h p src dst data UNIV] in_set_dropD by (fastforce simp: nths_all)
  then show ?thesis
    using rx_assemble_all_refines [OF assms(1-3), of "drop k (msg_frags src dst data)"] run assms(10)
      queue_len_abs [OF assms(1)] by auto
qed

theorem rx_lost_start_delivered_witness:
  "\<exists>s s'. rx_assemble_all sample_kmalloc (msg_frags 21 22 [9]) (new_stream 22 None) = Some s \<and>
    rx_assemble_all sample_kmalloc (drop 1 (msg_frags 30 22 (replicate 5000 1))) s = Some s' \<and>
    queue_abs s' = [(21, [9]), (21, replicate 976 1)]"
proof -
  have m: "msg_frags 21 22 [9] = [(frag_hdr 21 22 True True 1 0, [9])]"
    by (simp add: msg_frags_def chunks_step STREAM_PAYLOAD_MAX_eq)
  obtain s where s: "rx_assemble_all sample_kmalloc (msg_frags 21 22 [9]) (new_stream 22 None) = Some s"
    "rx_wf s" "queue_abs s = [(21, [9])]" "rx_asm_buf s = None" "\<not> rx_asm_bad s" "rx_asm_next_frag s = 1"
    "rx_asm_src_id s = 21" "st_rx_queue_len s < st_rx_queue_max s"
    unfolding m
    by (simp add: rx_assemble_def asm_grow_def asm_append_def asm_end_def asm_clear_def asm_sequence_def
        asm_reset_def new_stream_def frag_hdr_def shdr_flags_def driver_consts sample_kmalloc_def
        mem_write_def queue_abs_def rx_wf_def Let_def)
  have len: "length (msg_frags 30 22 (replicate 5000 1)) = 2"
    by (simp add: msg_frags_def length_chunks DIV_ROUND_UP_def STREAM_PAYLOAD_MAX_eq)
  obtain s' where "rx_assemble_all sample_kmalloc (drop 1 (msg_frags 30 22 (replicate 5000 1))) s = Some s'"
    "queue_abs s' = [(21, [9]), (21, replicate 976 1)]"
    using rx_lost_start_delivered [OF s(2) sample_kmalloc_ok s(4,5), of 1 30 22 "replicate 5000 1"] s len
    by (auto simp: STREAM_PAYLOAD_MAX_eq drop_replicate)
  with s(1) show ?thesis by blast
qed

lemma stream_recv_queue:
  assumes "rx_wf s" "queue_abs s = (src, msg) # q"
  shows "\<exists>s'. stream_recv intr copy_ok buf_len s =
    (Returned (if copy_ok then Inr (src, take buf_len msg) else Inl EFAULT), s') \<and> rx_wf s' \<and> queue_abs s' = q"
  using assms
  by (cases "st_rx_queue s") (auto simp: rx_wf_def queue_abs_def stream_recv_def Let_def min.commute split: option.splits)



end
