(* ===== verification/Rx_Path.thy ===== *)
theory Rx_Path
  imports Rx_Assembly
begin

text \<open>
  The completion callback of the receive ring, \<open>odl_tb5_rx_callback\<close> of
  \<^verbatim>\<open>driver/odl_tb5_ring_dma.c\<close> (lines 218 to 522), on a device: which frames it drops, which it treats as
  control messages, which it hands to the assembly of a stream, and that it returns the slot, the stream's
  reference and keeps the receive ring filled. \<open>rx_ok\<close> gives the answers of the ring to reposted descriptors.
\<close>

section \<open>The callback\<close>

text \<open>Flags of \<open>struct ring_frame\<close>, from \<^verbatim>\<open>linux/thunderbolt.h\<close>.\<close>

definition RING_DESC_CRC_ERROR :: u32 where [driver_consts]: "RING_DESC_CRC_ERROR = 1"
definition RING_DESC_BUFFER_OVERRUN :: u32 where [driver_consts]: "RING_DESC_BUFFER_OVERRUN = 4"

definition pool_put :: "nat \<Rightarrow> odl_device \<Rightarrow> odl_device option" where
  "pool_put i d = do { p \<leftarrow> frame_pool_put (dev_pool d) i; Some (d\<lparr>dev_pool := p\<rparr>) }"

text \<open>A control message: a pong wakes the verifier, anything else is answered by a work item.\<close>

definition rx_control :: "u32 \<Rightarrow> odl_device \<Rightarrow> odl_device" where
  "rx_control ty d =
     (if ty = DMA_PONG then d\<lparr>dev_hs := (dev_hs d)\<lparr>pong_received := True\<rparr>\<rparr>
      else d\<lparr>dev_hs := (dev_hs d)\<lparr>verify_rx_type := ty\<rparr>, dev_ctrl_reply := True\<rparr>)"

text \<open>A frame with a stream header. The payload is read from the slot's memory, \<open>payload_len\<close> bytes from
  offset 8, without a comparison of \<open>payload_len\<close> with the size of the frame.\<close>

definition rx_stream_frame ::
  "(nat \<Rightarrow> byte list option) \<Rightarrow> bool \<Rightarrow> byte list \<Rightarrow> odl_device \<Rightarrow> odl_device option" where
  "rx_stream_frame kmalloc rxm_ok mem d =
     do {
       h \<leftarrow> hdr_of_bytes mem;
       if sh_dst_id h = 0 then Some d
       else do {
         (r, d) \<leftarrow> stream_lookup (sh_dst_id h) d;
         case r of
           None \<Rightarrow> Some d
         | Some a \<Rightarrow>
             if sh_payload_len h = 0 then Some d
             else do {
               s \<leftarrow> dev_heap d a;
               payload \<leftarrow> mem_read STREAM_HDR_SIZE (unat (sh_payload_len h)) mem;
               s \<leftarrow> rx_assemble kmalloc rxm_ok h payload s;
               stream_put a (d\<lparr>dev_heap := (dev_heap d)(a \<mapsto> s)\<rparr>)
             }
       }
     }"

definition rx_pool_frame ::
  "(nat \<Rightarrow> byte list option) \<Rightarrow> bool \<Rightarrow> (int \<Rightarrow> bool) \<Rightarrow> nat \<Rightarrow> bool \<Rightarrow> odl_device \<Rightarrow> odl_device option" where
  "rx_pool_frame kmalloc rxm_ok rx_ok i canceled d =
     do {
       slot \<leftarrow> get_slot i d;
       let d = d\<lparr>dev_rx_posted := dev_rx_posted d - 1\<rparr>;
       let st = dev_stats d;
       let frame = fs_frame slot;
       if canceled then pool_put i (d\<lparr>dev_stats := st\<lparr>rx_canceled := rx_canceled st + 1\<rparr>\<rparr>)
       else if rf_flags frame AND RING_DESC_CRC_ERROR \<noteq> 0
       then pool_put i (d\<lparr>dev_stats := st\<lparr>rx_err_crc := rx_err_crc st + 1\<rparr>\<rparr>)
       else if rf_flags frame AND RING_DESC_BUFFER_OVERRUN \<noteq> 0
       then pool_put i (d\<lparr>dev_stats := st\<lparr>rx_err_overrun := rx_err_overrun st + 1\<rparr>\<rparr>)
       else do {
         let d = d\<lparr>dev_stats := st\<lparr>rx_frames_ok := rx_frames_ok st + 1\<rparr>\<rparr>;
         mem \<leftarrow> fs_virt slot;
         d \<leftarrow> (if DMA_HDR_SIZE \<le> rf_size frame \<and> dma_hdr_magic mem = DMA_MAGIC
               then Some (rx_control (dma_hdr_type mem) d)
               else if STREAM_HDR_SIZE \<le> rf_size frame then rx_stream_frame kmalloc rxm_ok mem d
               else Some d);
         d \<leftarrow> pool_put i d;
         rx_repost rx_ok d
       }
     }"

text \<open>
  A frame outside the pool belongs to the legacy double buffer: its data lies in the buffer that was
  posted, at the frame's index.
\<close>

definition rx_legacy_frame :: "nat \<Rightarrow> bool \<Rightarrow> odl_device \<Rightarrow> odl_device option" where
  "rx_legacy_frame idx canceled d =
     (let ctx = dev_rx d;
          complete = d\<lparr>dev_rx := ctx\<lparr>rc_completed := rc_completed ctx + 1\<rparr>\<rparr>
      in if canceled then Some d
         else if conn_state_code CONNECTED \<le> conn_state_code (dev_state d)
         then do {
           mem \<leftarrow> (if rc_posted_buf ctx < length (rc_bufs ctx)
                   then db_virt (rc_bufs ctx ! rc_posted_buf ctx) else None);
           magic \<leftarrow> mem_read (idx * FRAME_SIZE) 4 mem;
           if le32_to_cpu magic = DMA_MAGIC
           then do {
             ty \<leftarrow> mem_read (idx * FRAME_SIZE + 4) 4 mem;
             Some (rx_control (le32_to_cpu ty) d)
           }
           else Some complete
         }
         else Some complete)"

text \<open>\<open>known\<close>: the ring belongs to a device of the global list. A descriptor of another array cannot be on
  the receive ring; its index in the legacy array would be a meaningless pointer difference.\<close>

definition rx_callback ::
  "(nat \<Rightarrow> byte list option) \<Rightarrow> bool \<Rightarrow> (int \<Rightarrow> bool) \<Rightarrow> bool \<Rightarrow> frame_ref \<Rightarrow> bool \<Rightarrow> odl_device
    \<Rightarrow> odl_device option" where
  "rx_callback kmalloc rxm_ok rx_ok known r canceled d =
     (if \<not> known then Some d
      else case r of
             PoolSlot i \<Rightarrow>
               if fp_slots (dev_pool d) \<noteq> None \<and> i < fp_size (dev_pool d)
               then rx_pool_frame kmalloc rxm_ok rx_ok i canceled d
               else None
           | LegacyRx i \<Rightarrow> rx_legacy_frame i canceled d
           | _ \<Rightarrow> None)"

section \<open>The callback on a device\<close>

definition rx_dev_wf :: "(nat \<Rightarrow> nat) \<Rightarrow> odl_device \<Rightarrow> bool" where
  "rx_dev_wf refs d \<longleftrightarrow> streams_wf refs d \<and> frame_pool_wf (dev_pool d) \<and> (\<forall>s \<in> ran (dev_heap d). rx_wf s)"

lemma stream_lookup_eq:
  assumes "streams_wf refs d"
  shows "stream_lookup i d = (case stream_pub d i of None \<Rightarrow> Some (None, d)
    | Some a \<Rightarrow> Some (Some a, d\<lparr>dev_heap := (dev_heap d)(a \<mapsto> (the (dev_heap d a))
        \<lparr>st_refcount := Suc (st_refcount (the (dev_heap d a)))\<rparr>)\<rparr>))"
  using lookup_chain_find [OF streams_wfD(7) [OF assms], of "dev_streams d" i]
  by (simp add: stream_lookup_def stream_pub_def)

text \<open>The three things that can happen to a frame with a stream header.\<close>

lemma rx_stream_frame_ignored:
  assumes "streams_wf refs d" "hdr_of_bytes mem = Some h" "sh_dst_id h = 0 \<or> stream_pub d (sh_dst_id h) = None"
  shows "rx_stream_frame kmalloc rxm_ok mem d = Some d"
  using assms by (auto simp: rx_stream_frame_def stream_lookup_eq)

lemma rx_stream_frame_empty:
  assumes "rx_dev_wf refs d" "hdr_of_bytes mem = Some h" "sh_dst_id h \<noteq> 0" "stream_pub d (sh_dst_id h) = Some a"
    "sh_payload_len h = 0"
  shows "\<exists>d'. rx_stream_frame kmalloc rxm_ok mem d = Some d' \<and> rx_dev_wf (refs(a := Suc (refs a))) d' \<and>
    dev_pool d' = dev_pool d \<and> dev_rx d' = dev_rx d"
proof -
  have wf: "streams_wf refs d" using assms(1) by (simp add: rx_dev_wf_def)
  then obtain s where s: "dev_heap d a = Some s" using assms(4) stream_pub_iff streams_wfD(7) by metis
  let ?d = "d\<lparr>dev_heap := (dev_heap d)(a \<mapsto> s\<lparr>st_refcount := Suc (st_refcount s)\<rparr>)\<rparr>"
  have "stream_lookup (sh_dst_id h) d = Some (Some a, ?d)"
    using stream_lookup_eq [OF wf] assms(4) s by simp
  moreover have "streams_wf (refs(a := Suc (refs a))) ?d"
    using stream_lookup_law [OF wf, of "sh_dst_id h"] calculation assms(4) by simp
  moreover have "rx_wf s" using assms(1) s by (auto simp: rx_dev_wf_def ran_def)
  then have "\<forall>s \<in> ran (dev_heap ?d). rx_wf s"
    using assms(1) by (auto simp: rx_dev_wf_def ran_def)
  ultimately show ?thesis
    using assms by (auto simp: rx_stream_frame_def rx_dev_wf_def)
qed

lemma rx_stream_frame_payload:
  assumes "rx_dev_wf refs d" "hdr_of_bytes mem = Some h" "sh_dst_id h \<noteq> 0" "stream_pub d (sh_dst_id h) = Some a"
    "sh_payload_len h \<noteq> 0" "kmalloc_sized kmalloc"
  shows "case mem_read STREAM_HDR_SIZE (unat (sh_payload_len h)) mem of
      None \<Rightarrow> rx_stream_frame kmalloc rxm_ok mem d = None
    | Some payload \<Rightarrow> \<exists>s s'. dev_heap d a = Some s \<and>
        rx_assemble kmalloc rxm_ok h payload (s\<lparr>st_refcount := Suc (st_refcount s)\<rparr>) = Some s' \<and>
        rx_stream_frame kmalloc rxm_ok mem d
          = Some (d\<lparr>dev_heap := (dev_heap d)(a \<mapsto> s'\<lparr>st_refcount := st_refcount s\<rparr>)\<rparr>) \<and>
        rx_dev_wf refs (d\<lparr>dev_heap := (dev_heap d)(a \<mapsto> s'\<lparr>st_refcount := st_refcount s\<rparr>)\<rparr>)"
proof -
  have wf: "streams_wf refs d" using assms(1) by (simp add: rx_dev_wf_def)
  then obtain s where s: "dev_heap d a = Some s" "0 < st_refcount s"
    using assms(4) stream_pub_iff streams_wfD(7) by metis
  have ok: "stream_ok (refs a) (a \<in> set (dev_streams d)) (Some s)"
    using streams_wfD(6) [OF wf, of a] s by simp
  let ?s = "s\<lparr>st_refcount := Suc (st_refcount s)\<rparr>"
  have lk: "stream_lookup (sh_dst_id h) d = Some (Some a, d\<lparr>dev_heap := (dev_heap d)(a \<mapsto> ?s)\<rparr>)"
    using stream_lookup_eq [OF wf] assms(4) s by simp
  have rx: "rx_wf ?s" using assms(1) s by (auto simp: rx_dev_wf_def ran_def)
  show ?thesis
  proof (cases "mem_read STREAM_HDR_SIZE (unat (sh_payload_len h)) mem")
    case None
    with lk assms show ?thesis by (simp add: rx_stream_frame_def)
  next
    case (Some payload)
    obtain s' where s': "rx_assemble kmalloc rxm_ok h payload ?s = Some s'" "rx_wf s'" "st_id s' = st_id s"
      "st_refcount s' = Suc (st_refcount s)" "st_tx_queue s' = st_tx_queue s" "st_dying s' = st_dying s"
      using rx_assemble_wf [OF rx assms(6), of rxm_ok h payload] by auto
    let ?t = "s'\<lparr>st_refcount := st_refcount s\<rparr>"
    have "stream_put a (d\<lparr>dev_heap := (dev_heap d)(a \<mapsto> s')\<rparr>) = Some (d\<lparr>dev_heap := (dev_heap d)(a \<mapsto> ?t)\<rparr>)"
      using stream_put_eq [of "d\<lparr>dev_heap := (dev_heap d)(a \<mapsto> s')\<rparr>" a s' "st_refcount s"] s' s ok
      by (simp add: stream_ok_def)
    with lk Some s' assms have "rx_stream_frame kmalloc rxm_ok mem d
        = Some (d\<lparr>dev_heap := (dev_heap d)(a \<mapsto> ?t)\<rparr>)"
      by (simp add: rx_stream_frame_def)
    moreover have "stream_ok (refs a) (a \<in> set (dev_streams d)) (Some ?t)"
      using ok s'(5,6) unfolding stream_ok_def by auto
    then have "streams_wf refs (d\<lparr>dev_heap := (dev_heap d)(a \<mapsto> ?t)\<rparr>)"
      using s'(3) by (intro streams_wf_upd(1) [OF wf s(1)]) simp_all
    moreover have "rx_wf ?t" using s'(2) by simp
    then have "\<forall>s \<in> ran (dev_heap (d\<lparr>dev_heap := (dev_heap d)(a \<mapsto> ?t)\<rparr>)). rx_wf s"
      using assms(1) by (auto simp: rx_dev_wf_def ran_def)
    ultimately show ?thesis using Some s(1) s'(1) assms(1) by (auto simp: rx_dev_wf_def)
  qed
qed

text \<open>Returning the slot and reposting keep the invariant.\<close>

lemma rx_dev_wf_cong:
  assumes "rx_dev_wf refs d" "dev_heap d' = dev_heap d" "dev_streams d' = dev_streams d" "dev_ida d' = dev_ida d"
    "frame_pool_wf (dev_pool d')" "dev_rx d' = dev_rx d"
  shows "rx_dev_wf refs d'"
proof -
  have "stream_num d' = stream_num d" using assms(2) by (auto simp: stream_num_def)
  with assms show ?thesis by (auto simp: rx_dev_wf_def streams_wf_def rx_base_ok_def)
qed

lemma pool_put_ok:
  assumes "rx_dev_wf refs d" "i \<in> frame_pool_used (dev_pool d)"
  shows "\<exists>p. pool_put i d = Some (d\<lparr>dev_pool := p\<rparr>) \<and> rx_dev_wf refs (d\<lparr>dev_pool := p\<rparr>) \<and>
    frame_pool_used p = frame_pool_used (dev_pool d) - {i}"
proof -
  obtain p where p: "frame_pool_put (dev_pool d) i = Some p" "frame_pool_wf p"
    "frame_pool_used p = frame_pool_used (dev_pool d) - {i}"
    using frame_pool_put_used [of "dev_pool d" i] assms by (auto simp: rx_dev_wf_def)
  moreover have "rx_dev_wf refs (d\<lparr>dev_pool := p\<rparr>)"
    using assms(1) p(2) by (intro rx_dev_wf_cong [OF assms(1)]) simp_all
  ultimately show ?thesis by (auto simp: pool_put_def)
qed

lemma rx_repost_ok:
  assumes "rx_dev_wf refs d"
  shows "\<exists>new p st. rx_repost rx_ok d = Some (reposted d new p st) \<and> rx_dev_wf refs (reposted d new p st) \<and>
    repost_ok d (dev_rx_target d - dev_rx_posted d) new p \<and>
    ((\<forall>n. rx_ok n) \<longrightarrow> length new = min (nat (dev_rx_target d - dev_rx_posted d))
       (FRAME_POOL_SIZE - card (frame_pool_used (dev_pool d))))"
proof -
  have "frame_pool_wf (dev_pool d)" "rc_ring (dev_rx d) \<noteq> None"
    using assms by (auto simp: rx_dev_wf_def streams_wf_def rx_base_ok_def)
  then obtain new p st where r: "rx_repost rx_ok d = Some (reposted d new p st)"
    "repost_ok d (dev_rx_target d - dev_rx_posted d) new p"
    "(\<forall>n. rx_ok n) \<Longrightarrow> length new = min (nat (dev_rx_target d - dev_rx_posted d))
       (FRAME_POOL_SIZE - card (frame_pool_used (dev_pool d)))" by (rule rx_repost_spec [where ok = rx_ok]) blast
  moreover have "rx_dev_wf refs (reposted d new p st)"
    using r(2) by (intro rx_dev_wf_cong [OF assms]) (simp_all add: reposted_def repost_ok_def)
  ultimately show ?thesis by blast
qed

lemma rx_put_repost_ok:
  assumes "rx_dev_wf refs d" "i \<in> frame_pool_used (dev_pool d)"
  shows "\<exists>d'. (do { d \<leftarrow> pool_put i d; rx_repost rx_ok d }) = Some d' \<and> rx_dev_wf refs d'"
proof -
  obtain p where p: "pool_put i d = Some (d\<lparr>dev_pool := p\<rparr>)" "rx_dev_wf refs (d\<lparr>dev_pool := p\<rparr>)"
    using pool_put_ok [OF assms] by blast
  from rx_repost_ok [OF p(2), of rx_ok] p(1) show ?thesis by auto
qed

text \<open>When a frame is handled as data of a stream: no error flag, no control magic, a full header, and a stream
  with the destination's number.\<close>

definition rx_is_control :: "frame_slot \<Rightarrow> byte list \<Rightarrow> bool" where
  "rx_is_control slot mem \<longleftrightarrow> DMA_HDR_SIZE \<le> rf_size (fs_frame slot) \<and> dma_hdr_magic mem = DMA_MAGIC"

definition rx_reaches :: "frame_slot \<Rightarrow> byte list \<Rightarrow> stream_hdr \<Rightarrow> bool \<Rightarrow> odl_device \<Rightarrow> nat option" where
  "rx_reaches slot mem h canceled d =
     (if canceled \<or> rf_flags (fs_frame slot) AND RING_DESC_CRC_ERROR \<noteq> 0
         \<or> rf_flags (fs_frame slot) AND RING_DESC_BUFFER_OVERRUN \<noteq> 0
         \<or> rx_is_control slot mem \<or> rf_size (fs_frame slot) < STREAM_HDR_SIZE \<or> sh_dst_id h = 0
      then None else stream_pub d (sh_dst_id h))"

lemma rx_dispatch_ok:
  fixes rxm_ok :: bool
  assumes "rx_dev_wf refs d" "length mem = FRAME_SIZE" "hdr_of_bytes mem = Some h" "kmalloc_sized kmalloc"
    "\<not> canceled" "rf_flags (fs_frame slot) AND RING_DESC_CRC_ERROR = 0"
    "rf_flags (fs_frame slot) AND RING_DESC_BUFFER_OVERRUN = 0"
  defines "res \<equiv> (if rx_is_control slot mem then Some (rx_control (dma_hdr_type mem) d)
     else if STREAM_HDR_SIZE \<le> rf_size (fs_frame slot) then rx_stream_frame kmalloc rxm_ok mem d else Some d)"
  shows "case rx_reaches slot mem h canceled d of
      None \<Rightarrow> \<exists>d'. res = Some d' \<and> rx_dev_wf refs d' \<and> dev_pool d' = dev_pool d
    | Some a \<Rightarrow>
        if 4088 < unat (sh_payload_len h) then res = None
        else \<exists>d'. res = Some d' \<and> dev_pool d' = dev_pool d \<and>
          rx_dev_wf (if sh_payload_len h = 0 then refs(a := Suc (refs a)) else refs) d'"
proof (cases "rx_reaches slot mem h canceled d")
  case None
  have "frame_pool_wf (dev_pool d)" using assms(1) by (simp add: rx_dev_wf_def)
  then have ctl: "rx_dev_wf refs (rx_control ty d)" "dev_pool (rx_control ty d) = dev_pool d" for ty
    by (simp_all add: rx_control_def rx_dev_wf_cong [OF assms(1)])
  have sw: "streams_wf refs d" using assms(1) by (simp add: rx_dev_wf_def)
  show ?thesis
    using None ctl rx_stream_frame_ignored [OF sw assms(3)] assms(1,5-7)
    by (auto simp: res_def rx_reaches_def split: if_splits)
next
  case (Some a)
  then have nc: "\<not> rx_is_control slot mem" "STREAM_HDR_SIZE \<le> rf_size (fs_frame slot)" "sh_dst_id h \<noteq> 0"
    "stream_pub d (sh_dst_id h) = Some a" by (auto simp: rx_reaches_def split: if_splits)
  then have res: "res = rx_stream_frame kmalloc rxm_ok mem d" by (simp add: res_def)
  show ?thesis
  proof (cases "sh_payload_len h = 0")
    case True
    with rx_stream_frame_empty [OF assms(1,3) nc(3,4) True, of kmalloc rxm_ok] Some show ?thesis
      by (auto simp: res)
  next
    case False
    have rd: "mem_read STREAM_HDR_SIZE (unat (sh_payload_len h)) mem = None \<longleftrightarrow> 4088 < unat (sh_payload_len h)"
      using assms(2) by (auto simp: mem_read_def driver_consts)
    from rx_stream_frame_payload [OF assms(1,3) nc(3,4) False assms(4), of rxm_ok] Some rd False show ?thesis
      by (auto simp: res split: option.splits)
  qed
qed

text \<open>A frame that arrived without an error.\<close>

lemma rx_pool_frame_clean:
  assumes "rx_dev_wf refs d" "i \<in> frame_pool_used (dev_pool d)" "get_slot i d = Some slot" "fs_virt slot = Some mem"
    "hdr_of_bytes mem = Some h" "kmalloc_sized kmalloc" "length mem = FRAME_SIZE"
    "\<not> canceled" "rf_flags (fs_frame slot) AND RING_DESC_CRC_ERROR = 0" "rf_flags (fs_frame slot) AND RING_DESC_BUFFER_OVERRUN = 0"
  shows "case rx_reaches slot mem h canceled d of
      None \<Rightarrow> \<exists>d'. rx_pool_frame kmalloc rxm_ok rx_ok i canceled d = Some d' \<and> rx_dev_wf refs d'
    | Some a \<Rightarrow>
        if 4088 < unat (sh_payload_len h)
        then rx_pool_frame kmalloc rxm_ok rx_ok i canceled d = None
        else \<exists>d'. rx_pool_frame kmalloc rxm_ok rx_ok i canceled d = Some d' \<and>
          rx_dev_wf (if sh_payload_len h = 0 then refs(a := Suc (refs a)) else refs) d'"
proof -
  have fp: "frame_pool_wf (dev_pool d)" using assms(1) by (simp add: rx_dev_wf_def)
  let ?d1 = "d\<lparr>dev_rx_posted := dev_rx_posted d - 1\<rparr>"
  define d2 where "d2 = ?d1\<lparr>dev_stats := (dev_stats d)\<lparr>rx_frames_ok := rx_frames_ok (dev_stats d) + 1\<rparr>\<rparr>"
  have wf2: "rx_dev_wf refs d2" unfolding d2_def using fp by (intro rx_dev_wf_cong [OF assms(1)]) simp_all
  have used: "i \<in> frame_pool_used (dev_pool d2)" using assms(2) by (simp add: d2_def)
  have reach: "rx_reaches slot mem h canceled d2 = rx_reaches slot mem h canceled d"
    by (simp add: rx_reaches_def stream_pub_def d2_def)
  have eq: "rx_pool_frame kmalloc rxm_ok rx_ok i canceled d = do {
      d \<leftarrow> (if rx_is_control slot mem then Some (rx_control (dma_hdr_type mem) d2)
            else if STREAM_HDR_SIZE \<le> rf_size (fs_frame slot) then rx_stream_frame kmalloc rxm_ok mem d2 else Some d2);
      d \<leftarrow> pool_put i d; rx_repost rx_ok d }"
    using assms(3,4,8-10) by (simp add: rx_pool_frame_def rx_is_control_def d2_def Let_def)
  let ?res = "if rx_is_control slot mem then Some (rx_control (dma_hdr_type mem) d2)
    else if STREAM_HDR_SIZE \<le> rf_size (fs_frame slot) then rx_stream_frame kmalloc rxm_ok mem d2 else Some d2"
  have fin: "\<exists>d'. (do { d \<leftarrow> ?res; d \<leftarrow> pool_put i d; rx_repost rx_ok d }) = Some d' \<and> rx_dev_wf refs' d'"
    if "?res = Some d3" "rx_dev_wf refs' d3" "dev_pool d3 = dev_pool d2" for refs' d3
    using rx_put_repost_ok [OF that(2), of i rx_ok] used that by simp
  show ?thesis
  proof (cases "rx_reaches slot mem h canceled d")
    case None
    then obtain d3 where "?res = Some d3" "rx_dev_wf refs d3" "dev_pool d3 = dev_pool d2"
      using rx_dispatch_ok [OF wf2 assms(7,5,6,8-10), of rxm_ok] reach by auto
    from fin [OF this] None show ?thesis unfolding eq by simp
  next
    case (Some a)
    let ?refs = "if sh_payload_len h = 0 then refs(a := Suc (refs a)) else refs"
    show ?thesis
    proof (cases "4088 < unat (sh_payload_len h)")
      case True
      then have "?res = None"
        using rx_dispatch_ok [OF wf2 assms(7,5,6,8-10), of rxm_ok] reach Some by simp
      with Some True show ?thesis unfolding eq by simp
    next
      case False
      then obtain d3 where "?res = Some d3" "dev_pool d3 = dev_pool d2" "rx_dev_wf ?refs d3"
        using rx_dispatch_ok [OF wf2 assms(7,5,6,8-10), of rxm_ok] reach Some by auto
      from fin [OF this(1,3,2)] Some False show ?thesis unfolding eq by simp
    qed
  qed
qed


section \<open>Frames arriving at a device\<close>

text \<open>
  The NHI writes an arriving frame into the memory of the first posted slot, fills in the size and the flags of the
  descriptor and calls back. A frame that finds no posted slot is lost.
\<close>

definition nhi_receive :: "byte list \<Rightarrow> u32 \<Rightarrow> frame_slot \<Rightarrow> frame_slot" where
  "nhi_receive bs flags s = s\<lparr>fs_virt := map_option (\<lambda>m. take (length m) (bs @ drop (length bs) m)) (fs_virt s),
     fs_frame := (fs_frame s)\<lparr>rf_size := length bs, rf_flags := flags\<rparr>\<rparr>"

definition rx_arrive ::
  "(nat \<Rightarrow> byte list option) \<Rightarrow> (int \<Rightarrow> bool) \<Rightarrow> byte list \<Rightarrow> odl_device \<Rightarrow> odl_device option" where
  "rx_arrive kmalloc rx_ok bs d =
     (case dev_rx_pending d of
        PoolSlot i # rest \<Rightarrow> do {
          d \<leftarrow> upd_slot i (nhi_receive bs 0) (d\<lparr>dev_rx_pending := rest\<rparr>);
          rx_callback kmalloc True rx_ok True (PoolSlot i) False d
        }
      | _ \<Rightarrow> Some d)"

fun rx_arrive_all ::
  "(nat \<Rightarrow> byte list option) \<Rightarrow> (int \<Rightarrow> bool) \<Rightarrow> byte list list \<Rightarrow> odl_device \<Rightarrow> odl_device option" where
  "rx_arrive_all kmalloc rx_ok [] d = Some d"
| "rx_arrive_all kmalloc rx_ok (b # bs) d =
     do { d \<leftarrow> rx_arrive kmalloc rx_ok b d; rx_arrive_all kmalloc rx_ok bs d }"

lemma keeps_slot_nhi [simp]: "keeps_slot (nhi_receive bs flags)"
  by (auto simp: keeps_slot_def nhi_receive_def option.map_comp comp_def intro!: option.map_cong)

text \<open>A device that is ready to receive: every posted slot is a distinct slot taken from the pool, and at least one
  is posted.\<close>

definition rx_ready :: "(nat \<Rightarrow> nat) \<Rightarrow> odl_device \<Rightarrow> bool" where
  "rx_ready refs d \<longleftrightarrow> rx_dev_wf refs d \<and> 0 < dev_rx_target d \<and>
     (\<exists>posted. dev_rx_pending d = map PoolSlot posted \<and> distinct posted \<and> posted \<noteq> [] \<and>
        set posted \<subseteq> frame_pool_used (dev_pool d) \<and> dev_rx_posted d = int (length posted))"

lemma slot_after_upd:
  assumes "frame_pool_wf (dev_pool d)" "i < FRAME_POOL_SIZE" "upd_slot i (nhi_receive bs flags) d = Some d'"
    "length bs \<le> FRAME_SIZE"
  shows "\<exists>slot rest. get_slot i d' = Some slot \<and> fs_virt slot = Some (bs @ rest) \<and>
    rf_size (fs_frame slot) = length bs \<and> rf_flags (fs_frame slot) = flags"
proof -
  obtain ss bm where ss: "fp_slots (dev_pool d) = Some ss" "length ss = FRAME_POOL_SIZE"
    "\<And>i. i < FRAME_POOL_SIZE \<Longrightarrow> slot_ok (bm ! i) i (ss ! i)"
    using assms(1) by (rule frame_pool_wfE) blast
  obtain m where m: "fs_virt (ss ! i) = Some m" "length m = FRAME_SIZE"
    using ss(3) [OF assms(2)] by (auto simp: slot_ok_def split: option.splits)
  have d': "d' = d\<lparr>dev_pool := (dev_pool d)\<lparr>fp_slots := Some (ss[i := nhi_receive bs flags (ss ! i)])\<rparr>\<rparr>"
    using assms(2,3) ss by (simp add: upd_slot_def)
  have "get_slot i d' = Some (nhi_receive bs flags (ss ! i))"
    using assms(2) ss by (simp add: get_slot_def d')
  moreover have "take (length m) (bs @ drop (length bs) m) = bs @ drop (length bs) m"
    using assms(4) m by simp
  ultimately show ?thesis using m by (auto simp: nhi_receive_def)
qed

text \<open>No data frame of a sender looks like a control message: the fourth byte of its header is zero.\<close>

lemma frag_not_control:
  "sh_reserved h = 0 \<Longrightarrow> dma_hdr_magic (hdr_bytes h @ rest) \<noteq> DMA_MAGIC"
proof -
  assume r: "sh_reserved h = 0"
  have "\<not> bit (dma_hdr_magic (hdr_bytes h @ rest)) 24"
    using r by (auto simp: dma_hdr_magic_def hdr_bytes_def le32_to_cpu_def bit_simps dest: bit_imp_le_length)
  moreover have "bit DMA_MAGIC 24" by (simp add: DMA_MAGIC_def bit_simps)
  ultimately show "dma_hdr_magic (hdr_bytes h @ rest) \<noteq> DMA_MAGIC" by metis
qed

lemma stream_pub_same:
  assumes "dev_streams d' = dev_streams d" "\<And>a. map_option st_id (dev_heap d' a) = map_option st_id (dev_heap d a)"
    "\<And>a. a \<in> set (dev_streams d) \<Longrightarrow> dev_heap d a \<noteq> None"
  shows "stream_pub d' = stream_pub d"
proof -
  have "st_id (the (dev_heap d' a)) = st_id (the (dev_heap d a))" if "a \<in> set (dev_streams d)" for a
    using assms(2) [of a] assms(3) [OF that] by (cases "dev_heap d' a") auto
  then show ?thesis unfolding stream_pub_def assms(1) by (intro ext find_cong) auto
qed

lemma rx_callback_data:
  assumes "rx_dev_wf refs d" "i \<in> frame_pool_used (dev_pool d)" "get_slot i d = Some slot"
    "fs_virt slot = Some mem" "hdr_of_bytes mem = Some h" "rf_flags (fs_frame slot) = 0"
    "\<not> rx_is_control slot mem" "STREAM_HDR_SIZE \<le> rf_size (fs_frame slot)"
  shows "rx_callback kmalloc True rx_ok True (PoolSlot i) False d = do {
    d \<leftarrow> rx_stream_frame kmalloc True mem (d\<lparr>dev_rx_posted := dev_rx_posted d - 1,
        dev_stats := (dev_stats d)\<lparr>rx_frames_ok := rx_frames_ok (dev_stats d) + 1\<rparr>\<rparr>);
    d \<leftarrow> pool_put i d; rx_repost rx_ok d }"
proof -
  have "frame_pool_wf (dev_pool d)" using assms(1) by (simp add: rx_dev_wf_def)
  then have "fp_slots (dev_pool d) \<noteq> None" "fp_size (dev_pool d) = FRAME_POOL_SIZE"
    by (auto elim: frame_pool_wfE)
  moreover have "i < FRAME_POOL_SIZE" using assms(2) frame_pool_used_bounded by blast
  ultimately show ?thesis
    using assms(3-) by (auto simp: rx_callback_def rx_pool_frame_def rx_is_control_def Let_def)
qed

text \<open>Returning the first posted slot and filling the ring keeps the device ready.\<close>

lemma rx_refill_ready:
  assumes "rx_dev_wf refs d" "0 < dev_rx_target d" "\<And>n. rx_ok n" "dev_rx_pending d = map PoolSlot rest"
    "distinct (i # rest)" "set (i # rest) \<subseteq> frame_pool_used (dev_pool d)" "dev_rx_posted d = int (length rest)"
  shows "\<exists>d'. (do { d \<leftarrow> pool_put i d; rx_repost rx_ok d }) = Some d' \<and> rx_ready refs d' \<and>
    dev_heap d' = dev_heap d \<and> dev_streams d' = dev_streams d"
proof -
  obtain p where p: "pool_put i d = Some (d\<lparr>dev_pool := p\<rparr>)" "rx_dev_wf refs (d\<lparr>dev_pool := p\<rparr>)"
    "frame_pool_used p = frame_pool_used (dev_pool d) - {i}"
    using pool_put_ok [OF assms(1), of i] assms(6) by auto
  obtain new q st where r: "rx_repost rx_ok (d\<lparr>dev_pool := p\<rparr>) = Some (reposted (d\<lparr>dev_pool := p\<rparr>) new q st)"
    "rx_dev_wf refs (reposted (d\<lparr>dev_pool := p\<rparr>) new q st)" "distinct new" "set new \<inter> frame_pool_used p = {}"
    "frame_pool_used q = set new \<union> frame_pool_used p"
    "length new = min (nat (dev_rx_target d - dev_rx_posted d)) (FRAME_POOL_SIZE - card (frame_pool_used p))"
    using rx_repost_ok [OF p(2), of rx_ok] assms(3) by (auto simp: repost_ok_def)
  have "card (frame_pool_used p) < card {..<FRAME_POOL_SIZE}"
    using p(3) assms(6) frame_pool_used_bounded [of "dev_pool d"] by (intro psubset_card_mono) auto
  then have "rest @ new \<noteq> []" using r(6) assms(2,7) by (cases rest) auto
  moreover have "distinct (rest @ new)" "set (rest @ new) \<subseteq> frame_pool_used q"
    using assms(5,6) r(3,4,5) p(3) by auto
  ultimately have "rx_ready refs (reposted (d\<lparr>dev_pool := p\<rparr>) new q st)"
    using r(2) assms(2,4,7) unfolding rx_ready_def
    by (intro conjI exI [of _ "rest @ new"]) (simp_all add: reposted_def)
  with p(1) r(1) show ?thesis by (simp add: reposted_def)
qed

text \<open>The device at the moment of the callback: the first posted slot holds the frame.\<close>

lemma rx_arrive_slot:
  assumes "rx_ready refs d" "length bs \<le> FRAME_SIZE"
  obtains i rest p slot r where "dev_rx_pending d = map PoolSlot (i # rest)" "distinct (i # rest)"
    "dev_rx_posted d = int (length (i # rest))" "set (i # rest) \<subseteq> frame_pool_used p" "frame_pool_wf p"
    "upd_slot i (nhi_receive bs 0) (d\<lparr>dev_rx_pending := map PoolSlot rest\<rparr>)
      = Some (d\<lparr>dev_rx_pending := map PoolSlot rest, dev_pool := p\<rparr>)"
    "rx_dev_wf refs (d\<lparr>dev_rx_pending := map PoolSlot rest, dev_pool := p\<rparr>)"
    "get_slot i (d\<lparr>dev_rx_pending := map PoolSlot rest, dev_pool := p\<rparr>) = Some slot"
    "fs_virt slot = Some (bs @ r)" "rf_size (fs_frame slot) = length bs" "rf_flags (fs_frame slot) = 0"
proof -
  obtain i rest where po: "dev_rx_pending d = map PoolSlot (i # rest)" "distinct (i # rest)"
    "set (i # rest) \<subseteq> frame_pool_used (dev_pool d)" "dev_rx_posted d = int (length (i # rest))"
    using assms(1) unfolding rx_ready_def by (metis neq_Nil_conv)
  have wf: "rx_dev_wf refs d" "frame_pool_wf (dev_pool d)"
    using assms(1) by (auto simp: rx_ready_def rx_dev_wf_def)
  have i: "i < FRAME_POOL_SIZE" using po(3) frame_pool_used_bounded by fastforce
  let ?d0 = "d\<lparr>dev_rx_pending := map PoolSlot rest\<rparr>"
  obtain p where p: "upd_slot i (nhi_receive bs 0) ?d0 = Some (?d0\<lparr>dev_pool := p\<rparr>)" "frame_pool_wf p"
    "frame_pool_used p = frame_pool_used (dev_pool d)"
    using upd_slot_wf [of ?d0 i "nhi_receive bs 0"] wf(2) i by auto
  obtain slot r where "get_slot i (?d0\<lparr>dev_pool := p\<rparr>) = Some slot" "fs_virt slot = Some (bs @ r)"
    "rf_size (fs_frame slot) = length bs" "rf_flags (fs_frame slot) = 0"
    using slot_after_upd [of ?d0 i bs 0 "?d0\<lparr>dev_pool := p\<rparr>"] wf(2) i p(1) assms(2) by auto
  moreover have "rx_dev_wf refs (?d0\<lparr>dev_pool := p\<rparr>)" using p(2) by (intro rx_dev_wf_cong [OF wf(1)]) simp_all
  ultimately show thesis using po p by (intro that [of i rest p slot r]) auto
qed

text \<open>One data frame: the assembly of the stream takes one step, the slot goes back, and the ring is filled again.\<close>

lemma rx_arrive_data:
  assumes "rx_ready refs d" "\<And>n. rx_ok n" "kmalloc_sized kmalloc" "sh_reserved h = 0" "sh_dst_id h \<noteq> 0"
    "unat (sh_payload_len h) = length payload" "payload \<noteq> []" "length payload \<le> 4088"
    "stream_pub d (sh_dst_id h) = Some a" "dev_heap d a = Some s"
  shows "\<exists>d' s'. rx_arrive kmalloc rx_ok (hdr_bytes h @ payload) d = Some d' \<and> rx_ready refs d' \<and>
    dev_streams d' = dev_streams d \<and>
    rx_assemble kmalloc True h payload (s\<lparr>st_refcount := Suc (st_refcount s)\<rparr>) = Some s' \<and>
    dev_heap d' = (dev_heap d)(a \<mapsto> s'\<lparr>st_refcount := st_refcount s\<rparr>)"
proof -
  let ?bs = "hdr_bytes h @ payload"
  have len: "length ?bs \<le> FRAME_SIZE" using assms(8) by (simp add: driver_consts)
  obtain i rest p slot r where po: "dev_rx_pending d = map PoolSlot (i # rest)" "distinct (i # rest)"
    "dev_rx_posted d = int (length (i # rest))" "set (i # rest) \<subseteq> frame_pool_used p" "frame_pool_wf p"
    and up: "upd_slot i (nhi_receive ?bs 0) (d\<lparr>dev_rx_pending := map PoolSlot rest\<rparr>)
      = Some (d\<lparr>dev_rx_pending := map PoolSlot rest, dev_pool := p\<rparr>)"
    and wf1: "rx_dev_wf refs (d\<lparr>dev_rx_pending := map PoolSlot rest, dev_pool := p\<rparr>)"
    and slot: "get_slot i (d\<lparr>dev_rx_pending := map PoolSlot rest, dev_pool := p\<rparr>) = Some slot"
      "fs_virt slot = Some (?bs @ r)" "rf_size (fs_frame slot) = length ?bs" "rf_flags (fs_frame slot) = 0"
    using assms(1) len by (rule rx_arrive_slot)
  let ?d1 = "d\<lparr>dev_rx_pending := map PoolSlot rest, dev_pool := p\<rparr>"
  define d2 where "d2 = ?d1\<lparr>dev_rx_posted := dev_rx_posted ?d1 - 1,
    dev_stats := (dev_stats ?d1)\<lparr>rx_frames_ok := rx_frames_ok (dev_stats ?d1) + 1\<rparr>\<rparr>"
  have wf2: "rx_dev_wf refs d2" unfolding d2_def using po(5) by (intro rx_dev_wf_cong [OF wf1]) simp_all
  have mem: "mem_read STREAM_HDR_SIZE (unat (sh_payload_len h)) (?bs @ r) = Some payload"
    using assms(6) by (simp add: mem_read_def)
  have pub2: "stream_pub d2 (sh_dst_id h) = Some a" using assms(9) by (simp add: stream_pub_def d2_def)
  have pl: "sh_payload_len h \<noteq> 0" using assms(6,7) by auto
  have hd: "hdr_of_bytes (?bs @ r) = Some h" by simp
  obtain s' where s': "rx_assemble kmalloc True h payload (s\<lparr>st_refcount := Suc (st_refcount s)\<rparr>) = Some s'"
    "rx_stream_frame kmalloc True (?bs @ r) d2 = Some (d2\<lparr>dev_heap := (dev_heap d2)(a \<mapsto> s'\<lparr>st_refcount := st_refcount s\<rparr>)\<rparr>)"
    "rx_dev_wf refs (d2\<lparr>dev_heap := (dev_heap d2)(a \<mapsto> s'\<lparr>st_refcount := st_refcount s\<rparr>)\<rparr>)"
    using rx_stream_frame_payload [OF wf2 hd assms(5) pub2 pl assms(3), of True] assms(10)
    unfolding mem by (auto simp: d2_def)
  let ?d3 = "d2\<lparr>dev_heap := (dev_heap d2)(a \<mapsto> s'\<lparr>st_refcount := st_refcount s\<rparr>)\<rparr>"
  obtain d' where d': "(do { d \<leftarrow> pool_put i ?d3; rx_repost rx_ok d }) = Some d'" "rx_ready refs d'"
    "dev_heap d' = dev_heap ?d3" "dev_streams d' = dev_streams ?d3"
    using rx_refill_ready [OF s'(3), of rx_ok rest i] assms(1,2) po by (auto simp: d2_def rx_ready_def)
  have "\<not> rx_is_control slot (?bs @ r)"
    using frag_not_control [OF assms(4), of "payload @ r"] by (simp add: rx_is_control_def)
  then have "rx_callback kmalloc True rx_ok True (PoolSlot i) False ?d1 = do {
      d \<leftarrow> rx_stream_frame kmalloc True (?bs @ r) d2; d \<leftarrow> pool_put i d; rx_repost rx_ok d }"
    unfolding d2_def using po(4) slot hd by (intro rx_callback_data [OF wf1]) auto
  then have "rx_arrive kmalloc rx_ok ?bs d = Some d'"
    using d'(1) s'(2) po(1) up by (simp add: rx_arrive_def)
  with d' s'(1) show ?thesis by (auto simp: d2_def)
qed

definition data_frag :: "u8 \<Rightarrow> stream_hdr \<Rightarrow> byte list \<Rightarrow> bool" where
  "data_frag dst h payload \<longleftrightarrow> sh_reserved h = 0 \<and> sh_dst_id h = dst \<and> unat (sh_payload_len h) = length payload \<and>
     payload \<noteq> [] \<and> length payload \<le> 4088"

lemma rx_arrive_all_data:
  assumes "rx_ready refs d" "\<And>n. rx_ok n" "kmalloc_sized kmalloc" "\<And>n. kmalloc n \<noteq> None" "dst \<noteq> 0"
    "\<And>h p. (h, p) \<in> set fs \<Longrightarrow> data_frag dst h p" "stream_pub d dst = Some a" "dev_heap d a = Some s"
    "int (length (queue_abs s) + length (fst (asm_run fs (asm_abs s)))) \<le> st_rx_queue_max s"
  shows "\<exists>d' s'. rx_arrive_all kmalloc rx_ok (map (\<lambda>(h, p). hdr_bytes h @ p) fs) d = Some d' \<and> rx_ready refs d' \<and>
    stream_pub d' dst = Some a \<and> dev_heap d' a = Some s' \<and>
    queue_abs s' = queue_abs s @ fst (asm_run fs (asm_abs s))"
  using assms
proof (induction fs arbitrary: d s)
  case (Cons f fs)
  obtain h p where f: "f = (h, p)" by (cases f)
  have fr: "sh_reserved h = 0" "sh_dst_id h \<noteq> 0" "unat (sh_payload_len h) = length p" "p \<noteq> []" "length p \<le> 4088"
    "sh_dst_id h = dst" using Cons.prems(5) Cons.prems(6) [of h p] f by (auto simp: data_frag_def)
  let ?s = "s\<lparr>st_refcount := Suc (st_refcount s)\<rparr>"
  obtain d1 t where d1: "rx_arrive kmalloc rx_ok (hdr_bytes h @ p) d = Some d1" "rx_ready refs d1"
    "dev_streams d1 = dev_streams d" "rx_assemble kmalloc True h p ?s = Some t"
    "dev_heap d1 = (dev_heap d)(a \<mapsto> t\<lparr>st_refcount := st_refcount s\<rparr>)"
    using rx_arrive_data [where rx_ok = rx_ok and kmalloc = kmalloc, OF Cons.prems(1-3) fr(1-5), of a s] Cons.prems(7,8) fr(6) by auto
  have wfs: "streams_wf refs d" "streams_wf refs d1" "rx_wf s"
    using Cons.prems(1,8) d1(2) by (auto simp: rx_ready_def rx_dev_wf_def ran_def)
  obtain out b where st: "asm_step h p (asm_abs s) = (out, b)" by fastforce
  obtain outs b' where run: "asm_run fs b = (outs, b')" by fastforce
  have t: "asm_abs t = b" "st_rx_queue_max t = st_rx_queue_max s"
    "queue_abs t = queue_abs s @ (case out of None \<Rightarrow> []
      | Some m \<Rightarrow> if st_rx_queue_len s < st_rx_queue_max s then [m] else [])" "st_id t = st_id s"
    using rx_assemble_refines [of ?s kmalloc p h] rx_assemble_wf [of ?s kmalloc True h p]
      Cons.prems(3,4) fr(4) wfs(3) d1(4) st by (auto split: option.splits)
  have "case out of None \<Rightarrow> True | Some m \<Rightarrow> st_rx_queue_len s < st_rx_queue_max s"
    using Cons.prems(9) st run f queue_len_abs [OF wfs(3)] by (auto split: option.splits)
  then have q: "queue_abs t = queue_abs s @ (case out of None \<Rightarrow> [] | Some m \<Rightarrow> [m])"
    using t(3) by (auto split: option.splits)
  let ?t = "t\<lparr>st_refcount := st_refcount s\<rparr>"
  have pub: "stream_pub d1 dst = Some a"
    using Cons.prems(7,8) d1(3,5) t(4) stream_pub_iff [OF wfs(1), of dst a] stream_pub_iff [OF wfs(2), of dst a] by simp
  have "\<exists>d' s'. rx_arrive_all kmalloc rx_ok (map (\<lambda>(h, p). hdr_bytes h @ p) fs) d1 = Some d' \<and> rx_ready refs d' \<and>
    stream_pub d' dst = Some a \<and> dev_heap d' a = Some s' \<and> queue_abs s' = queue_abs ?t @ fst (asm_run fs (asm_abs ?t))"
    using Cons.prems(2-6,9) d1(2,5) pub q t st run f
    by (intro Cons.IH) (auto split: option.splits)
  then show ?case using d1(1) q t(1) st run f by (auto split: option.splits)
qed simp

lemma msg_frags_data:
  assumes "(h, p) \<in> set (msg_frags src dst data)"
  shows "data_frag dst h p"
proof -
  have fr: "\<exists>i is_first is_last. h = frag_hdr src dst is_first is_last (length p) i \<and> p \<in> set cs"
    if "(h, p) \<in> set (frags_from src dst k cs)" for k cs
    using that by (induction cs arbitrary: k) auto
  then obtain i is_first is_last where h: "h = frag_hdr src dst is_first is_last (length p) i"
    and p: "p \<in> set (chunks STREAM_PAYLOAD_MAX data)" using assms unfolding msg_frags_def by metis
  have "p \<noteq> [] \<and> length p \<le> 4024"
    using chunks_bounded [OF p STREAM_PAYLOAD_MAX_pos(1)] by (simp add: STREAM_PAYLOAD_MAX_eq)
  then show ?thesis by (simp add: h data_frag_def frag_hdr_def unsigned_of_nat take_bit_nat_eq_self)
qed

lemma rx_message_delivered:
  assumes "rx_ready refs d" "\<And>n. rx_ok n" "kmalloc_sized kmalloc" "\<And>n. kmalloc n \<noteq> None" "dst \<noteq> 0"
    "data \<noteq> []" "length data \<le> STREAM_PAYLOAD_MAX * 4096" "stream_pub d dst = Some a" "dev_heap d a = Some s"
    "st_rx_queue_len s < st_rx_queue_max s"
  shows "\<exists>d' s'. rx_arrive_all kmalloc rx_ok (msg_frames src dst data) d = Some d' \<and> rx_ready refs d' \<and>
    stream_pub d' dst = Some a \<and> dev_heap d' a = Some s' \<and> queue_abs s' = queue_abs s @ [(src, data)]"
proof -
  have n: "length (chunks STREAM_PAYLOAD_MAX data) \<le> 65536"
    using assms(7) DIV_ROUND_UP_le_iff [OF STREAM_PAYLOAD_MAX_pos(1), of "length data" 65536]
    by (simp add: length_chunks mult.commute)
  have run: "fst (asm_run (msg_frags src dst data) (asm_abs s)) = [(src, data)]"
    using asm_run_message [of UNIV data src dst "asm_abs s"] assms(6) n by (simp add: nths_all)
  have "rx_wf s" using assms(1,9) by (auto simp: rx_ready_def rx_dev_wf_def ran_def)
  then have "int (length (queue_abs s) + length (fst (asm_run (msg_frags src dst data) (asm_abs s)))) \<le> st_rx_queue_max s"
    using run assms(10) queue_len_abs by simp
  from rx_arrive_all_data [where rx_ok = rx_ok and kmalloc = kmalloc, OF assms(1-5) msg_frags_data assms(8,9) this] show ?thesis
    unfolding msg_frames_frags run by simp
qed

section \<open>A device ready to receive\<close>

lemma sample_ready:
  obtains d where "rx_ready (\<lambda>_. 0) d" "stream_pub d 21 = Some 7" "dev_heap d 7 = Some (new_stream 21 None)"
    "dev_state d = READY"
proof -
  let ?d = "with_stream 21 None 7 sample_device"
  have "streams_wf (\<lambda>_. 0) ?d"
    using stream_created_law [OF empty_device_wf [OF sample_device_empty] sample_created] by blast
  moreover have heap: "dev_heap ?d = [7 \<mapsto> new_stream 21 None]" "dev_pool ?d = sample_pool" "dev_streams ?d = [7]"
    "dev_rx_pending ?d = []" "dev_rx_posted ?d = 0" "dev_rx_target ?d = 1" "dev_state ?d = READY"
    by (simp_all add: with_stream_def add_owned_def sample_device_def)
  ultimately have wf: "rx_dev_wf (\<lambda>_. 0) ?d"
    using sample_pool_ok(1) new_stream_rx_wf by (simp add: rx_dev_wf_def)
  obtain new p st where r: "rx_dev_wf (\<lambda>_. 0) (reposted ?d new p st)" "repost_ok ?d 1 new p" "length new = 1"
    using rx_repost_ok [OF wf, of "\<lambda>_. True"] heap sample_pool_ok(2) by (auto simp: driver_consts)
  then have "rx_ready (\<lambda>_. 0) (reposted ?d new p st)"
    using heap unfolding rx_ready_def by (auto simp: reposted_def repost_ok_def intro!: exI [of _ new])
  moreover have "stream_pub (reposted ?d new p st) 21 = Some 7"
    using heap by (simp add: stream_pub_def reposted_def new_stream_def)
  ultimately show thesis using heap by (intro that [of "reposted ?d new p st"]) (simp_all add: reposted_def)
qed


end
