(* ===== verification/Tx_Path.thy ===== *)
theory Tx_Path
  imports Streams
begin

text \<open>
  The transmit path of \<^verbatim>\<open>driver/odl_tb5_ring_dma.c\<close>: the life of a transmit message (lines 104 to 128), the completion
  callbacks of the transmit ring (lines 130 to 216), the choice between the two send modes (lines 1660 to 1705), the
  two send loops (lines 1715 to 1994) and the calls around them.

  A send runs concurrently with the completions of frames sent before. The environment of a send is a list with one entry for
  each round of its loop: the completions that run before the round, how the wait of the round ends when there is
  nothing to be had, whether the copy from user memory succeeds and whether the ring accepts a descriptor. A send whose
  environment is used up before it is done is still waiting.
\<close>

section \<open>Environments\<close>

datatype wait_outcome = WSleep | WTimeout | WSignal

record tx_env =
  te_done :: "(frame_ref \<times> bool) list"
  te_wait :: wait_outcome
  te_copy_ok :: "nat \<Rightarrow> bool"
  te_mid :: "nat \<Rightarrow> (frame_ref \<times> bool) list"
  te_tx_ok :: "nat \<Rightarrow> bool"

section \<open>The life of a message\<close>

definition tx_msg_put :: "nat \<Rightarrow> odl_device \<Rightarrow> odl_device option" where
  "tx_msg_put m d =
     do {
       msg \<leftarrow> dev_msgs d m;
       case tm_refs msg of
         0 \<Rightarrow> None
       | Suc n \<Rightarrow>
           if n = 0 then do {
             d \<leftarrow> upd_stream (tm_stream msg)
                   (\<lambda>s. s\<lparr>st_tx_completed := st_tx_completed s + (if tm_failed msg then 0 else 1),
                          st_tx_in_flight := st_tx_in_flight s - 1\<rparr>) d;
             d \<leftarrow> stream_put (tm_stream msg) d;
             Some (d\<lparr>dev_msgs := (dev_msgs d)(m := None)\<rparr>)
           }
           else upd_msg m (\<lambda>msg. msg\<lparr>tm_refs := n\<rparr>) d
     }"

definition tx_msg_maybe_complete :: "nat \<Rightarrow> odl_device \<Rightarrow> odl_device option" where
  "tx_msg_maybe_complete m d =
     do {
       msg \<leftarrow> dev_msgs d m;
       if tm_done msg \<and> tm_frames_pending msg = 0
       then do {
         d \<leftarrow> upd_msg m (\<lambda>msg. msg\<lparr>tm_completion_ref := 0\<rparr>) d;
         if tm_completion_ref msg = 1 then tx_msg_put m d else Some d
       }
       else Some d
     }"

text \<open>One frame of a message has completed.\<close>

definition tx_msg_frame_done :: "nat \<Rightarrow> bool \<Rightarrow> odl_device \<Rightarrow> odl_device option" where
  "tx_msg_frame_done m canceled d =
     do {
       d \<leftarrow> upd_msg m (\<lambda>msg. msg\<lparr>tm_failed := (tm_failed msg \<or> canceled),
                              tm_frames_pending := tm_frames_pending msg - 1\<rparr>) d;
       msg \<leftarrow> dev_msgs d m;
       if tm_frames_pending msg = 0 then tx_msg_maybe_complete m d else Some d
     }"

section \<open>Completion callbacks\<close>

definition tx_callback :: "bool \<Rightarrow> frame_ref \<Rightarrow> bool \<Rightarrow> odl_device \<Rightarrow> odl_device option" where
  "tx_callback known r canceled d =
     (if \<not> known then Some d
      else case r of
             PoolSlot i \<Rightarrow> do {
               slot \<leftarrow> get_slot i d;
               p \<leftarrow> frame_pool_put (dev_pool d) i;
               case fs_tx_msg slot of
                 None \<Rightarrow> Some (d\<lparr>dev_pool := p\<rparr>)
               | Some m \<Rightarrow> tx_msg_frame_done m canceled (d\<lparr>dev_pool := p\<rparr>)
             }
           | _ \<Rightarrow>
               if canceled then Some d
               else Some (d\<lparr>dev_tx := (dev_tx d)\<lparr>rc_completed := rc_completed (dev_tx d) + 1\<rparr>\<rparr>))"

definition upd_batch :: "nat \<Rightarrow> (batch_buf \<Rightarrow> batch_buf) \<Rightarrow> odl_device \<Rightarrow> odl_device option" where
  "upd_batch b f d =
     (let bs = bp_bufs (dev_bpool d)
      in if b < length bs then Some (d\<lparr>dev_bpool := (dev_bpool d)\<lparr>bp_bufs := bs[b := f (bs ! b)]\<rparr>\<rparr>) else None)"

definition get_batch :: "nat \<Rightarrow> odl_device \<Rightarrow> batch_buf option" where
  "get_batch b d = (let bs = bp_bufs (dev_bpool d) in if b < length bs then Some (bs ! b) else None)"

text \<open>The message's \<open>failed\<close> mark is set before the buffer is returned, its frame count taken after.\<close>

definition tx_batch_callback :: "bool \<Rightarrow> frame_ref \<Rightarrow> bool \<Rightarrow> odl_device \<Rightarrow> odl_device option" where
  "tx_batch_callback known r canceled d =
     (if \<not> known then Some d
      else case r of
             BatchFrame b i \<Rightarrow> do {
               batch \<leftarrow> get_batch b d;
               d \<leftarrow> (case bb_tx_msg batch of
                      Some m \<Rightarrow> if canceled then upd_msg m (\<lambda>msg. msg\<lparr>tm_failed := True\<rparr>) d else Some d
                    | None \<Rightarrow> Some d);
               d \<leftarrow> upd_batch b (\<lambda>x. x\<lparr>bb_frames_pending := bb_frames_pending x - 1\<rparr>) d;
               d \<leftarrow> (if bb_frames_pending batch - 1 = 0
                     then do { p \<leftarrow> batch_pool_put (dev_bpool d) b; Some (d\<lparr>dev_bpool := p\<rparr>) }
                     else Some d);
               case bb_tx_msg batch of
                 Some m \<Rightarrow> tx_msg_frame_done m False d
               | None \<Rightarrow> Some d
             }
           | _ \<Rightarrow> Some d)"

text \<open>The NHI completes a descriptor that is pending on the ring.\<close>

definition tx_complete :: "frame_ref \<times> bool \<Rightarrow> odl_device \<Rightarrow> odl_device option" where
  "tx_complete rc d =
     (case rc of (r, canceled) \<Rightarrow>
        if r \<notin> set (dev_tx_pending d) then Some d
        else let d = d\<lparr>dev_tx_pending := remove1 r (dev_tx_pending d)\<rparr>
             in case r of
                  BatchFrame b i \<Rightarrow> tx_batch_callback True r canceled d
                | _ \<Rightarrow> tx_callback True r canceled d)"

fun tx_complete_all :: "(frame_ref \<times> bool) list \<Rightarrow> odl_device \<Rightarrow> odl_device option" where
  "tx_complete_all [] d = Some d"
| "tx_complete_all (rc # rcs) d = do { d \<leftarrow> tx_complete rc d; tx_complete_all rcs d }"

section \<open>Choice of the mode\<close>

definition evaluate_tx_mode :: "nat \<Rightarrow> odl_device \<Rightarrow> tx_mode \<times> odl_device" where
  "evaluate_tx_mode msg_len d =
     (let ta = dev_adapt d;
          pool_used = (of_int (int (fp_size (dev_pool d)) - fp_free_count (dev_pool d)) :: u32);
          nframes = (of_nat (DIV_ROUND_UP msg_len STREAM_PAYLOAD_MAX) :: u32)
      in if bb_virt (bp_bufs (dev_bpool d) ! 0) = None then (TX_LATENCY, d)
         else if THROUGHPUT_THRESH < msg_len
         then (TX_THROUGHPUT, d\<lparr>dev_adapt := ta\<lparr>ta_consecutive_low := 0, ta_mode := TX_THROUGHPUT\<rparr>\<rparr>)
         else
           let ta = (case ta_mode ta of
                       TX_LATENCY \<Rightarrow>
                         if ta_high_watermark ta < unat (pool_used + nframes)
                         then ta\<lparr>ta_consecutive_low := 0, ta_mode := TX_THROUGHPUT\<rparr> else ta
                     | TX_THROUGHPUT \<Rightarrow>
                         if unat pool_used < ta_low_watermark ta
                         then (let ta = ta\<lparr>ta_consecutive_low := Suc (ta_consecutive_low ta)\<rparr>
                               in if MODE_HYSTERESIS \<le> ta_consecutive_low ta
                                  then ta\<lparr>ta_mode := TX_LATENCY, ta_consecutive_low := 0\<rparr> else ta)
                         else ta\<lparr>ta_consecutive_low := 0\<rparr>)
           in (ta_mode ta, d\<lparr>dev_adapt := ta\<rparr>))"

section \<open>Sending in latency mode\<close>

datatype 'a tx_result = TxWaiting | TxReturned 'a

definition new_tx_msg :: "u8 \<Rightarrow> nat \<Rightarrow> nat \<Rightarrow> tx_msg" where
  "new_tx_msg dst len stream = \<lparr>tm_dst_id = dst, tm_len = len, tm_sent = 0, tm_frames_pending = 0, tm_refs = 2,
     tm_completion_ref = 1, tm_done = False, tm_failed = False, tm_stream = stream\<rparr>"

text \<open>A send begins by taking a reference to its stream for the message.\<close>

definition tx_begin :: "nat \<Rightarrow> nat \<Rightarrow> u8 \<Rightarrow> nat \<Rightarrow> odl_device \<Rightarrow> odl_device option" where
  "tx_begin m a dst len d =
     upd_stream a (\<lambda>s. s\<lparr>st_refcount := Suc (st_refcount s), st_tx_in_flight := st_tx_in_flight s + 1\<rparr>)
       (d\<lparr>dev_msgs := (dev_msgs d)(m \<mapsto> new_tx_msg dst len a)\<rparr>)"

text \<open>It ends by publishing \<open>done\<close> and dropping the shared and its own reference; after an error it marks the
  message first and waits up to a second, in which the completions \<open>last\<close> run.\<close>

definition tx_finish :: "nat \<Rightarrow> odl_device \<Rightarrow> odl_device option" where
  "tx_finish m d =
     do {
       d \<leftarrow> upd_msg m (\<lambda>msg. msg\<lparr>tm_done := True\<rparr>) d;
       d \<leftarrow> tx_msg_maybe_complete m d;
       tx_msg_put m d
     }"

definition tx_abort :: "(frame_ref \<times> bool) list \<Rightarrow> nat \<Rightarrow> odl_device \<Rightarrow> odl_device option" where
  "tx_abort last_done m d =
     do {
       d \<leftarrow> upd_msg m (\<lambda>msg. msg\<lparr>tm_failed := True\<rparr>) d;
       msg \<leftarrow> dev_msgs d m;
       d \<leftarrow> (if 0 < tm_frames_pending msg then tx_complete_all last_done d else Some d);
       tx_finish m d
     }"

text \<open>Filling a slot: the header, then the payload from user memory.\<close>

definition fill_slot :: "stream_hdr \<Rightarrow> byte list \<Rightarrow> bool \<Rightarrow> frame_slot \<Rightarrow> frame_slot option" where
  "fill_slot h payload copy_ok slot =
     do {
       mem \<leftarrow> fs_virt slot;
       mem \<leftarrow> mem_write 0 (hdr_bytes h) mem;
       mem \<leftarrow> (if copy_ok then mem_write STREAM_HDR_SIZE payload mem else Some mem);
       Some (slot\<lparr>fs_virt := Some mem\<rparr>)
     }"

definition tx_desc :: "nat \<Rightarrow> nat \<Rightarrow> frame_slot \<Rightarrow> frame_slot" where
  "tx_desc m payload slot = slot\<lparr>fs_frame := (fs_frame slot)\<lparr>rf_size := STREAM_HDR_SIZE + payload,
     rf_sof := PDF_SOF_DATA, rf_eof := PDF_EOF_DATA, rf_callback := TxCallback\<rparr>, fs_tx_msg := Some m\<rparr>"

text \<open>The bytes that the NHI takes from a slot.\<close>

definition slot_bytes :: "frame_slot \<Rightarrow> byte list" where
  "slot_bytes slot = take (rf_size (fs_frame slot)) (the (fs_virt slot))"

definition pool_return :: "nat \<Rightarrow> odl_device \<Rightarrow> odl_device option" where
  "pool_return i d = do { p \<leftarrow> frame_pool_put (dev_pool d) i; Some (d\<lparr>dev_pool := p\<rparr>) }"

text \<open>One frame in slot \<open>i\<close>: \<open>Inr\<close> when the ring has it, \<open>Inl\<close> the error after which the send gives up.\<close>

definition send_slot ::
  "tx_env \<Rightarrow> nat \<Rightarrow> stream_hdr \<Rightarrow> byte list \<Rightarrow> nat \<Rightarrow> odl_device \<Rightarrow> ((errno + unit) \<times> odl_device) option" where
  "send_slot e m h payload i d =
     do {
       slot \<leftarrow> get_slot i d;
       slot \<leftarrow> fill_slot h payload (te_copy_ok e 0) slot;
       if \<not> te_copy_ok e 0
       then do { d \<leftarrow> upd_slot i (\<lambda>_. slot) d; d \<leftarrow> pool_return i d; Some (Inl EFAULT, d) }
       else do {
         let slot = tx_desc m (length payload) slot;
         d \<leftarrow> upd_slot i (\<lambda>_. slot) d;
         d \<leftarrow> upd_msg m (\<lambda>msg. msg\<lparr>tm_frames_pending := tm_frames_pending msg + 1,
                                tm_sent := tm_sent msg + length payload\<rparr>) d;
         d \<leftarrow> tb_ring_tx (te_tx_ok e 0) (PoolSlot i) (slot_bytes slot) d;
         if te_tx_ok e 0 then Some (Inr (), d)
         else do {
           d \<leftarrow> upd_msg m (\<lambda>msg. msg\<lparr>tm_frames_pending := tm_frames_pending msg - 1,
                                  tm_sent := tm_sent msg - length payload\<rparr>) d;
           d \<leftarrow> pool_return i d;
           Some (Inl EIO, d)
         }
       }
     }"

fun latency_loop ::
  "tx_env list \<Rightarrow> nat \<Rightarrow> u8 \<Rightarrow> u8 \<Rightarrow> byte list \<Rightarrow> u16 \<Rightarrow> odl_device
    \<Rightarrow> ((errno + unit) tx_result \<times> odl_device) option" where
  "latency_loop envs m sid dst data frag d =
     (case dev_msgs d m of
        None \<Rightarrow> None
      | Some msg \<Rightarrow>
          if length data \<le> tm_sent msg then Some (TxReturned (Inr ()), d)
          else case envs of
                 [] \<Rightarrow> Some (TxWaiting, d)
               | e # es \<Rightarrow>
                   let sent = tm_sent msg;
                       payload = take STREAM_PAYLOAD_MAX (drop sent data);
                       h = frag_hdr sid dst (sent = 0) (sent + length payload = length data) (length payload) frag
                   in do {
                     d \<leftarrow> tx_complete_all (te_done e) d;
                     if fp_free_count (dev_pool d) \<le> int TX_POOL_RESERVE
                     then (case te_wait e of
                             WSleep \<Rightarrow> latency_loop es m sid dst data frag d
                           | WTimeout \<Rightarrow> Some (TxReturned (Inl ETIMEDOUT), d)
                           | WSignal \<Rightarrow> Some (TxReturned (Inl ERESTARTSYS), d))
                     else do {
                       (r, p) \<leftarrow> frame_pool_get (dev_pool d);
                       case r of
                         None \<Rightarrow> latency_loop es m sid dst data frag (d\<lparr>dev_pool := p\<rparr>)
                       | Some i \<Rightarrow> do {
                           (r, d) \<leftarrow> send_slot e m h payload i (d\<lparr>dev_pool := p\<rparr>);
                           case r of
                             Inl err \<Rightarrow> Some (TxReturned (Inl err), d)
                           | Inr _ \<Rightarrow> latency_loop es m sid dst data (frag + 1) d
                         }
                     }
                   })"

declare latency_loop.simps [simp del]

text \<open>\<open>alloc\<close> is the address of the message, or \<open>None\<close> when its allocation fails. A send that returns finishes its
  message, after an error with the completions \<open>last_done\<close>.\<close>

definition tx_conclude ::
  "(frame_ref \<times> bool) list \<Rightarrow> nat \<Rightarrow> ((errno + unit) tx_result \<times> odl_device) option
    \<Rightarrow> ((errno + unit) tx_result \<times> odl_device) option" where
  "tx_conclude last_done m res =
     do {
       (r, d) \<leftarrow> res;
       case r of
         TxWaiting \<Rightarrow> Some (r, d)
       | TxReturned (Inr _) \<Rightarrow> do { d \<leftarrow> tx_finish m d; Some (r, d) }
       | TxReturned (Inl _) \<Rightarrow> do { d \<leftarrow> tx_abort last_done m d; Some (r, d) }
     }"

definition stream_send_latency ::
  "tx_env list \<Rightarrow> (frame_ref \<times> bool) list \<Rightarrow> nat option \<Rightarrow> nat \<Rightarrow> u8 \<Rightarrow> byte list \<Rightarrow> odl_device
    \<Rightarrow> ((errno + unit) tx_result \<times> odl_device) option" where
  "stream_send_latency envs last_done alloc a dst data d =
     (case alloc of
        None \<Rightarrow> Some (TxReturned (Inl ENOMEM), d)
      | Some m \<Rightarrow> do {
          d \<leftarrow> tx_begin m a dst (length data) d;
          s \<leftarrow> dev_heap d a;
          tx_conclude last_done m (latency_loop envs m (st_id s) dst data 0 d)
        })"

section \<open>Sending in throughput mode\<close>

text \<open>Filling the frames of a batch buffer; \<open>None\<close> inside the sum is the failed copy. The loop counts up to
  \<open>nframes\<close>; \<open>total_sent\<close> is what was sent before this batch.\<close>

definition frame_payload :: "byte list \<Rightarrow> nat \<Rightarrow> nat \<Rightarrow> nat \<Rightarrow> byte list" where
  "frame_payload data total_sent batch_payload i =
     (let offset = i * STREAM_PAYLOAD_MAX;
          payload = min (batch_payload - offset) STREAM_PAYLOAD_MAX
      in take payload (drop (total_sent + offset) data))"

definition batch_hdr :: "u8 \<Rightarrow> u8 \<Rightarrow> byte list \<Rightarrow> nat \<Rightarrow> nat \<Rightarrow> u16 \<Rightarrow> nat \<Rightarrow> stream_hdr" where
  "batch_hdr sid dst data total_sent batch_payload frag i =
     (let payload = length (frame_payload data total_sent batch_payload i)
      in frag_hdr sid dst (total_sent = 0 \<and> i = 0) (total_sent + i * STREAM_PAYLOAD_MAX + payload = length data) payload
           (frag + of_nat i))"

definition batch_desc :: "nat \<Rightarrow> ring_frame \<Rightarrow> ring_frame" where
  "batch_desc payload f = f\<lparr>rf_size := STREAM_HDR_SIZE + payload, rf_sof := PDF_SOF_DATA, rf_eof := PDF_EOF_DATA,
     rf_callback := TxBatchCallback\<rparr>"

definition fill_frame ::
  "(nat \<Rightarrow> bool) \<Rightarrow> stream_hdr \<Rightarrow> byte list \<Rightarrow> nat \<Rightarrow> batch_buf \<Rightarrow> (bool \<times> batch_buf) option" where
  "fill_frame copy_ok h payload i buf =
     do {
       mem \<leftarrow> bb_virt buf;
       mem \<leftarrow> mem_write (i * FRAME_SIZE) (hdr_bytes h) mem;
       if \<not> copy_ok i then Some (False, buf\<lparr>bb_virt := Some mem\<rparr>)
       else do {
         mem \<leftarrow> mem_write (i * FRAME_SIZE + STREAM_HDR_SIZE) payload mem;
         if length (bb_frames buf) \<le> i then None
         else Some (True, buf\<lparr>bb_virt := Some mem,
                bb_frames := (bb_frames buf)[i := batch_desc (length payload) (bb_frames buf ! i)]\<rparr>)
       }
     }"

fun fill_frames ::
  "(nat \<Rightarrow> bool) \<Rightarrow> (nat \<Rightarrow> stream_hdr) \<Rightarrow> (nat \<Rightarrow> byte list) \<Rightarrow> nat \<Rightarrow> nat \<Rightarrow> batch_buf \<Rightarrow> (bool \<times> batch_buf) option" where
  "fill_frames copy_ok hs ps i 0 buf = Some (True, buf)"
| "fill_frames copy_ok hs ps i (Suc k) buf =
     do {
       (ok, buf) \<leftarrow> fill_frame copy_ok (hs i) (ps i) i buf;
       if ok then fill_frames copy_ok hs ps (Suc i) k buf else Some (False, buf)
     }"

definition batch_frame_bytes :: "batch_buf \<Rightarrow> nat \<Rightarrow> byte list" where
  "batch_frame_bytes buf i = take (rf_size (bb_frames buf ! i)) (drop (i * FRAME_SIZE) (the (bb_virt buf)))"

definition batch_return :: "nat \<Rightarrow> odl_device \<Rightarrow> odl_device option" where
  "batch_return b d = do { p \<leftarrow> batch_pool_put (dev_bpool d) b; Some (d\<lparr>dev_bpool := p\<rparr>) }"

text \<open>Submitting the frames from \<open>i\<close> on, \<open>k\<close> of them left. When the ring refuses one, the counters are corrected for
  the frames that were not submitted; \<open>msg->sent\<close> is a \<open>size_t\<close> and wraps.\<close>

fun submit_frames :: "tx_env \<Rightarrow> nat \<Rightarrow> nat \<Rightarrow> nat \<Rightarrow> nat \<Rightarrow> odl_device \<Rightarrow> ((errno + unit) \<times> odl_device) option" where
  "submit_frames e m b i 0 d = Some (Inr (), d)"
| "submit_frames e m b i (Suc k) d =
     do {
       d \<leftarrow> tx_complete_all (te_mid e i) d;
       batch \<leftarrow> get_batch b d;
       d \<leftarrow> tb_ring_tx (te_tx_ok e i) (BatchFrame b i) (batch_frame_bytes batch i) d;
       if te_tx_ok e i then submit_frames e m b (Suc i) k d
       else do {
         let unsub = Suc k;
         d \<leftarrow> upd_batch b (\<lambda>x. x\<lparr>bb_frames_pending := bb_frames_pending x - int unsub, bb_total_frames := i\<rparr>) d;
         d \<leftarrow> upd_msg m (\<lambda>msg. msg\<lparr>tm_frames_pending := tm_frames_pending msg - int unsub,
               tm_sent := (tm_sent msg + 2 ^ 64 - unsub * STREAM_PAYLOAD_MAX) mod 2 ^ 64\<rparr>) d;
         d \<leftarrow> (if i = 0 then batch_return b d else Some d);
         Some (Inl EIO, d)
       }
     }"

definition send_batch ::
  "tx_env \<Rightarrow> nat \<Rightarrow> u8 \<Rightarrow> u8 \<Rightarrow> byte list \<Rightarrow> nat \<Rightarrow> u16 \<Rightarrow> nat \<Rightarrow> odl_device \<Rightarrow> ((errno + unit) \<times> odl_device) option" where
  "send_batch e m sid dst data total_sent frag b d =
     (let batch_payload = min (length data - total_sent) (BATCH_FRAMES * STREAM_PAYLOAD_MAX);
          nframes = DIV_ROUND_UP batch_payload STREAM_PAYLOAD_MAX
      in do {
        batch \<leftarrow> get_batch b d;
        (ok, batch) \<leftarrow> fill_frames (te_copy_ok e) (batch_hdr sid dst data total_sent batch_payload frag)
                        (frame_payload data total_sent batch_payload) 0 nframes batch;
        if \<not> ok
        then do { d \<leftarrow> upd_batch b (\<lambda>_. batch) d; d \<leftarrow> batch_return b d; Some (Inl EFAULT, d) }
        else do {
          d \<leftarrow> upd_batch b (\<lambda>_. batch\<lparr>bb_tx_msg := Some m, bb_total_frames := nframes,
                bb_frames_pending := int nframes\<rparr>) d;
          d \<leftarrow> upd_msg m (\<lambda>msg. msg\<lparr>tm_frames_pending := tm_frames_pending msg + int nframes,
                tm_sent := tm_sent msg + batch_payload\<rparr>) d;
          submit_frames e m b 0 nframes d
        }
      })"

fun throughput_loop ::
  "tx_env list \<Rightarrow> nat \<Rightarrow> u8 \<Rightarrow> u8 \<Rightarrow> byte list \<Rightarrow> nat \<Rightarrow> u16 \<Rightarrow> odl_device
    \<Rightarrow> ((errno + unit) tx_result \<times> odl_device) option" where
  "throughput_loop envs m sid dst data total_sent frag d =
     (if length data \<le> total_sent then Some (TxReturned (Inr ()), d)
      else case envs of
             [] \<Rightarrow> Some (TxWaiting, d)
           | e # es \<Rightarrow> do {
               d \<leftarrow> tx_complete_all (te_done e) d;
               if bp_free_count (dev_bpool d) \<le> 0
               then (case te_wait e of
                       WSleep \<Rightarrow> throughput_loop es m sid dst data total_sent frag d
                     | WTimeout \<Rightarrow> Some (TxReturned (Inl ETIMEDOUT), d)
                     | WSignal \<Rightarrow> Some (TxReturned (Inl ERESTARTSYS), d))
               else do {
                 (r, p) \<leftarrow> batch_pool_get (dev_bpool d);
                 case r of
                   None \<Rightarrow> throughput_loop es m sid dst data total_sent frag (d\<lparr>dev_bpool := p\<rparr>)
                 | Some b \<Rightarrow> do {
                     (r, d) \<leftarrow> send_batch e m sid dst data total_sent frag b (d\<lparr>dev_bpool := p\<rparr>);
                     let batch_payload = min (length data - total_sent) (BATCH_FRAMES * STREAM_PAYLOAD_MAX);
                     case r of
                       Inl err \<Rightarrow> Some (TxReturned (Inl err), d)
                     | Inr _ \<Rightarrow> throughput_loop es m sid dst data (total_sent + batch_payload)
                         (frag + of_nat (DIV_ROUND_UP batch_payload STREAM_PAYLOAD_MAX)) d
                   }
               }
             })"

declare throughput_loop.simps [simp del]

definition stream_send_throughput ::
  "tx_env list \<Rightarrow> (frame_ref \<times> bool) list \<Rightarrow> nat option \<Rightarrow> nat \<Rightarrow> u8 \<Rightarrow> byte list \<Rightarrow> odl_device
    \<Rightarrow> ((errno + unit) tx_result \<times> odl_device) option" where
  "stream_send_throughput envs last_done alloc a dst data d =
     (case alloc of
        None \<Rightarrow> Some (TxReturned (Inl ENOMEM), d)
      | Some m \<Rightarrow> do {
          d \<leftarrow> tx_begin m a dst (length data) d;
          s \<leftarrow> dev_heap d a;
          tx_conclude last_done m (throughput_loop envs m (st_id s) dst data 0 0 d)
        })"

section \<open>The send call\<close>

definition stream_can_send :: "odl_device \<Rightarrow> bool" where
  "stream_can_send d \<longleftrightarrow> dev_state d = READY \<and> int TX_POOL_RESERVE < fp_free_count (dev_pool d)"

definition stream_send ::
  "tx_env list \<Rightarrow> (frame_ref \<times> bool) list \<Rightarrow> nat option \<Rightarrow> nat \<Rightarrow> u8 \<Rightarrow> byte list \<Rightarrow> odl_device
    \<Rightarrow> ((errno + unit) tx_result \<times> odl_device) option" where
  "stream_send envs last_done alloc a dst data d =
     (if dev_state d \<noteq> READY then Some (TxReturned (Inl ENOTCONN), d)
      else if length data = 0 \<or> STREAM_PAYLOAD_MAX * 4096 < length data then Some (TxReturned (Inl EINVAL), d)
      else case evaluate_tx_mode (length data) d of
             (TX_THROUGHPUT, d) \<Rightarrow> stream_send_throughput envs last_done alloc a dst data d
           | (TX_LATENCY, d) \<Rightarrow> stream_send_latency envs last_done alloc a dst data d)"

definition stream_wait_tx :: "bool \<Rightarrow> bool \<Rightarrow> u32 \<Rightarrow> stream \<Rightarrow> (errno + unit) tx_result" where
  "stream_wait_tx intr timeout timeout_ms s =
     (if st_tx_in_flight s = 0 then TxReturned (Inr ())
      else if intr then TxReturned (Inl EINTR)
      else if timeout_ms \<noteq> 0 \<and> timeout then TxReturned (Inl ETIMEDOUT)
      else TxWaiting)"

end
