(* ===== verification/Tx_Safety.thy ===== *)
theory Tx_Safety
  imports Tx_Path
begin

text \<open>
  The invariant of the transmit side of a device and its preservation by completions and sends. It ties together
  the descriptors that are pending on the ring, the slots and batch buffers they lie in, the counters of the messages they
  belong to and the references that the messages hold on their streams. From it follows that no interleaving of
  completions with the rounds of sends uses a message, a stream, a slot or a buffer after it was freed.
\<close>

section \<open>The invariant\<close>

definition frame_owner :: "odl_device \<Rightarrow> frame_ref \<Rightarrow> nat option" where
  "frame_owner d r =
     (case r of
        PoolSlot i \<Rightarrow> (case get_slot i d of None \<Rightarrow> None | Some slot \<Rightarrow> fs_tx_msg slot)
      | BatchFrame b i \<Rightarrow> (case get_batch b d of None \<Rightarrow> None | Some buf \<Rightarrow> bb_tx_msg buf)
      | _ \<Rightarrow> None)"

definition msg_frames_out :: "odl_device \<Rightarrow> nat \<Rightarrow> nat" where
  "msg_frames_out d m = length (filter (\<lambda>r. frame_owner d r = Some m) (dev_tx_pending d))"

definition is_batch_frame :: "nat \<Rightarrow> frame_ref \<Rightarrow> bool" where
  "is_batch_frame b r \<longleftrightarrow> (case r of BatchFrame b' i \<Rightarrow> b' = b | _ \<Rightarrow> False)"

definition batch_frames_out :: "odl_device \<Rightarrow> nat \<Rightarrow> nat" where
  "batch_frames_out d b = length (filter (is_batch_frame b) (dev_tx_pending d))"

definition stream_msgs :: "odl_device \<Rightarrow> nat \<Rightarrow> nat" where
  "stream_msgs d a = card {m. \<exists>msg. dev_msgs d m = Some msg \<and> tm_stream msg = a}"

text \<open>
  \<open>senders\<close> are the messages whose send call is still running. \<open>mc\<close> and \<open>bc\<close> are the frames of a message and of a
  batch buffer that are counted as pending but not submitted yet, which happens only inside a send.
\<close>

definition msg_ok :: "bool \<Rightarrow> nat \<Rightarrow> int \<Rightarrow> tx_msg \<Rightarrow> bool" where
  "msg_ok sending out credit msg \<longleftrightarrow>
     tm_frames_pending msg = int out + credit \<and> 0 \<le> credit \<and> tm_completion_ref msg = 1 \<and>
     (if sending then tm_refs msg = 2 \<and> \<not> tm_done msg
      else tm_refs msg = 1 \<and> tm_done msg \<and> 0 < out \<and> credit = 0)"

definition tx_base :: "(nat \<Rightarrow> nat) \<Rightarrow> (nat \<Rightarrow> int) \<Rightarrow> odl_device \<Rightarrow> bool" where
  "tx_base refs bc d \<longleftrightarrow>
     frame_pool_wf (dev_pool d) \<and> batch_pool_wf (dev_bpool d) \<and> rc_ring (dev_tx d) \<noteq> None \<and>
     finite (dom (dev_msgs d)) \<and> streams_wf (\<lambda>a. refs a + stream_msgs d a) d \<and>
     distinct (dev_tx_pending d) \<and>
     (\<forall>i. PoolSlot i \<in> set (dev_tx_pending d) \<longrightarrow> i \<in> frame_pool_used (dev_pool d)) \<and>
     (\<forall>r \<in> set (dev_tx_pending d). \<forall>m. frame_owner d r = Some m \<longrightarrow> dev_msgs d m \<noteq> None) \<and>
     (\<forall>b < BATCH_BUF_COUNT. 0 \<le> bc b \<and>
        bb_frames_pending (bp_bufs (dev_bpool d) ! b) = int (batch_frames_out d b) + bc b \<and>
        (0 < batch_frames_out d b \<or> 0 < bc b \<longrightarrow> b \<in> batch_pool_used (dev_bpool d))) \<and>
     (\<forall>b i. BatchFrame b i \<in> set (dev_tx_pending d) \<longrightarrow> b < BATCH_BUF_COUNT)"

definition tx_wf ::
  "(nat \<Rightarrow> nat) \<Rightarrow> nat set \<Rightarrow> (nat \<Rightarrow> int) \<Rightarrow> (nat \<Rightarrow> int) \<Rightarrow> odl_device \<Rightarrow> bool" where
  "tx_wf refs senders mc bc d \<longleftrightarrow> tx_base refs bc d \<and>
     (\<forall>m msg. dev_msgs d m = Some msg \<longrightarrow> msg_ok (m \<in> senders) (msg_frames_out d m) (mc m) msg)"

lemma tx_baseD:
  assumes "tx_base refs bc d"
  shows "frame_pool_wf (dev_pool d)" "batch_pool_wf (dev_bpool d)" "rc_ring (dev_tx d) \<noteq> None"
    "finite (dom (dev_msgs d))" "streams_wf (\<lambda>a. refs a + stream_msgs d a) d" "distinct (dev_tx_pending d)"
    "PoolSlot i \<in> set (dev_tx_pending d) \<Longrightarrow> i \<in> frame_pool_used (dev_pool d)"
    "r \<in> set (dev_tx_pending d) \<Longrightarrow> frame_owner d r = Some m \<Longrightarrow> dev_msgs d m \<noteq> None"
    "b < BATCH_BUF_COUNT \<Longrightarrow> 0 \<le> bc b"
    "b < BATCH_BUF_COUNT \<Longrightarrow> bb_frames_pending (bp_bufs (dev_bpool d) ! b) = int (batch_frames_out d b) + bc b"
    "b < BATCH_BUF_COUNT \<Longrightarrow> 0 < batch_frames_out d b \<or> 0 < bc b \<Longrightarrow> b \<in> batch_pool_used (dev_bpool d)"
    "BatchFrame b j \<in> set (dev_tx_pending d) \<Longrightarrow> b < BATCH_BUF_COUNT"
  using assms unfolding tx_base_def by blast+

lemma tx_wfD:
  assumes "tx_wf refs senders mc bc d"
  shows "tx_base refs bc d"
    "dev_msgs d m = Some msg \<Longrightarrow> msg_ok (m \<in> senders) (msg_frames_out d m) (mc m) msg"
  using assms unfolding tx_wf_def by blast+

text \<open>What completions leave alone: the wire, the progress of running sends and the contents of the batch buffers. The
  pools only grow and the ring only empties.\<close>

definition undisturbed :: "nat set \<Rightarrow> (nat \<Rightarrow> int) \<Rightarrow> odl_device \<Rightarrow> odl_device \<Rightarrow> bool" where
  "undisturbed senders bc d d' \<longleftrightarrow>
     dev_wire d' = dev_wire d \<and> set (dev_tx_pending d') \<subseteq> set (dev_tx_pending d) \<and>
     fp_free_count (dev_pool d) \<le> fp_free_count (dev_pool d') \<and> bp_free_count (dev_bpool d) \<le> bp_free_count (dev_bpool d') \<and>
     (\<forall>k \<in> senders. map_option tm_sent (dev_msgs d' k) = map_option tm_sent (dev_msgs d k)) \<and>
     (\<forall>b < BATCH_BUF_COUNT. bb_virt (bp_bufs (dev_bpool d') ! b) = bb_virt (bp_bufs (dev_bpool d) ! b) \<and>
        bb_frames (bp_bufs (dev_bpool d') ! b) = bb_frames (bp_bufs (dev_bpool d) ! b) \<and>
        (0 < bc b \<longrightarrow> bb_tx_msg (bp_bufs (dev_bpool d') ! b) = bb_tx_msg (bp_bufs (dev_bpool d) ! b)))"

lemma undisturbed_refl [simp]: "undisturbed senders bc d d"
  by (simp add: undisturbed_def)

lemma undisturbed_trans: "undisturbed senders bc d d' \<Longrightarrow> undisturbed senders bc d' d'' \<Longrightarrow> undisturbed senders bc d d''"
  unfolding undisturbed_def by auto

text \<open>The accounting looks only at the pools and the ring.\<close>

lemma frame_accounting_cong:
  assumes "dev_pool d' = dev_pool d" "dev_bpool d' = dev_bpool d"
  shows "frame_owner d' = frame_owner d"
    "dev_tx_pending d' = dev_tx_pending d \<Longrightarrow> msg_frames_out d' = msg_frames_out d"
    "dev_tx_pending d' = dev_tx_pending d \<Longrightarrow> batch_frames_out d' = batch_frames_out d"
proof -
  show fo: "frame_owner d' = frame_owner d"
    using assms by (auto simp: frame_owner_def get_slot_def get_batch_def fun_eq_iff split: frame_ref.splits)
  show "dev_tx_pending d' = dev_tx_pending d \<Longrightarrow> msg_frames_out d' = msg_frames_out d"
    "dev_tx_pending d' = dev_tx_pending d \<Longrightarrow> batch_frames_out d' = batch_frames_out d"
    by (auto simp: msg_frames_out_def batch_frames_out_def fo)
qed

section \<open>Streams and their messages\<close>

lemma stream_msgs_upd:
  assumes "dev_msgs d m = Some msg" "tm_stream msg' = tm_stream msg" "dev_msgs d' = (dev_msgs d)(m \<mapsto> msg')"
  shows "stream_msgs d' = stream_msgs d"
proof
  fix a
  have "{k. \<exists>x. dev_msgs d' k = Some x \<and> tm_stream x = a} = {k. \<exists>x. dev_msgs d k = Some x \<and> tm_stream x = a}"
    using assms by auto
  then show "stream_msgs d' a = stream_msgs d a" by (simp add: stream_msgs_def)
qed

lemma stream_msgs_add:
  assumes "finite (dom (dev_msgs d))" "dev_msgs d m = None" "dev_msgs d' = (dev_msgs d)(m \<mapsto> msg)"
  shows "stream_msgs d' = (stream_msgs d)(tm_stream msg := Suc (stream_msgs d (tm_stream msg)))"
proof
  fix a
  let ?S = "{k. \<exists>x. dev_msgs d k = Some x \<and> tm_stream x = a}"
  have "finite ?S" by (rule finite_subset [OF _ assms(1)]) auto
  moreover have "{k. \<exists>x. dev_msgs d' k = Some x \<and> tm_stream x = a} = (if a = tm_stream msg then insert m ?S else ?S)"
    using assms(2,3) by auto
  moreover have "m \<notin> ?S" using assms(2) by simp
  ultimately show "stream_msgs d' a = ((stream_msgs d)(tm_stream msg := Suc (stream_msgs d (tm_stream msg)))) a"
    by (cases "a = tm_stream msg") (auto simp: stream_msgs_def)
qed

lemma stream_msgs_del:
  assumes "finite (dom (dev_msgs d))" "dev_msgs d m = Some msg" "dev_msgs d' = (dev_msgs d)(m := None)"
  shows "stream_msgs d' = (stream_msgs d)(tm_stream msg := stream_msgs d (tm_stream msg) - 1)"
    "0 < stream_msgs d (tm_stream msg)"
proof -
  have fin: "finite {k. \<exists>x. dev_msgs d k = Some x \<and> tm_stream x = a}" for a
    by (rule finite_subset [OF _ assms(1)]) auto
  show "0 < stream_msgs d (tm_stream msg)"
    using fin assms(2) by (auto simp: stream_msgs_def card_gt_0_iff)
  have "{k. \<exists>x. dev_msgs d' k = Some x \<and> tm_stream x = a}
      = {k. \<exists>x. dev_msgs d k = Some x \<and> tm_stream x = a} - (if a = tm_stream msg then {m} else {})" for a
    using assms(2,3) by auto
  then show "stream_msgs d' = (stream_msgs d)(tm_stream msg := stream_msgs d (tm_stream msg) - 1)"
    using assms(2) by (auto simp: stream_msgs_def fun_eq_iff)
qed

lemma stream_msgs_cong: "dev_msgs d' = dev_msgs d \<Longrightarrow> stream_msgs d' = stream_msgs d"
  by (simp add: stream_msgs_def fun_eq_iff)

lemma streams_wf_cong:
  assumes "streams_wf ext d" "dev_heap d' = dev_heap d" "dev_streams d' = dev_streams d" "dev_ida d' = dev_ida d"
    "fp_slots (dev_pool d') \<noteq> None \<Longrightarrow> frame_pool_wf (dev_pool d')" "dev_rx d' = dev_rx d"
  shows "streams_wf ext d'"
proof -
  have "stream_num d' = stream_num d" using assms(2) by (auto simp: stream_num_def)
  with assms show ?thesis by (auto simp: streams_wf_def rx_base_ok_def)
qed

section \<open>Dropping references of a message\<close>

text \<open>Changes that touch only messages and streams, keep every message with a frame out and account for the streams.\<close>

lemma tx_base_heap:
  assumes "tx_base refs bc d" "finite (dom M)"
    "streams_wf (\<lambda>a. refs a + stream_msgs (d\<lparr>dev_heap := H, dev_msgs := M\<rparr>) a) (d\<lparr>dev_heap := H, dev_msgs := M\<rparr>)"
    "\<And>m. dev_msgs d m \<noteq> None \<Longrightarrow> 0 < msg_frames_out d m \<Longrightarrow> M m \<noteq> None"
  shows "tx_base refs bc (d\<lparr>dev_heap := H, dev_msgs := M\<rparr>)"
proof -
  let ?d = "d\<lparr>dev_heap := H, dev_msgs := M\<rparr>"
  have acc: "frame_owner ?d = frame_owner d" "batch_frames_out ?d = batch_frames_out d"
    by (rule frame_accounting_cong; simp)+
  have "M m \<noteq> None" if "r \<in> set (dev_tx_pending d)" "frame_owner d r = Some m" for r m
  proof -
    have "r \<in> set (filter (\<lambda>r. frame_owner d r = Some m) (dev_tx_pending d))" using that by simp
    then have "0 < msg_frames_out d m" unfolding msg_frames_out_def by (metis length_pos_if_in_set)
    with assms(4) tx_baseD(8) [OF assms(1) that] show ?thesis by blast
  qed
  with assms(1-3) show ?thesis unfolding tx_base_def acc by simp
qed

lemma tx_msg_put_last:
  assumes "streams_wf (\<lambda>a. refs a + stream_msgs d a) d" "finite (dom (dev_msgs d))" "dev_msgs d m = Some msg"
    "tm_refs msg = 1"
  shows "\<exists>H. tx_msg_put m d = Some (d\<lparr>dev_heap := H, dev_msgs := (dev_msgs d)(m := None)\<rparr>) \<and>
    streams_wf (\<lambda>a. refs a + stream_msgs (d\<lparr>dev_heap := H, dev_msgs := (dev_msgs d)(m := None)\<rparr>) a)
      (d\<lparr>dev_heap := H, dev_msgs := (dev_msgs d)(m := None)\<rparr>)"
proof -
  let ?a = "tm_stream msg" and ?ext = "\<lambda>a. refs a + stream_msgs d a"
  have pos: "0 < stream_msgs d ?a" using stream_msgs_del(2) [OF assms(2,3), of "d\<lparr>dev_msgs := (dev_msgs d)(m := None)\<rparr>"] by simp
  then obtain s where s: "dev_heap d ?a = Some s"
    using streams_wfD(6) [OF assms(1), of ?a] by (auto simp: stream_ok_def split: option.splits)
  let ?s = "s\<lparr>st_tx_completed := st_tx_completed s + (if tm_failed msg then 0 else 1),
    st_tx_in_flight := st_tx_in_flight s - 1\<rparr>"
  let ?d1 = "d\<lparr>dev_heap := (dev_heap d)(?a \<mapsto> ?s)\<rparr>"
  have ok: "stream_ok (?ext ?a) (?a \<in> set (dev_streams d)) (Some ?s)"
    using streams_wfD(6) [OF assms(1), of ?a] s by (auto simp: stream_ok_def)
  have wf1: "streams_wf ?ext ?d1" using ok by (intro streams_wf_upd(1) [OF assms(1) s, of _ ?ext]) simp_all
  obtain d2 where d2: "stream_put ?a ?d1 = Some d2" "streams_wf (?ext(?a := ?ext ?a - 1)) d2"
    using stream_put_law [OF wf1, of ?a] pos by auto
  obtain n where n: "st_refcount ?s = Suc n" "st_tx_queue ?s = []"
    using ok by (cases "st_refcount ?s") (auto simp: stream_ok_def)
  then obtain H where H: "d2 = ?d1\<lparr>dev_heap := H\<rparr>"
    using stream_put_eq [of ?d1 ?a ?s n] d2(1) by auto
  let ?d3 = "d\<lparr>dev_heap := H, dev_msgs := (dev_msgs d)(m := None)\<rparr>"
  have "tx_msg_put m d = Some ?d3"
    using assms(3,4) s d2(1) H by (simp add: tx_msg_put_def upd_stream_def)
  moreover have e: "?ext(?a := ?ext ?a - 1) = (\<lambda>a. refs a + stream_msgs ?d3 a)"
    using stream_msgs_del(1) [OF assms(2,3), of ?d3] pos by (auto simp: fun_eq_iff)
  have "streams_wf (\<lambda>a. refs a + stream_msgs ?d3 a) ?d3"
  proof (rule streams_wf_cong)
    show "streams_wf (\<lambda>a. refs a + stream_msgs ?d3 a) d2" using d2(2) unfolding e .
    show "frame_pool_wf (dev_pool ?d3)" if "fp_slots (dev_pool ?d3) \<noteq> None"
      using that streams_wfD(1) [OF assms(1)] by (simp add: rx_base_ok_def)
  qed (simp_all add: H)
  ultimately show ?thesis by blast
qed

text \<open>A frame of message \<open>m\<close> has left the ring, and the counter of the message is still to be lowered.\<close>

definition frame_left :: "nat set \<Rightarrow> (nat \<Rightarrow> int) \<Rightarrow> nat \<Rightarrow> odl_device \<Rightarrow> bool" where
  "frame_left senders mc m d \<longleftrightarrow>
     (\<forall>k msg. dev_msgs d k = Some msg \<longrightarrow> k \<noteq> m \<longrightarrow> msg_ok (k \<in> senders) (msg_frames_out d k) (mc k) msg) \<and>
     (\<exists>msg. dev_msgs d m = Some msg \<and> tm_frames_pending msg = int (msg_frames_out d m) + mc m + 1 \<and> 0 \<le> mc m \<and>
        tm_completion_ref msg = 1 \<and>
        (if m \<in> senders then tm_refs msg = 2 \<and> \<not> tm_done msg else tm_refs msg = 1 \<and> tm_done msg \<and> mc m = 0))"

lemma tx_base_msg:
  assumes "tx_base refs bc d" "dev_msgs d m = Some msg" "tm_stream msg' = tm_stream msg"
  shows "tx_base refs bc (d\<lparr>dev_msgs := (dev_msgs d)(m \<mapsto> msg')\<rparr>)"
proof -
  let ?d = "d\<lparr>dev_msgs := (dev_msgs d)(m \<mapsto> msg')\<rparr>"
  note I = tx_baseD [OF assms(1)]
  have sm: "stream_msgs ?d = stream_msgs d" by (rule stream_msgs_upd [OF assms(2,3)]) simp
  have "streams_wf (\<lambda>a. refs a + stream_msgs ?d a) ?d"
    unfolding sm using I(1) by (intro streams_wf_cong [OF I(5)]) simp_all
  then show ?thesis
    using tx_base_heap [OF assms(1), of "(dev_msgs d)(m \<mapsto> msg')" "dev_heap d"] I(4) by simp
qed

lemma tx_msg_frame_done_wf:
  assumes "tx_base refs bc d" "frame_left senders mc m d"
  shows "\<exists>H M. tx_msg_frame_done m c d = Some (d\<lparr>dev_heap := H, dev_msgs := M\<rparr>) \<and>
    tx_wf refs senders mc bc (d\<lparr>dev_heap := H, dev_msgs := M\<rparr>) \<and>
    (\<forall>k \<in> senders. map_option tm_sent (M k) = map_option tm_sent (dev_msgs d k))"
proof -
  obtain msg where msg: "dev_msgs d m = Some msg" "tm_frames_pending msg = int (msg_frames_out d m) + mc m + 1"
    "0 \<le> mc m" "tm_completion_ref msg = 1"
    "if m \<in> senders then tm_refs msg = 2 \<and> \<not> tm_done msg else tm_refs msg = 1 \<and> tm_done msg \<and> mc m = 0"
    and rest: "\<And>k x. dev_msgs d k = Some x \<Longrightarrow> k \<noteq> m \<Longrightarrow> msg_ok (k \<in> senders) (msg_frames_out d k) (mc k) x"
    using assms(2) by (auto simp: frame_left_def)
  define x where "x = msg\<lparr>tm_failed := (tm_failed msg \<or> c), tm_frames_pending := tm_frames_pending msg - 1\<rparr>"
  let ?d1 = "d\<lparr>dev_msgs := (dev_msgs d)(m \<mapsto> x)\<rparr>"
  have base1: "tx_base refs bc ?d1" by (rule tx_base_msg [OF assms(1) msg(1)]) (simp add: x_def)
  have acc: "msg_frames_out (d\<lparr>dev_heap := H, dev_msgs := M\<rparr>) = msg_frames_out d" for H M
    by (rule frame_accounting_cong) simp_all
  have fd: "tx_msg_frame_done m c d = (if tm_frames_pending x = 0 then tx_msg_maybe_complete m ?d1 else Some ?d1)"
    using msg(1) by (simp add: tx_msg_frame_done_def upd_msg_def x_def)
  show ?thesis
  proof (cases "tm_frames_pending x = 0 \<and> m \<notin> senders")
    case False
    have "tx_msg_frame_done m c d = Some ?d1"
      using False msg(5) by (auto simp: fd tx_msg_maybe_complete_def x_def)
    moreover have "msg_ok (m \<in> senders) (msg_frames_out d m) (mc m) x"
      using msg(2-5) False by (auto simp: msg_ok_def x_def split: if_splits)
    then have "tx_wf refs senders mc bc ?d1"
      using base1 rest acc [where H = "dev_heap d" and M = "(dev_msgs d)(m \<mapsto> x)"] by (simp add: tx_wf_def)
    ultimately show ?thesis
      using msg(1) by (intro exI [of _ "dev_heap d"] exI [of _ "(dev_msgs d)(m \<mapsto> x)"]) (simp add: x_def)
  next
    case True
    define y where "y = x\<lparr>tm_completion_ref := 0\<rparr>"
    let ?d2 = "d\<lparr>dev_msgs := (dev_msgs d)(m \<mapsto> y)\<rparr>"
    have base2: "tx_base refs bc ?d2" by (rule tx_base_msg [OF assms(1) msg(1)]) (simp add: x_def y_def)
    have out0: "msg_frames_out d m = 0" using True msg(2,3) by (simp add: x_def)
    have "tx_msg_maybe_complete m ?d1 = tx_msg_put m ?d2"
      using True msg(4,5) by (simp add: tx_msg_maybe_complete_def upd_msg_def x_def y_def)
    then have eq: "tx_msg_frame_done m c d = tx_msg_put m ?d2" using True by (simp add: fd)
    obtain H where H: "tx_msg_put m ?d2 = Some (?d2\<lparr>dev_heap := H, dev_msgs := (dev_msgs ?d2)(m := None)\<rparr>)"
      "streams_wf (\<lambda>a. refs a + stream_msgs (?d2\<lparr>dev_heap := H, dev_msgs := (dev_msgs ?d2)(m := None)\<rparr>) a)
        (?d2\<lparr>dev_heap := H, dev_msgs := (dev_msgs ?d2)(m := None)\<rparr>)"
      using tx_msg_put_last [OF tx_baseD(5,4) [OF base2], of m y] msg(5) True by (auto simp: y_def x_def)
    let ?M = "(dev_msgs d)(m := None)"
    have fin: "finite (dom ?M)" using tx_baseD(4) [OF assms(1)] by simp
    have "tx_base refs bc (d\<lparr>dev_heap := H, dev_msgs := ?M\<rparr>)"
      by (rule tx_base_heap [OF assms(1) fin]) (use H(2) out0 in \<open>auto split: if_splits\<close>)
    then have "tx_wf refs senders mc bc (d\<lparr>dev_heap := H, dev_msgs := ?M\<rparr>)"
      using rest acc [where H = H and M = ?M] by (auto simp: tx_wf_def split: if_splits)
    with eq H(1) True show ?thesis by (intro exI [of _ H] exI [of _ ?M]) auto
  qed
qed

section \<open>Frames entering and leaving the ring\<close>

text \<open>Changes that touch only the pools and the ring.\<close>

definition same_objects :: "odl_device \<Rightarrow> odl_device \<Rightarrow> bool" where
  "same_objects d d' \<longleftrightarrow> dev_heap d' = dev_heap d \<and> dev_msgs d' = dev_msgs d \<and> dev_streams d' = dev_streams d \<and>
     dev_ida d' = dev_ida d \<and> dev_rx d' = dev_rx d \<and> dev_tx d' = dev_tx d"

lemma tx_base_ring:
  assumes "tx_base refs bc d" "same_objects d d'" "frame_pool_wf (dev_pool d')" "batch_pool_wf (dev_bpool d')"
    "distinct (dev_tx_pending d')"
    "\<And>i. PoolSlot i \<in> set (dev_tx_pending d') \<Longrightarrow> i \<in> frame_pool_used (dev_pool d')"
    "\<And>r m. r \<in> set (dev_tx_pending d') \<Longrightarrow> frame_owner d' r = Some m \<Longrightarrow> dev_msgs d m \<noteq> None"
    "\<And>b. b < BATCH_BUF_COUNT \<Longrightarrow> 0 \<le> bc' b \<and>
       bb_frames_pending (bp_bufs (dev_bpool d') ! b) = int (batch_frames_out d' b) + bc' b \<and>
       (0 < batch_frames_out d' b \<or> 0 < bc' b \<longrightarrow> b \<in> batch_pool_used (dev_bpool d'))"
    "\<And>b i. BatchFrame b i \<in> set (dev_tx_pending d') \<Longrightarrow> b < BATCH_BUF_COUNT"
  shows "tx_base refs bc' d'"
proof -
  have sm: "stream_msgs d' = stream_msgs d" using assms(2) by (intro stream_msgs_cong) (simp add: same_objects_def)
  have "streams_wf (\<lambda>a. refs a + stream_msgs d' a) d'"
    unfolding sm using assms(2,3) by (intro streams_wf_cong [OF tx_baseD(5) [OF assms(1)]]) (auto simp: same_objects_def)
  with assms(2-9) tx_baseD(3,4) [OF assms(1)] show ?thesis
    unfolding tx_base_def same_objects_def by simp
qed

lemma length_filter_remove1:
  "r \<in> set xs \<Longrightarrow> length (filter P xs) = length (filter P (remove1 r xs)) + (if P r then 1 else 0)"
  by (induction xs) auto

lemma frames_out_remove:
  assumes "dev_tx_pending d' = remove1 r (dev_tx_pending d)" "r \<in> set (dev_tx_pending d)" "distinct (dev_tx_pending d)"
    "\<And>r'. r' \<in> set (dev_tx_pending d) \<Longrightarrow> r' \<noteq> r \<Longrightarrow> frame_owner d' r' = frame_owner d r'"
  shows "msg_frames_out d k = msg_frames_out d' k + (if frame_owner d r = Some k then 1 else 0)"
    "batch_frames_out d b = batch_frames_out d' b + (if is_batch_frame b r then 1 else 0)"
proof -
  have "filter (\<lambda>r. frame_owner d' r = Some k) (remove1 r (dev_tx_pending d))
      = filter (\<lambda>r. frame_owner d r = Some k) (remove1 r (dev_tx_pending d))"
    using assms(3,4) by (intro filter_cong) auto
  then show "msg_frames_out d k = msg_frames_out d' k + (if frame_owner d r = Some k then 1 else 0)"
    using length_filter_remove1 [OF assms(2), of "\<lambda>r. frame_owner d r = Some k"]
    by (simp add: msg_frames_out_def assms(1))
  show "batch_frames_out d b = batch_frames_out d' b + (if is_batch_frame b r then 1 else 0)"
    using length_filter_remove1 [OF assms(2), of "is_batch_frame b"] by (simp add: batch_frames_out_def assms(1))
qed

text \<open>The messages after a frame left the ring.\<close>

lemma msgs_after_remove:
  assumes "tx_wf refs senders mc bc d" "tx_base refs bc d'" "dev_msgs d' = dev_msgs d"
    "dev_tx_pending d' = remove1 r (dev_tx_pending d)" "r \<in> set (dev_tx_pending d)"
    "\<And>r'. r' \<in> set (dev_tx_pending d) \<Longrightarrow> r' \<noteq> r \<Longrightarrow> frame_owner d' r' = frame_owner d r'"
  shows "case frame_owner d r of None \<Rightarrow> tx_wf refs senders mc bc d' | Some m \<Rightarrow> frame_left senders mc m d'"
proof -
  note I = tx_baseD [OF tx_wfD(1) [OF assms(1)]]
  note out = frames_out_remove(1) [OF assms(4,5) I(6) assms(6)]
  show ?thesis
  proof (cases "frame_owner d r")
    case None
    then have "msg_frames_out d' k = msg_frames_out d k" for k using out by simp
    with assms(2,3) tx_wfD(2) [OF assms(1)] None show ?thesis by (simp add: tx_wf_def)
  next
    case (Some m)
    have o1: "msg_frames_out d m = Suc (msg_frames_out d' m)" using out [of m] Some by simp
    have o2: "msg_frames_out d' k = msg_frames_out d k" if "k \<noteq> m" for k using out [of k] Some that by simp
    obtain msg where msg: "dev_msgs d m = Some msg" using I(8) [OF assms(5) Some] by blast
    have "msg_ok (k \<in> senders) (msg_frames_out d' k) (mc k) x" if "dev_msgs d' k = Some x" "k \<noteq> m" for k x
      using tx_wfD(2) [OF assms(1), of k x] that assms(3) o2 [of k] by simp
    moreover have "tm_frames_pending msg = int (msg_frames_out d' m) + mc m + 1 \<and> 0 \<le> mc m \<and> tm_completion_ref msg = 1 \<and>
        (if m \<in> senders then tm_refs msg = 2 \<and> \<not> tm_done msg else tm_refs msg = 1 \<and> tm_done msg \<and> mc m = 0)"
      using tx_wfD(2) [OF assms(1) msg] o1 by (auto simp: msg_ok_def split: if_splits)
    ultimately show ?thesis using msg assms(3) Some by (simp add: frame_left_def)
  qed
qed

lemma frame_pool_put_eq:
  assumes "frame_pool_wf (dev_pool d)" "i \<in> frame_pool_used (dev_pool d)"
  obtains p where "frame_pool_put (dev_pool d) i = Some p" "frame_pool_wf p"
    "frame_pool_used p = frame_pool_used (dev_pool d) - {i}" "fp_free_count p = fp_free_count (dev_pool d) + 1"
    "\<And>j e. j \<noteq> i \<Longrightarrow> get_slot j (e\<lparr>dev_pool := p\<rparr>) = get_slot j d"
proof -
  obtain p where p: "frame_pool_put (dev_pool d) i = Some p" "frame_pool_wf p"
    "frame_pool_used p = frame_pool_used (dev_pool d) - {i}" using frame_pool_put_used [OF assms] by blast
  obtain ss bm where ss: "fp_slots (dev_pool d) = Some ss" "fp_bitmap (dev_pool d) = Some bm"
    using assms(1) by (rule frame_pool_wfE) blast
  then have p': "p = (dev_pool d)\<lparr>fp_bitmap := Some (bm[slot_idx (ss ! i) := False]),
      fp_slots := Some (ss[i := (ss ! i)\<lparr>fs_in_use := False, fs_tx_msg := None\<rparr>]),
      fp_free_count := fp_free_count (dev_pool d) + 1\<rparr>"
    using p(1) by (simp add: frame_pool_put_def split: if_splits)
  have "fp_free_count p = fp_free_count (dev_pool d) + 1" by (simp add: p')
  moreover have "get_slot j (e\<lparr>dev_pool := p\<rparr>) = get_slot j d" if "j \<noteq> i" for j e
    using that ss(1) by (simp add: p' get_slot_def)
  ultimately show thesis using p that by blast
qed

lemma frame_owner_pool:
  assumes "\<And>j. j \<noteq> i \<Longrightarrow> get_slot j d' = get_slot j d" "dev_bpool d' = dev_bpool d" "r \<noteq> PoolSlot i"
  shows "frame_owner d' r = frame_owner d r"
  using assms by (cases r) (auto simp: frame_owner_def get_batch_def)

lemma tx_complete_pool:
  assumes "tx_wf refs senders mc bc d" "PoolSlot i \<in> set (dev_tx_pending d)"
  shows "\<exists>d'. tx_complete (PoolSlot i, c) d = Some d' \<and> tx_wf refs senders mc bc d' \<and>
    undisturbed senders bc d d'"
proof -
  let ?r = "PoolSlot i"
  note base = tx_wfD(1) [OF assms(1)]
  note I = tx_baseD [OF base]
  have used: "i \<in> frame_pool_used (dev_pool d)" by (rule I(7) [OF assms(2)])
  obtain p where p: "frame_pool_put (dev_pool d) i = Some p" "frame_pool_wf p"
    "frame_pool_used p = frame_pool_used (dev_pool d) - {i}" "fp_free_count p = fp_free_count (dev_pool d) + 1"
    "\<And>j e. j \<noteq> i \<Longrightarrow> get_slot j (e\<lparr>dev_pool := p\<rparr>) = get_slot j d" using I(1) used by (rule frame_pool_put_eq) blast
  let ?d1 = "d\<lparr>dev_tx_pending := remove1 ?r (dev_tx_pending d)\<rparr>"
  let ?d2 = "?d1\<lparr>dev_pool := p\<rparr>"
  have own: "frame_owner ?d2 r' = frame_owner d r'" if "r' \<noteq> ?r" for r'
    using p(5) that by (intro frame_owner_pool [of i]) simp_all
  have pend: "set (remove1 ?r (dev_tx_pending d)) = set (dev_tx_pending d) - {?r}" using I(6) by simp
  have bo: "batch_frames_out ?d2 b = batch_frames_out d b" for b
    using frames_out_remove(2) [of ?d2 ?r d b] assms(2) I(6) own by (simp add: is_batch_frame_def)
  have base2: "tx_base refs bc ?d2"
  proof (rule tx_base_ring [OF base])
    show "\<And>r m. r \<in> set (dev_tx_pending ?d2) \<Longrightarrow> frame_owner ?d2 r = Some m \<Longrightarrow> dev_msgs d m \<noteq> None"
      using own I(8) pend by auto
  qed (use I p pend bo in \<open>auto simp: same_objects_def\<close>)
  have left: "case frame_owner d ?r of None \<Rightarrow> tx_wf refs senders mc bc ?d2 | Some m \<Rightarrow> frame_left senders mc m ?d2"
    by (rule msgs_after_remove [OF assms(1) base2]) (use assms(2) own in auto)
  have "i < FRAME_POOL_SIZE" using used frame_pool_used_bounded by blast
  then obtain slot where slot: "get_slot i d = Some slot"
    using I(1) by (auto simp: get_slot_def elim!: frame_pool_wfE)
  have eq: "tx_complete (?r, c) d = (case fs_tx_msg slot of None \<Rightarrow> Some ?d2 | Some m \<Rightarrow> tx_msg_frame_done m c ?d2)"
  proof -
    have "get_slot i ?d1 = Some slot" using slot by (simp add: get_slot_def)
    with assms(2) p(1) show ?thesis by (simp add: tx_complete_def tx_callback_def Let_def)
  qed
  show ?thesis
  proof (cases "fs_tx_msg slot")
    case None
    with left eq slot p(4) show ?thesis by (simp add: frame_owner_def undisturbed_def set_remove1_subset)
  next
    case (Some m)
    with left slot have "frame_left senders mc m ?d2" by (simp add: frame_owner_def)
    from tx_msg_frame_done_wf [OF base2 this, of c] obtain H M where
      fin: "tx_msg_frame_done m c ?d2 = Some (?d2\<lparr>dev_heap := H, dev_msgs := M\<rparr>)"
      "tx_wf refs senders mc bc (?d2\<lparr>dev_heap := H, dev_msgs := M\<rparr>)"
      "\<forall>k \<in> senders. map_option tm_sent (M k) = map_option tm_sent (dev_msgs ?d2 k)" by blast
    then show ?thesis using Some eq p(4)
      by (intro exI [of _ "?d2\<lparr>dev_heap := H, dev_msgs := M\<rparr>"]) (simp add: undisturbed_def set_remove1_subset)
  qed
qed

text \<open>Writing a batch buffer.\<close>

lemma batch_buf_upd_wf:
  assumes "batch_pool_wf q" "b < BATCH_BUF_COUNT" "buf_ok (b \<notin> set (bp_free_list q)) x"
  shows "batch_pool_wf (q\<lparr>bp_bufs := (bp_bufs q)[b := x]\<rparr>)"
    "batch_pool_used (q\<lparr>bp_bufs := (bp_bufs q)[b := x]\<rparr>) = batch_pool_used q"
proof -
  have "buf_ok (j \<notin> set (bp_free_list q)) ((bp_bufs q)[b := x] ! j)" if "j < BATCH_BUF_COUNT" for j
    using assms that by (cases "b = j") (auto simp: batch_pool_wf_def)
  with assms show "batch_pool_wf (q\<lparr>bp_bufs := (bp_bufs q)[b := x]\<rparr>)"
    "batch_pool_used (q\<lparr>bp_bufs := (bp_bufs q)[b := x]\<rparr>) = batch_pool_used q"
    by (auto simp: batch_pool_wf_def batch_pool_used_def)
qed

lemma batch_pool_bufs:
  assumes "batch_pool_wf q" "b < BATCH_BUF_COUNT"
  shows "buf_ok (b \<notin> set (bp_free_list q)) (bp_bufs q ! b)" "b < length (bp_bufs q)"
  using assms by (auto simp: batch_pool_wf_def)

text \<open>The pool after a frame of buffer \<open>b\<close> completed: the count is lowered, and with the last frame the buffer is
  returned.\<close>

definition batch_after :: "nat \<Rightarrow> batch_pool \<Rightarrow> batch_pool option" where
  "batch_after b q =
     (let x = bp_bufs q ! b; q = q\<lparr>bp_bufs := (bp_bufs q)[b := x\<lparr>bb_frames_pending := bb_frames_pending x - 1\<rparr>]\<rparr>
      in if bb_frames_pending x - 1 = 0 then batch_pool_put q b else Some q)"

lemma batch_after_wf:
  assumes "batch_pool_wf q" "b \<in> batch_pool_used q"
  shows "\<exists>q'. batch_after b q = Some q' \<and> batch_pool_wf q' \<and>
    (\<forall>j. j \<noteq> b \<longrightarrow> bp_bufs q' ! j = bp_bufs q ! j) \<and>
    bb_frames_pending (bp_bufs q' ! b) = bb_frames_pending (bp_bufs q ! b) - 1 \<and>
    length (bp_bufs q') = length (bp_bufs q) \<and> bp_free_count q \<le> bp_free_count q' \<and>
    bb_virt (bp_bufs q' ! b) = bb_virt (bp_bufs q ! b) \<and> bb_frames (bp_bufs q' ! b) = bb_frames (bp_bufs q ! b) \<and>
    (if bb_frames_pending (bp_bufs q ! b) = 1 then batch_pool_used q' = batch_pool_used q - {b}
     else batch_pool_used q' = batch_pool_used q \<and> bb_tx_msg (bp_bufs q' ! b) = bb_tx_msg (bp_bufs q ! b))"
proof -
  let ?x = "bp_bufs q ! b"
  let ?y = "?x\<lparr>bb_frames_pending := bb_frames_pending ?x - 1\<rparr>"
  let ?q = "q\<lparr>bp_bufs := (bp_bufs q)[b := ?y]\<rparr>"
  have b: "b < BATCH_BUF_COUNT" using assms(2) by (simp add: batch_pool_used_def)
  note bb = batch_pool_bufs [OF assms(1) b]
  have y: "buf_ok (b \<notin> set (bp_free_list q)) ?y" using bb(1) by (simp add: buf_ok_def)
  note up = batch_buf_upd_wf [OF assms(1) b y]
  show ?thesis
  proof (cases "bb_frames_pending ?x = 1")
    case False
    with up bb show ?thesis by (intro exI [of _ ?q]) (simp add: batch_after_def Let_def)
  next
    case True
    obtain q' where q': "batch_pool_put ?q b = Some q'" "batch_pool_wf q'" "batch_pool_used q' = batch_pool_used q - {b}"
      using batch_pool_put_slot [OF up(1), of b] assms(2) up(2) by auto
    then have "q' = ?q\<lparr>bp_bufs := (bp_bufs ?q)[b := ?y\<lparr>bb_in_use := False, bb_tx_msg := None\<rparr>],
        bp_free_list := bp_free_list ?q @ [b], bp_free_count := bp_free_count ?q + 1\<rparr>"
      using bb(2) by (simp add: batch_pool_put_def split: if_splits)
    with True q' bb show ?thesis by (intro exI [of _ q']) (simp add: batch_after_def Let_def)
  qed
qed

lemma tx_batch_callback_eq:
  assumes "b < length (bp_bufs (dev_bpool d))" "bb_tx_msg (bp_bufs (dev_bpool d) ! b) = Some m" "dev_msgs d m = Some msg"
    "batch_after b (dev_bpool d) = Some q"
  shows "tx_batch_callback True (BatchFrame b i) c d = tx_msg_frame_done m False
    (d\<lparr>dev_msgs := (dev_msgs d)(m \<mapsto> msg\<lparr>tm_failed := (tm_failed msg \<or> c)\<rparr>), dev_bpool := q\<rparr>)"
proof -
  let ?x = "bp_bufs (dev_bpool d) ! b"
  let ?q = "(dev_bpool d)\<lparr>bp_bufs := (bp_bufs (dev_bpool d))[b := ?x\<lparr>bb_frames_pending := bb_frames_pending ?x - 1\<rparr>]\<rparr>"
  let ?d1 = "d\<lparr>dev_msgs := (dev_msgs d)(m \<mapsto> msg\<lparr>tm_failed := (tm_failed msg \<or> c)\<rparr>)\<rparr>"
  have id: "d\<lparr>dev_msgs := (dev_msgs d)(m \<mapsto> msg)\<rparr> = d" using assms(3) by (simp add: fun_upd_idem)
  have mark: "(if c then upd_msg m (\<lambda>msg. msg\<lparr>tm_failed := True\<rparr>) d else Some d) = Some ?d1"
    using assms(3) id by (cases c) (simp_all add: upd_msg_def)
  have dec: "upd_batch b (\<lambda>x. x\<lparr>bb_frames_pending := bb_frames_pending x - 1\<rparr>) ?d1 = Some (?d1\<lparr>dev_bpool := ?q\<rparr>)"
    using assms(1) by (simp add: upd_batch_def Let_def)
  have put: "(if bb_frames_pending ?x - 1 = 0
      then do { p \<leftarrow> batch_pool_put (dev_bpool (?d1\<lparr>dev_bpool := ?q\<rparr>)) b; Some (?d1\<lparr>dev_bpool := ?q\<rparr>\<lparr>dev_bpool := p\<rparr>) }
      else Some (?d1\<lparr>dev_bpool := ?q\<rparr>)) = Some (?d1\<lparr>dev_bpool := q\<rparr>)"
    using assms(4) by (simp add: batch_after_def Let_def split: if_splits)
  have "get_batch b d = Some ?x" using assms(1) by (simp add: get_batch_def Let_def)
  then show ?thesis
    unfolding tx_batch_callback_def using assms(2) mark dec put by simp
qed

lemma tx_batch_callback_none:
  assumes "b < length (bp_bufs (dev_bpool d))" "bb_tx_msg (bp_bufs (dev_bpool d) ! b) = None"
    "batch_after b (dev_bpool d) = Some q"
  shows "tx_batch_callback True (BatchFrame b i) c d = Some (d\<lparr>dev_bpool := q\<rparr>)"
  using assms
  by (cases "bb_frames_pending (bp_bufs (dev_bpool d) ! b) - 1 = 0")
    (simp_all add: tx_batch_callback_def get_batch_def upd_batch_def batch_after_def Let_def)

lemma frame_owner_batch:
  assumes "\<And>j. j \<noteq> b \<Longrightarrow> bp_bufs (dev_bpool d') ! j = bp_bufs (dev_bpool d) ! j"
    "length (bp_bufs (dev_bpool d')) = length (bp_bufs (dev_bpool d))" "dev_pool d' = dev_pool d"
    "is_batch_frame b r \<Longrightarrow> bb_tx_msg (bp_bufs (dev_bpool d') ! b) = bb_tx_msg (bp_bufs (dev_bpool d) ! b)"
  shows "frame_owner d' r = frame_owner d r"
proof (cases r)
  case (BatchFrame b' i)
  then show ?thesis using assms by (cases "b' = b") (simp_all add: frame_owner_def get_batch_def is_batch_frame_def Let_def)
qed (use assms(3) in \<open>simp_all add: frame_owner_def get_slot_def\<close>)

lemma batch_frames_out_pos: "BatchFrame b i \<in> set (dev_tx_pending d) \<Longrightarrow> 0 < batch_frames_out d b"
  unfolding batch_frames_out_def
  by (rule length_pos_if_in_set [of "BatchFrame b i"]) (simp add: is_batch_frame_def)

lemma no_batch_frame: "batch_frames_out d b = 0 \<Longrightarrow> r \<in> set (dev_tx_pending d) \<Longrightarrow> \<not> is_batch_frame b r"
  by (auto simp: batch_frames_out_def filter_empty_conv)

text \<open>The ring and the batch pool after a batch frame left.\<close>

lemma tx_base_batch_left:
  assumes "tx_base refs bc d" "BatchFrame b i \<in> set (dev_tx_pending d)"
  defines "d1 \<equiv> d\<lparr>dev_tx_pending := remove1 (BatchFrame b i) (dev_tx_pending d)\<rparr>"
  shows "\<exists>q. batch_after b (dev_bpool d) = Some q \<and> tx_base refs bc (d1\<lparr>dev_bpool := q\<rparr>) \<and>
    bp_free_count (dev_bpool d) \<le> bp_free_count q \<and>
    (\<forall>j. bb_virt (bp_bufs q ! j) = bb_virt (bp_bufs (dev_bpool d) ! j) \<and>
       bb_frames (bp_bufs q ! j) = bb_frames (bp_bufs (dev_bpool d) ! j) \<and>
       (0 < bc j \<longrightarrow> bb_tx_msg (bp_bufs q ! j) = bb_tx_msg (bp_bufs (dev_bpool d) ! j))) \<and>
    (\<forall>r \<in> set (dev_tx_pending d) - {BatchFrame b i}. frame_owner (d1\<lparr>dev_bpool := q\<rparr>) r = frame_owner d r)"
proof -
  let ?r = "BatchFrame b i"
  note I = tx_baseD [OF assms(1)]
  have b: "b < BATCH_BUF_COUNT" by (rule I(12) [OF assms(2)])
  have used: "b \<in> batch_pool_used (dev_bpool d)" using I(11) [OF b] batch_frames_out_pos [OF assms(2)] by simp
  obtain q where q: "batch_after b (dev_bpool d) = Some q" "batch_pool_wf q"
    "\<And>j. j \<noteq> b \<Longrightarrow> bp_bufs q ! j = bp_bufs (dev_bpool d) ! j"
    "bb_frames_pending (bp_bufs q ! b) = bb_frames_pending (bp_bufs (dev_bpool d) ! b) - 1"
    "length (bp_bufs q) = length (bp_bufs (dev_bpool d))" "bp_free_count (dev_bpool d) \<le> bp_free_count q"
    "bb_virt (bp_bufs q ! b) = bb_virt (bp_bufs (dev_bpool d) ! b)"
    "bb_frames (bp_bufs q ! b) = bb_frames (bp_bufs (dev_bpool d) ! b)"
    "if bb_frames_pending (bp_bufs (dev_bpool d) ! b) = 1 then batch_pool_used q = batch_pool_used (dev_bpool d) - {b}
     else batch_pool_used q = batch_pool_used (dev_bpool d) \<and>
       bb_tx_msg (bp_bufs q ! b) = bb_tx_msg (bp_bufs (dev_bpool d) ! b)"
    using batch_after_wf [OF I(2) used] by blast
  let ?d2 = "d1\<lparr>dev_bpool := q\<rparr>"
  have pend: "set (dev_tx_pending ?d2) = set (dev_tx_pending d) - {?r}" "distinct (dev_tx_pending ?d2)"
    using I(6) by (simp_all add: d1_def)
  have out: "batch_frames_out d j = batch_frames_out ?d2 j + (if j = b then 1 else 0)" for j
    using length_filter_remove1 [OF assms(2), of "is_batch_frame j"]
    by (auto simp: batch_frames_out_def d1_def is_batch_frame_def)
  have last: "bb_frames_pending (bp_bufs (dev_bpool d) ! b) = 1 \<longleftrightarrow> batch_frames_out ?d2 b = 0 \<and> bc b = 0"
    using I(9,10) [OF b] out [of b] by auto
  have own: "frame_owner ?d2 r = frame_owner d r" if "r \<in> set (dev_tx_pending d) - {?r}" for r
  proof (rule frame_owner_batch [of b])
    assume "is_batch_frame b r"
    with that pend no_batch_frame [of ?d2 b r] have "batch_frames_out ?d2 b \<noteq> 0" by auto
    with last q(9) show "bb_tx_msg (bp_bufs (dev_bpool ?d2) ! b) = bb_tx_msg (bp_bufs (dev_bpool d) ! b)" by simp
  qed (use q in \<open>simp_all add: d1_def\<close>)
  have "tx_base refs bc ?d2"
  proof (rule tx_base_ring [OF assms(1)])
    fix j
    assume j: "j < BATCH_BUF_COUNT"
    show "0 \<le> bc j \<and> bb_frames_pending (bp_bufs (dev_bpool ?d2) ! j) = int (batch_frames_out ?d2 j) + bc j \<and>
       (0 < batch_frames_out ?d2 j \<or> 0 < bc j \<longrightarrow> j \<in> batch_pool_used (dev_bpool ?d2))"
      using I(9-11) [OF j] q(3,4,9) out [of j] last by (cases "j = b") (auto split: if_splits)
  next
    show "r \<in> set (dev_tx_pending ?d2) \<Longrightarrow> frame_owner ?d2 r = Some m \<Longrightarrow> dev_msgs d m \<noteq> None" for r m
      using own I(8) pend by auto
  qed (use I q(2) pend in \<open>auto simp: same_objects_def d1_def\<close>)
  moreover have "bb_virt (bp_bufs q ! j) = bb_virt (bp_bufs (dev_bpool d) ! j) \<and>
      bb_frames (bp_bufs q ! j) = bb_frames (bp_bufs (dev_bpool d) ! j) \<and>
      (0 < bc j \<longrightarrow> bb_tx_msg (bp_bufs q ! j) = bb_tx_msg (bp_bufs (dev_bpool d) ! j))" for j
    using q(3,7-9) last by (cases "j = b") (auto split: if_splits)
  ultimately show ?thesis using q(1,6) own by blast
qed

lemma tx_complete_batch:
  assumes "tx_wf refs senders mc bc d" "BatchFrame b i \<in> set (dev_tx_pending d)"
  shows "\<exists>d'. tx_complete (BatchFrame b i, c) d = Some d' \<and> tx_wf refs senders mc bc d' \<and>
    undisturbed senders bc d d'"
proof -
  let ?r = "BatchFrame b i"
  note base = tx_wfD(1) [OF assms(1)]
  note I = tx_baseD [OF base]
  let ?d1 = "d\<lparr>dev_tx_pending := remove1 ?r (dev_tx_pending d)\<rparr>"
  obtain q where q: "batch_after b (dev_bpool d) = Some q" "tx_base refs bc (?d1\<lparr>dev_bpool := q\<rparr>)"
    "undisturbed senders bc d (?d1\<lparr>dev_bpool := q\<rparr>)"
    "\<And>r. r \<in> set (dev_tx_pending d) \<Longrightarrow> r \<noteq> ?r \<Longrightarrow> frame_owner (?d1\<lparr>dev_bpool := q\<rparr>) r = frame_owner d r"
    using tx_base_batch_left [OF base assms(2)] by (auto simp: undisturbed_def set_remove1_subset)
  have b: "b < length (bp_bufs (dev_bpool d))" using I(2) I(12) [OF assms(2)] by (simp add: batch_pool_wf_def)
  let ?d2 = "?d1\<lparr>dev_bpool := q\<rparr>"
  have left: "case frame_owner d ?r of None \<Rightarrow> tx_wf refs senders mc bc ?d2 | Some m \<Rightarrow> frame_left senders mc m ?d2"
    by (rule msgs_after_remove [OF assms(1) q(2)]) (use assms(2) q(4) in auto)
  have owner: "frame_owner d ?r = bb_tx_msg (bp_bufs (dev_bpool d) ! b)"
    using b by (simp add: frame_owner_def get_batch_def Let_def)
  have tc: "tx_complete (?r, c) d = tx_batch_callback True ?r c ?d1" using assms(2) by (simp add: tx_complete_def Let_def)
  show ?thesis
  proof (cases "frame_owner d ?r")
    case None
    then have "tx_complete (?r, c) d = Some ?d2"
      unfolding tc using owner b q(1) tx_batch_callback_none [of b ?d1 q i c] by simp
    with left None q(3) show ?thesis by simp
  next
    case (Some m)
    obtain msg where msg: "dev_msgs d m = Some msg" using I(8) [OF assms(2) Some] by blast
    let ?msg = "msg\<lparr>tm_failed := (tm_failed msg \<or> c)\<rparr>"
    let ?d3 = "?d1\<lparr>dev_msgs := (dev_msgs d)(m \<mapsto> ?msg), dev_bpool := q\<rparr>"
    have eq: "tx_complete (?r, c) d = tx_msg_frame_done m False ?d3"
      unfolding tc using tx_batch_callback_eq [of b ?d1 m msg q i c] owner b q(1) msg Some by simp
    have d3: "?d3 = ?d2\<lparr>dev_msgs := (dev_msgs ?d2)(m \<mapsto> ?msg)\<rparr>" by simp
    have base3: "tx_base refs bc ?d3" unfolding d3 by (rule tx_base_msg [OF q(2)]) (use msg in simp_all)
    have out: "msg_frames_out ?d3 = msg_frames_out ?d2" by (rule frame_accounting_cong) simp_all
    have "frame_left senders mc m ?d3" using left Some msg unfolding frame_left_def out by auto
    from tx_msg_frame_done_wf [OF base3 this, of False] obtain H M where
      fin: "tx_msg_frame_done m False ?d3 = Some (?d3\<lparr>dev_heap := H, dev_msgs := M\<rparr>)"
      "tx_wf refs senders mc bc (?d3\<lparr>dev_heap := H, dev_msgs := M\<rparr>)"
      "\<forall>k \<in> senders. map_option tm_sent (M k) = map_option tm_sent (dev_msgs ?d3 k)" by blast
    moreover have "undisturbed senders bc d (?d3\<lparr>dev_heap := H, dev_msgs := M\<rparr>)"
      using fin(3) q(3) msg by (auto simp: undisturbed_def set_remove1_subset)
    ultimately show ?thesis unfolding eq by (intro exI [of _ "?d3\<lparr>dev_heap := H, dev_msgs := M\<rparr>"] conjI)
  qed
qed

text \<open>Frames of the legacy descriptor arrays belong to no message.\<close>

lemma tx_legacy_left:
  assumes "tx_wf refs senders mc bc d" "r \<in> set (dev_tx_pending d)" "\<And>i. r \<noteq> PoolSlot i" "\<And>b i. r \<noteq> BatchFrame b i"
  shows "tx_wf refs senders mc bc (d\<lparr>dev_tx_pending := remove1 r (dev_tx_pending d)\<rparr>)"
proof -
  let ?d = "d\<lparr>dev_tx_pending := remove1 r (dev_tx_pending d)\<rparr>"
  note base = tx_wfD(1) [OF assms(1)]
  note I = tx_baseD [OF base]
  have fo: "frame_owner ?d = frame_owner d" by (rule frame_accounting_cong) simp_all
  have own: "frame_owner d r = None" using assms(3,4) by (cases r) (auto simp: frame_owner_def)
  have "batch_frames_out ?d b = batch_frames_out d b" for b
    using frames_out_remove(2) [of ?d r d b] assms(2-4) I(6) fo by (cases r) (auto simp: is_batch_frame_def)
  then have "tx_base refs bc ?d" using I notin_set_remove1
    by (intro tx_base_ring [OF base]) (auto simp: same_objects_def fo dest: in_set_remove1 [THEN iffD1])
  from msgs_after_remove [OF assms(1) this _ _ assms(2)] own fo show ?thesis by simp
qed

lemma tx_wf_count: "tx_wf refs senders mc bc (d\<lparr>dev_tx := (dev_tx d)\<lparr>rc_completed := n\<rparr>\<rparr>) = tx_wf refs senders mc bc d"
proof -
  let ?d = "d\<lparr>dev_tx := (dev_tx d)\<lparr>rc_completed := n\<rparr>\<rparr>"
  have acc: "frame_owner ?d = frame_owner d" "msg_frames_out ?d = msg_frames_out d"
    "batch_frames_out ?d = batch_frames_out d" "stream_msgs ?d = stream_msgs d"
    by (rule frame_accounting_cong stream_msgs_cong; simp)+
  have "streams_wf ext ?d = streams_wf ext d" for ext
    by (simp add: streams_wf_def rx_base_ok_def stream_num_def [abs_def])
  then show ?thesis unfolding tx_wf_def tx_base_def acc by simp
qed

text \<open>A completion of any frame, at any time.\<close>

lemma tx_complete_wf:
  assumes "tx_wf refs senders mc bc d"
  shows "\<exists>d'. tx_complete rc d = Some d' \<and> tx_wf refs senders mc bc d' \<and> undisturbed senders bc d d'"
proof -
  obtain r c where rc: "rc = (r, c)" by (cases rc)
  show ?thesis
  proof (cases "r \<in> set (dev_tx_pending d)")
    case False
    with rc assms show ?thesis by (simp add: tx_complete_def)
  next
    case True
    show ?thesis
    proof (cases "(\<exists>i. r = PoolSlot i) \<or> (\<exists>b i. r = BatchFrame b i)")
      case True
      with \<open>r \<in> set (dev_tx_pending d)\<close> tx_complete_pool [OF assms] tx_complete_batch [OF assms] rc
      show ?thesis by blast
    next
      case False
      let ?x = "(dev_tx d)\<lparr>rc_completed := rc_completed (dev_tx d) + 1\<rparr>"
      let ?d = "d\<lparr>dev_tx_pending := remove1 r (dev_tx_pending d)\<rparr>"
      have "tx_complete rc d = Some (if c then ?d else ?d\<lparr>dev_tx := ?x\<rparr>)"
        using rc True False by (cases r) (auto simp: tx_complete_def tx_callback_def Let_def)
      moreover have "tx_wf refs senders mc bc ?d" by (rule tx_legacy_left [OF assms True]) (use False in auto)
      then have "tx_wf refs senders mc bc (if c then ?d else ?d\<lparr>dev_tx := ?x\<rparr>)"
        using tx_wf_count [where d = ?d and n = "rc_completed (dev_tx d) + 1"] by simp
      ultimately show ?thesis by (simp add: undisturbed_def set_remove1_subset)
    qed
  qed
qed

lemma tx_complete_all_wf:
  assumes "tx_wf refs senders mc bc d"
  shows "\<exists>d'. tx_complete_all rcs d = Some d' \<and> tx_wf refs senders mc bc d' \<and> undisturbed senders bc d d'"
  using assms
proof (induction rcs arbitrary: d)
  case (Cons rc rcs)
  obtain d1 where d1: "tx_complete rc d = Some d1" "tx_wf refs senders mc bc d1" "undisturbed senders bc d d1"
    using tx_complete_wf [OF Cons.prems] by blast
  from Cons.IH [OF d1(2)] obtain d2 where "tx_complete_all rcs d1 = Some d2" "tx_wf refs senders mc bc d2"
    "undisturbed senders bc d1 d2" by blast
  with d1 undisturbed_trans show ?case by auto
qed simp

end
