(* ===== verification/Tx_Send.thy ===== *)
theory Tx_Send
  imports Tx_Safety
begin

text \<open>
  The two send loops keep the invariant of \<^verbatim>\<open>Tx_Safety\<close> under every schedule of completions and put on the wire exactly
  the frames of \<open>msg_frames\<close>: all of them when they succeed, a prefix when they give up or are still waiting.
\<close>

section \<open>Begin and end of a send\<close>

lemma no_frames_out: "tx_base refs bc d \<Longrightarrow> dev_msgs d m = None \<Longrightarrow> msg_frames_out d m = 0"
  using tx_baseD(8) by (fastforce simp: msg_frames_out_def filter_empty_conv)

lemma tx_begin_wf:
  assumes "tx_wf refs senders mc bc d" "dev_msgs d m = None" "dev_heap d a = Some s" "mc m = 0"
  shows "\<exists>H M. tx_begin m a dst len d = Some (d\<lparr>dev_msgs := M, dev_heap := H\<rparr>) \<and>
    tx_wf refs (insert m senders) mc bc (d\<lparr>dev_msgs := M, dev_heap := H\<rparr>) \<and>
    M = (dev_msgs d)(m \<mapsto> new_tx_msg dst len a) \<and> map_option st_id (H a) = Some (st_id s)"
proof -
  note base = tx_wfD(1) [OF assms(1)]
  note I = tx_baseD [OF base]
  let ?msg = "new_tx_msg dst len a"
  let ?M = "(dev_msgs d)(m \<mapsto> ?msg)"
  let ?s = "s\<lparr>st_refcount := Suc (st_refcount s), st_tx_in_flight := st_tx_in_flight s + 1\<rparr>"
  let ?H = "(dev_heap d)(a \<mapsto> ?s)"
  let ?d = "d\<lparr>dev_msgs := ?M, dev_heap := ?H\<rparr>"
  have sm: "stream_msgs ?d = (stream_msgs d)(a := Suc (stream_msgs d a))"
    using stream_msgs_add [OF I(4) assms(2), of ?d ?msg] by (simp add: new_tx_msg_def)
  have "stream_ok (refs a + stream_msgs d a) (a \<in> set (dev_streams d)) (Some s)"
    using streams_wfD(6) [OF I(5), of a] assms(3) by simp
  then have ok: "stream_ok (refs a + stream_msgs ?d a) (a \<in> set (dev_streams d)) (Some ?s)"
    unfolding sm by (auto simp: stream_ok_def)
  have "streams_wf (\<lambda>a. refs a + stream_msgs ?d a) (d\<lparr>dev_heap := ?H\<rparr>)"
    by (rule streams_wf_upd(1) [OF I(5) assms(3)]) (use ok in \<open>simp_all add: sm\<close>)
  then have str: "streams_wf (\<lambda>a. refs a + stream_msgs ?d a) ?d"
    by (rule streams_wf_cong) (use I(1) in simp_all)
  have fin: "finite (dom ?M)" using I(4) by simp
  have ro: "d\<lparr>dev_heap := ?H, dev_msgs := ?M\<rparr> = ?d" by simp
  have base': "tx_base refs bc ?d"
    using tx_base_heap [OF base fin, of ?H] str I(4) unfolding ro by auto
  have out: "msg_frames_out ?d = msg_frames_out d" by (rule frame_accounting_cong) simp_all
  have "msg_ok (k \<in> insert m senders) (msg_frames_out ?d k) (mc k) x" if "dev_msgs ?d k = Some x" for k x
    unfolding out using that tx_wfD(2) [OF assms(1), of k x] no_frames_out [OF base assms(2)] assms(4)
    by (auto simp: msg_ok_def new_tx_msg_def split: if_splits)
  with base' have "tx_wf refs (insert m senders) mc bc ?d" unfolding tx_wf_def by blast
  moreover have "tx_begin m a dst len d = Some ?d" using assms(3) by (simp add: tx_begin_def upd_stream_def)
  ultimately show ?thesis by auto
qed

text \<open>A running send may write its own message.\<close>

lemma tx_wf_msg:
  assumes "tx_wf refs senders mc bc d" "dev_msgs d m = Some msg" "tm_stream x = tm_stream msg"
    "msg_ok (m \<in> senders') (msg_frames_out d m) (mc' m) x" "senders' - {m} = senders - {m}"
    "\<And>k. k \<noteq> m \<Longrightarrow> mc' k = mc k"
  shows "tx_wf refs senders' mc' bc (d\<lparr>dev_msgs := (dev_msgs d)(m \<mapsto> x)\<rparr>)"
proof -
  let ?d = "d\<lparr>dev_msgs := (dev_msgs d)(m \<mapsto> x)\<rparr>"
  have out: "msg_frames_out ?d = msg_frames_out d" by (rule frame_accounting_cong) simp_all
  have "msg_ok (k \<in> senders') (msg_frames_out ?d k) (mc' k) y" if "dev_msgs ?d k = Some y" for k y
    unfolding out
  proof (cases "k = m")
    case False
    with assms(5) have "k \<in> senders' \<longleftrightarrow> k \<in> senders" by blast
    with False that tx_wfD(2) [OF assms(1), of k y] assms(6) show "msg_ok (k \<in> senders') (msg_frames_out d k) (mc' k) y" by simp
  qed (use that assms(4) in simp)
  with tx_base_msg [OF tx_wfD(1) [OF assms(1)] assms(2,3)] show ?thesis unfolding tx_wf_def by blast
qed

lemma tx_finish_wf:
  assumes "tx_wf refs senders mc bc d" "m \<in> senders" "dev_msgs d m = Some msg" "mc m = 0"
  shows "\<exists>d'. tx_finish m d = Some d' \<and> tx_wf refs (senders - {m}) mc bc d' \<and> undisturbed (senders - {m}) bc d d'"
proof -
  have ok: "tm_frames_pending msg = int (msg_frames_out d m)" "tm_completion_ref msg = 1" "tm_refs msg = 2"
    using tx_wfD(2) [OF assms(1,3)] assms(2,4) by (auto simp: msg_ok_def)
  let ?up = "\<lambda>x. d\<lparr>dev_msgs := (dev_msgs d)(m \<mapsto> x)\<rparr>"
  show ?thesis
  proof (cases "msg_frames_out d m = 0")
    case False
    let ?x = "msg\<lparr>tm_done := True, tm_refs := 1\<rparr>"
    have "tx_finish m d = Some (?up ?x)"
      using False ok assms(3) by (simp add: tx_finish_def upd_msg_def tx_msg_maybe_complete_def tx_msg_put_def numeral_2_eq_2)
    moreover have "tx_wf refs (senders - {m}) mc bc (?up ?x)"
      by (rule tx_wf_msg [OF assms(1,3)]) (use False ok assms(4) in \<open>auto simp: msg_ok_def\<close>)
    ultimately show ?thesis by (auto simp: undisturbed_def)
  next
    case True
    let ?x = "msg\<lparr>tm_done := True, tm_completion_ref := 0, tm_refs := 1\<rparr>"
    let ?d1 = "?up ?x"
    have base1: "tx_base refs bc ?d1" by (rule tx_base_msg [OF tx_wfD(1) [OF assms(1)] assms(3)]) simp
    note I = tx_baseD [OF base1]
    have eq: "tx_finish m d = tx_msg_put m ?d1"
      using True ok assms(3) by (simp add: tx_finish_def upd_msg_def tx_msg_maybe_complete_def tx_msg_put_def numeral_2_eq_2)
    obtain H where H: "tx_msg_put m ?d1 = Some (?d1\<lparr>dev_heap := H, dev_msgs := (dev_msgs ?d1)(m := None)\<rparr>)"
      "streams_wf (\<lambda>a. refs a + stream_msgs (?d1\<lparr>dev_heap := H, dev_msgs := (dev_msgs ?d1)(m := None)\<rparr>) a)
        (?d1\<lparr>dev_heap := H, dev_msgs := (dev_msgs ?d1)(m := None)\<rparr>)"
      using tx_msg_put_last [OF I(5,4), of m ?x] by auto
    let ?d2 = "?d1\<lparr>dev_heap := H, dev_msgs := (dev_msgs ?d1)(m := None)\<rparr>"
    have out: "msg_frames_out ?d1 = msg_frames_out d" "msg_frames_out ?d2 = msg_frames_out d"
      by (rule frame_accounting_cong; simp)+
    have "tx_base refs bc ?d2"
      by (rule tx_base_heap [OF base1 _ H(2)]) (use I(4) True out(1) in \<open>auto split: if_splits\<close>)
    moreover have "msg_ok (k \<in> senders - {m}) (msg_frames_out ?d2 k) (mc k) y" if "dev_msgs ?d2 k = Some y" for k y
      using that tx_wfD(2) [OF assms(1), of k y] out(2) by (simp split: if_splits)
    ultimately have "tx_wf refs (senders - {m}) mc bc ?d2" unfolding tx_wf_def by blast
    with H(1) show ?thesis unfolding eq by (auto simp: undisturbed_def)
  qed
qed

lemma undisturbed_alive:
  assumes "undisturbed senders bc d d'" "m \<in> senders" "dev_msgs d m = Some msg"
  shows "\<exists>msg'. dev_msgs d' m = Some msg' \<and> tm_sent msg' = tm_sent msg"
proof -
  have "map_option tm_sent (dev_msgs d' m) = map_option tm_sent (dev_msgs d m)"
    using assms(1,2) by (simp add: undisturbed_def)
  with assms(3) show ?thesis by auto
qed

lemma tx_abort_wf:
  assumes "tx_wf refs senders mc bc d" "m \<in> senders" "dev_msgs d m = Some msg" "mc m = 0"
  shows "\<exists>d'. tx_abort last_done m d = Some d' \<and> tx_wf refs (senders - {m}) mc bc d' \<and> dev_wire d' = dev_wire d"
proof -
  let ?x = "msg\<lparr>tm_failed := True\<rparr>"
  let ?d = "d\<lparr>dev_msgs := (dev_msgs d)(m \<mapsto> ?x)\<rparr>"
  have wf: "tx_wf refs senders mc bc ?d"
    by (rule tx_wf_msg [OF assms(1,3)]) (use tx_wfD(2) [OF assms(1,3)] in \<open>auto simp: msg_ok_def\<close>)
  obtain d1 where d1: "(if 0 < tm_frames_pending ?x then tx_complete_all last_done ?d else Some ?d) = Some d1"
    "tx_wf refs senders mc bc d1" "undisturbed senders bc ?d d1"
    using tx_complete_all_wf [OF wf, of last_done] wf by (cases "0 < tm_frames_pending ?x") auto
  obtain y where y: "dev_msgs d1 m = Some y" using undisturbed_alive [OF d1(3) assms(2)] by auto
  have eq: "tx_abort last_done m d = tx_finish m d1"
    using d1(1) assms(3) by (simp add: tx_abort_def upd_msg_def)
  show ?thesis unfolding eq using tx_finish_wf [OF d1(2) assms(2) y assms(4)] d1(3) by (auto simp: undisturbed_def)
qed

section \<open>Submitting a frame\<close>

lemma tx_base_submit:
  assumes "tx_base refs bc d" "r \<notin> set (dev_tx_pending d)" "frame_owner d r = Some m" "dev_msgs d m \<noteq> None"
    "\<And>i. r = PoolSlot i \<Longrightarrow> i \<in> frame_pool_used (dev_pool d)"
    "\<And>b i. r = BatchFrame b i \<Longrightarrow> b < BATCH_BUF_COUNT \<and> 0 < bc b"
    and d': "d' = d\<lparr>dev_tx_pending := dev_tx_pending d @ [r], dev_wire := w\<rparr>"
  shows "tx_base refs (\<lambda>b. bc b - (if is_batch_frame b r then 1 else 0)) d'"
    "msg_frames_out d' k = msg_frames_out d k + (if k = m then 1 else 0)"
proof -
  note I = tx_baseD [OF assms(1)]
  have fo: "frame_owner d' = frame_owner d" by (rule frame_accounting_cong) (simp_all add: d')
  then show "msg_frames_out d' k = msg_frames_out d k + (if k = m then 1 else 0)"
    using assms(3) by (simp add: msg_frames_out_def d')
  have out: "batch_frames_out d' b = batch_frames_out d b + (if is_batch_frame b r then 1 else 0)" for b
    by (simp add: batch_frames_out_def d')
  show "tx_base refs (\<lambda>b. bc b - (if is_batch_frame b r then 1 else 0)) d'"
  proof (rule tx_base_ring [OF assms(1)])
    fix b
    assume b: "b < BATCH_BUF_COUNT"
    have pos: "0 < bc b" if "is_batch_frame b r"
      using that assms(6) by (auto simp: is_batch_frame_def split: frame_ref.splits)
    show "0 \<le> bc b - (if is_batch_frame b r then 1 else 0) \<and>
       bb_frames_pending (bp_bufs (dev_bpool d') ! b) =
         int (batch_frames_out d' b) + (bc b - (if is_batch_frame b r then 1 else 0)) \<and>
       (0 < batch_frames_out d' b \<or> 0 < bc b - (if is_batch_frame b r then 1 else 0) \<longrightarrow>
          b \<in> batch_pool_used (dev_bpool d'))"
      using I(9-11) [OF b] out pos by (auto simp: d')
  next
    show "\<And>r' m. r' \<in> set (dev_tx_pending d') \<Longrightarrow> frame_owner d' r' = Some m \<Longrightarrow> dev_msgs d m \<noteq> None"
      using I(8) assms(3,4) by (auto simp: d' fo [unfolded d'])
  qed (use I assms(2,5,6) in \<open>auto simp: same_objects_def d'\<close>)
qed

section \<open>A frame in latency mode\<close>

text \<open>A slot that is not on the ring may be taken, written and returned.\<close>

lemma tx_wf_slot:
  assumes "tx_wf refs senders mc bc d" "PoolSlot i \<notin> set (dev_tx_pending d)" "frame_pool_wf p"
    "frame_pool_used (dev_pool d) - {i} \<subseteq> frame_pool_used p" "\<And>j. j \<noteq> i \<Longrightarrow> get_slot j (d\<lparr>dev_pool := p\<rparr>) = get_slot j d"
  shows "tx_wf refs senders mc bc (d\<lparr>dev_pool := p\<rparr>)"
proof -
  let ?d = "d\<lparr>dev_pool := p\<rparr>"
  note base = tx_wfD(1) [OF assms(1)]
  note I = tx_baseD [OF base]
  have own: "frame_owner ?d r = frame_owner d r" if "r \<in> set (dev_tx_pending d)" for r
    using that assms(2,5) by (intro frame_owner_pool [of i]) auto
  have out: "msg_frames_out ?d k = msg_frames_out d k" "batch_frames_out ?d k = batch_frames_out d k" for k
    using own by (auto simp: msg_frames_out_def batch_frames_out_def intro!: arg_cong [where f = length] filter_cong)
  have slots: "j \<in> frame_pool_used p" if "PoolSlot j \<in> set (dev_tx_pending d)" for j
    using that I(7) assms(2,4) by (cases "j = i") auto
  have "tx_base refs bc ?d"
    by (rule tx_base_ring [OF base]) (use I assms(3) own out slots in \<open>auto simp: same_objects_def\<close>)
  with tx_wfD(2) [OF assms(1)] show ?thesis by (simp add: tx_wf_def out)
qed

lemma frame_pool_get_slots:
  assumes "frame_pool_get p = Some (Some i, p')" "j \<noteq> i"
  shows "get_slot j (d\<lparr>dev_pool := p'\<rparr>) = get_slot j (d\<lparr>dev_pool := p\<rparr>)" "fp_free_count p' = fp_free_count p - 1"
proof -
  obtain bm ss where "fp_bitmap p = Some bm" "fp_slots p = Some ss" "p' = p\<lparr>fp_bitmap := Some (bm[i := True]),
      fp_slots := Some (ss[i := (ss ! i)\<lparr>fs_in_use := True, fs_tx_msg := None\<rparr>]), fp_free_count := fp_free_count p - 1\<rparr>"
    using assms(1) by (auto simp: frame_pool_get_def split: if_splits Option.bind_splits)
  with assms(2) show "get_slot j (d\<lparr>dev_pool := p'\<rparr>) = get_slot j (d\<lparr>dev_pool := p\<rparr>)"
    "fp_free_count p' = fp_free_count p - 1" by (simp_all add: get_slot_def)
qed

lemma fill_slot_ok:
  assumes "fs_virt slot = Some mem" "length mem = FRAME_SIZE" "length payload \<le> STREAM_PAYLOAD_MAX"
  obtains mem' where "fill_slot h payload ok slot = Some (slot\<lparr>fs_virt := Some mem'\<rparr>)" "length mem' = FRAME_SIZE"
    "ok \<Longrightarrow> take (STREAM_HDR_SIZE + length payload) mem' = hdr_bytes h @ payload"
proof -
  have room: "STREAM_HDR_SIZE + length payload < FRAME_SIZE" using assms(3) frame_fits by linarith
  define m1 where "m1 = hdr_bytes h @ drop STREAM_HDR_SIZE mem"
  have m1: "mem_write 0 (hdr_bytes h) mem = Some m1" "length m1 = FRAME_SIZE"
    using assms(2) room by (auto simp: mem_write_def m1_def)
  define m2 where "m2 = take STREAM_HDR_SIZE m1 @ payload @ drop (STREAM_HDR_SIZE + length payload) m1"
  have m2: "mem_write STREAM_HDR_SIZE payload m1 = Some m2" "length m2 = FRAME_SIZE"
    using m1(2) room by (auto simp: mem_write_def m2_def)
  have "take (STREAM_HDR_SIZE + length payload) m2 = hdr_bytes h @ payload" by (simp add: m2_def m1_def)
  with m1 m2 assms(1) show thesis by (intro that [of "if ok then m2 else m1"]) (auto simp: fill_slot_def)
qed

text \<open>Writing slot \<open>i\<close> of a pool.\<close>

lemma upd_slot_const:
  assumes "frame_pool_wf (dev_pool d)" "get_slot i d = Some slot" "slot_idx s' = slot_idx slot" "fs_in_use s' = fs_in_use slot"
    "map_option length (fs_virt s') = map_option length (fs_virt slot)"
  obtains p where "upd_slot i (\<lambda>_. s') d = Some (d\<lparr>dev_pool := p\<rparr>)" "frame_pool_wf p"
    "frame_pool_used p = frame_pool_used (dev_pool d)" "fp_free_count p = fp_free_count (dev_pool d)"
    "\<And>e j. get_slot j (e\<lparr>dev_pool := p\<rparr>) = (if j = i then Some s' else get_slot j d)"
proof -
  define f where "f s = (if s = slot then s' else s)" for s
  have "keeps_slot f" using assms(3-5) by (simp add: keeps_slot_def f_def)
  moreover obtain ss where ss: "fp_slots (dev_pool d) = Some ss" "i < length ss" "ss ! i = slot" "length ss = FRAME_POOL_SIZE"
    using assms(1) by (rule frame_pool_wfE) (use assms(2) in \<open>auto simp: get_slot_def split: if_splits\<close>)
  ultimately obtain p where p: "upd_slot i f d = Some (d\<lparr>dev_pool := p\<rparr>)" "frame_pool_wf p"
    "frame_pool_used p = frame_pool_used (dev_pool d)" "fp_free_count p = fp_free_count (dev_pool d)"
    using upd_slot_wf [OF assms(1), of i f] by auto
  have p': "p = (dev_pool d)\<lparr>fp_slots := Some (ss[i := s'])\<rparr>"
    using p(1) ss by (auto simp: upd_slot_def f_def dest!: arg_cong [where f = dev_pool])
  have "get_slot j (e\<lparr>dev_pool := p\<rparr>) = (if j = i then Some s' else get_slot j d)" for e j
    using ss by (simp add: p' get_slot_def)
  moreover have "upd_slot i (\<lambda>_. s') d = Some (d\<lparr>dev_pool := p\<rparr>)" using ss by (simp add: upd_slot_def p')
  ultimately show thesis using p that by blast
qed

text \<open>The state in which a send is between two frames.\<close>

lemma pool_return_wf:
  assumes "tx_wf refs senders mc bc d" "i \<in> frame_pool_used (dev_pool d)" "PoolSlot i \<notin> set (dev_tx_pending d)"
  obtains p where "pool_return i d = Some (d\<lparr>dev_pool := p\<rparr>)" "tx_wf refs senders mc bc (d\<lparr>dev_pool := p\<rparr>)"
proof -
  note I = tx_baseD [OF tx_wfD(1) [OF assms(1)]]
  obtain p where p: "frame_pool_put (dev_pool d) i = Some p" "frame_pool_wf p"
    "frame_pool_used p = frame_pool_used (dev_pool d) - {i}" "fp_free_count p = fp_free_count (dev_pool d) + 1"
    "\<And>j e. j \<noteq> i \<Longrightarrow> get_slot j (e\<lparr>dev_pool := p\<rparr>) = get_slot j d" using I(1) assms(2) by (rule frame_pool_put_eq) blast
  have "tx_wf refs senders mc bc (d\<lparr>dev_pool := p\<rparr>)"
    by (rule tx_wf_slot [OF assms(1,3)]) (use p in auto)
  with p(1) show thesis by (intro that) (simp add: pool_return_def)
qed

lemma tx_wf_submit_slot:
  assumes "tx_wf refs senders mc bc d" "PoolSlot i \<notin> set (dev_tx_pending d)" "i \<in> frame_pool_used (dev_pool d)"
    "get_slot i d = Some slot" "fs_tx_msg slot = Some m" "dev_msgs d m = Some msg" "m \<in> senders"
  shows "tx_wf refs senders mc bc (d\<lparr>dev_tx_pending := dev_tx_pending d @ [PoolSlot i], dev_wire := w,
    dev_msgs := (dev_msgs d)(m \<mapsto> msg\<lparr>tm_frames_pending := tm_frames_pending msg + 1, tm_sent := n\<rparr>)\<rparr>)"
proof -
  let ?d = "d\<lparr>dev_tx_pending := dev_tx_pending d @ [PoolSlot i], dev_wire := w\<rparr>"
  let ?x = "msg\<lparr>tm_frames_pending := tm_frames_pending msg + 1, tm_sent := n\<rparr>"
  have own: "frame_owner d (PoolSlot i) = Some m" using assms(4,5) by (simp add: frame_owner_def)
  have "dev_msgs d m \<noteq> None" using assms(6) by simp
  note sub = tx_base_submit [OF tx_wfD(1) [OF assms(1)] assms(2) own this, of ?d w]
  have base: "tx_base refs bc ?d" using sub(1) assms(3) by (simp add: is_batch_frame_def)
  have out: "msg_frames_out ?d k = msg_frames_out d k + (if k = m then 1 else 0)" for k using sub(2) assms(3) by simp
  let ?d' = "?d\<lparr>dev_msgs := (dev_msgs ?d)(m \<mapsto> ?x)\<rparr>"
  have out': "msg_frames_out ?d' = msg_frames_out ?d" by (rule frame_accounting_cong) simp_all
  have "tx_base refs bc ?d'" by (rule tx_base_msg [OF base]) (use assms(6) in simp_all)
  moreover have "msg_ok (k \<in> senders) (msg_frames_out ?d' k) (mc k) y" if "dev_msgs ?d' k = Some y" for k y
    unfolding out' out using that tx_wfD(2) [OF assms(1), of k] assms(6,7) by (auto simp: msg_ok_def split: if_splits)
  ultimately have "tx_wf refs senders mc bc ?d'" unfolding tx_wf_def by blast
  then show ?thesis by simp
qed

lemma pool_slot_mem:
  assumes "frame_pool_wf (dev_pool d)" "i < FRAME_POOL_SIZE"
  shows "\<exists>slot mem. get_slot i d = Some slot \<and> fs_virt slot = Some mem \<and> length mem = FRAME_SIZE"
proof -
  obtain ss bm where "fp_slots (dev_pool d) = Some ss" "length ss = FRAME_POOL_SIZE" "slot_ok (bm ! i) i (ss ! i)"
    using assms by (auto elim!: frame_pool_wfE)
  with assms(2) show ?thesis by (auto simp: get_slot_def slot_ok_def split: option.splits)
qed

text \<open>What a frame of a send does: with \<open>Inr\<close> the frame \<open>bs\<close> is on the wire and counted, with \<open>Inl\<close> nothing was sent.\<close>

definition frame_sent :: "nat \<Rightarrow> odl_device \<Rightarrow> byte list list \<Rightarrow> nat \<Rightarrow> odl_device \<Rightarrow> bool" where
  "frame_sent m d fs n d' \<longleftrightarrow> dev_wire d' = dev_wire d @ fs \<and>
     map_option tm_sent (dev_msgs d' m) = map_option (\<lambda>x. tm_sent x + n) (dev_msgs d m)"

lemma send_slot_wf:
  assumes "tx_wf refs senders mc bc d" "m \<in> senders" "dev_msgs d m = Some msg" "i \<in> frame_pool_used (dev_pool d)"
    "PoolSlot i \<notin> set (dev_tx_pending d)" "length payload \<le> STREAM_PAYLOAD_MAX"
  shows "\<exists>r d'. send_slot e m h payload i d = Some (r, d') \<and> tx_wf refs senders mc bc d' \<and>
    (case r of
       Inr _ \<Rightarrow> frame_sent m d [hdr_bytes h @ payload] (length payload) d' \<and>
         fp_free_count (dev_pool d') = fp_free_count (dev_pool d)
     | Inl _ \<Rightarrow> frame_sent m d [] 0 d' \<and> \<not> (te_copy_ok e 0 \<and> te_tx_ok e 0))"
proof -
  note I = tx_baseD [OF tx_wfD(1) [OF assms(1)]]
  have i: "i < FRAME_POOL_SIZE" using assms(4) frame_pool_used_bounded by blast
  obtain slot mem where slot: "get_slot i d = Some slot" "fs_virt slot = Some mem" "length mem = FRAME_SIZE"
    using pool_slot_mem [OF I(1) i] by blast
  obtain mem' where fill: "fill_slot h payload (te_copy_ok e 0) slot = Some (slot\<lparr>fs_virt := Some mem'\<rparr>)"
    "length mem' = FRAME_SIZE" "te_copy_ok e 0 \<Longrightarrow> take (STREAM_HDR_SIZE + length payload) mem' = hdr_bytes h @ payload"
    using fill_slot_ok [OF slot(2,3) assms(6)] by metis
  define s' where "s' = (if te_copy_ok e 0 then tx_desc m (length payload) (slot\<lparr>fs_virt := Some mem'\<rparr>)
    else slot\<lparr>fs_virt := Some mem'\<rparr>)"
  have keep: "slot_idx s' = slot_idx slot" "fs_in_use s' = fs_in_use slot"
    "map_option length (fs_virt s') = map_option length (fs_virt slot)"
    using slot(2,3) fill(2) by (auto simp: s'_def tx_desc_def)
  obtain p where p: "upd_slot i (\<lambda>_. s') d = Some (d\<lparr>dev_pool := p\<rparr>)" "frame_pool_wf p"
    "frame_pool_used p = frame_pool_used (dev_pool d)" "fp_free_count p = fp_free_count (dev_pool d)"
    "\<And>e j. get_slot j (e\<lparr>dev_pool := p\<rparr>) = (if j = i then Some s' else get_slot j d)"
    by (rule upd_slot_const [OF I(1) slot(1) keep]) blast
  let ?d1 = "d\<lparr>dev_pool := p\<rparr>"
  have wf1: "tx_wf refs senders mc bc ?d1" by (rule tx_wf_slot [OF assms(1,5) p(2)]) (use p(3,5) in auto)
  let ?x = "msg\<lparr>tm_frames_pending := tm_frames_pending msg + 1, tm_sent := tm_sent msg + length payload\<rparr>"
  let ?d2 = "?d1\<lparr>dev_msgs := (dev_msgs d)(m \<mapsto> ?x)\<rparr>"
  obtain rg where rg: "rc_ring (dev_tx d) = Some rg" using I(3) by blast
  obtain q where q: "pool_return i ?d1 = Some (?d1\<lparr>dev_pool := q\<rparr>)" "tx_wf refs senders mc bc (?d1\<lparr>dev_pool := q\<rparr>)"
    using pool_return_wf [OF wf1, of i] assms(4,5) p(3) by auto
  then have q': "frame_pool_put p i = Some q" by (auto simp: pool_return_def dest!: arg_cong [where f = dev_pool] split: Option.bind_splits)
  consider "\<not> te_copy_ok e 0" | "te_copy_ok e 0" "\<not> te_tx_ok e 0" | "te_copy_ok e 0" "te_tx_ok e 0" by blast
  then show ?thesis
  proof cases
    case 1
    then have "send_slot e m h payload i d = Some (Inl EFAULT, ?d1\<lparr>dev_pool := q\<rparr>)"
      using slot(1) fill(1) p(1) q(1) by (simp add: send_slot_def s'_def)
    with q(2) 1 assms(3) show ?thesis by (auto simp: frame_sent_def)
  next
    case 2
    have id: "(dev_msgs d)(m \<mapsto> msg) = dev_msgs d" using assms(3) by (simp add: fun_upd_idem)
    have "send_slot e m h payload i d = Some (Inl EIO, ?d1\<lparr>dev_pool := q\<rparr>)"
      using slot(1) fill(1) p(1) q' 2 assms(3) rg
      by (simp add: send_slot_def s'_def upd_msg_def tb_ring_tx_def pool_return_def id)
    with q(2) 2 assms(3) show ?thesis by (auto simp: frame_sent_def)
  next
    case 3
    have bytes: "slot_bytes s' = hdr_bytes h @ payload" using 3 fill(3) by (simp add: slot_bytes_def s'_def tx_desc_def)
    let ?d' = "?d1\<lparr>dev_tx_pending := dev_tx_pending ?d1 @ [PoolSlot i], dev_wire := dev_wire d @ [slot_bytes s'],
      dev_msgs := (dev_msgs ?d1)(m \<mapsto> ?x)\<rparr>"
    have "send_slot e m h payload i d = Some (Inr (), ?d')"
      using slot(1) fill(1) p(1) 3 assms(3) rg by (simp add: send_slot_def s'_def upd_msg_def tb_ring_tx_def)
    moreover have "tx_wf refs senders mc bc ?d'"
      by (rule tx_wf_submit_slot [OF wf1, where slot = s']) (use assms p 3 in \<open>simp_all add: s'_def tx_desc_def\<close>)
    ultimately show ?thesis using assms(3) bytes p(4) by (simp add: frame_sent_def)
  qed
qed

section \<open>The latency loop\<close>

lemma nth_chunks: "0 < n \<Longrightarrow> k * n < length xs \<Longrightarrow> chunks n xs ! k = take n (drop (k * n) xs)"
proof (induction k arbitrary: xs)
  case 0
  then show ?case by (subst chunks_step) auto
next
  case (Suc k)
  then have "xs \<noteq> []" "k * n < length (drop n xs)" by auto
  with Suc.IH [OF Suc.prems(1), of "drop n xs"] Suc.prems(1) show ?case
    by (subst chunks_step) (auto simp: add.commute)
qed

lemma less_frames_iff: "k < DIV_ROUND_UP len STREAM_PAYLOAD_MAX \<longleftrightarrow> k * STREAM_PAYLOAD_MAX < len"
  using less_eq_div_iff_mult_less_eq [of STREAM_PAYLOAD_MAX "Suc k" "len + STREAM_PAYLOAD_MAX - 1"]
  unfolding DIV_ROUND_UP_def Suc_le_eq [symmetric] by (simp add: STREAM_PAYLOAD_MAX_eq)

text \<open>The frame that the reference definition puts at position \<open>k\<close>.\<close>

lemma msg_frames_nth:
  assumes "k * STREAM_PAYLOAD_MAX < length data"
  defines "p \<equiv> take STREAM_PAYLOAD_MAX (drop (k * STREAM_PAYLOAD_MAX) data)"
  shows "msg_frames src dst data ! k = hdr_bytes (frag_hdr src dst (k * STREAM_PAYLOAD_MAX = 0)
    (k * STREAM_PAYLOAD_MAX + length p = length data) (length p) (of_nat k)) @ p"
proof -
  let ?cs = "chunks STREAM_PAYLOAD_MAX data"
  have len: "length ?cs = DIV_ROUND_UP (length data) STREAM_PAYLOAD_MAX" by (rule length_chunks) simp
  have k: "k < length ?cs" unfolding len less_frames_iff by (rule assms(1))
  have "Suc k = length ?cs \<longleftrightarrow> \<not> Suc k < length ?cs" using k by linarith
  also have "\<dots> \<longleftrightarrow> k * STREAM_PAYLOAD_MAX + length p = length data"
    unfolding len less_frames_iff using assms(1) by (auto simp: p_def)
  finally show ?thesis
    unfolding msg_frames_def using nth_frames_from [OF k, of src dst 0] nth_chunks [OF _ assms(1)] by (simp add: p_def)
qed

text \<open>\<open>j\<close> frames from frame \<open>k\<close> on have been added to the wire.\<close>

definition wire_grown :: "byte list list \<Rightarrow> nat \<Rightarrow> nat \<Rightarrow> odl_device \<Rightarrow> odl_device \<Rightarrow> bool" where
  "wire_grown fs k j d d' \<longleftrightarrow> dev_wire d' = dev_wire d @ take (j - k) (drop k fs) \<and> k \<le> j \<and> j \<le> length fs"

lemma wire_grown_refl: "k \<le> length fs \<Longrightarrow> dev_wire d' = dev_wire d \<Longrightarrow> wire_grown fs k k d d'"
  by (simp add: wire_grown_def)

lemma wire_grown_step:
  assumes "wire_grown fs l j d' d''" "k \<le> l" "dev_wire d' = dev_wire d @ take (l - k) (drop k fs)"
  shows "wire_grown fs k j d d''"
proof -
  have "take (j - k) (drop k fs) = take (l - k) (drop k fs) @ take (j - l) (drop l fs)"
    using take_add [of "l - k" "j - l" "drop k fs"] assms(1,2) by (simp add: wire_grown_def)
  with assms show ?thesis by (simp add: wire_grown_def)
qed

definition env_good :: "tx_env \<Rightarrow> bool" where
  "env_good e \<longleftrightarrow> (\<forall>i. te_copy_ok e i \<and> te_tx_ok e i)"

text \<open>A send that has \<open>k\<close> frames on the wire.\<close>

definition sending :: "(nat \<Rightarrow> nat) \<Rightarrow> nat set \<Rightarrow> (nat \<Rightarrow> int) \<Rightarrow> (nat \<Rightarrow> int) \<Rightarrow> nat \<Rightarrow> byte list \<Rightarrow> nat \<Rightarrow> odl_device \<Rightarrow> bool"
  where
  "sending refs senders mc bc m data k d \<longleftrightarrow> tx_wf refs senders mc bc d \<and> m \<in> senders \<and>
     k \<le> DIV_ROUND_UP (length data) STREAM_PAYLOAD_MAX \<and>
     map_option tm_sent (dev_msgs d m) = Some (min (k * STREAM_PAYLOAD_MAX) (length data))"

lemma sending_complete:
  assumes "sending refs senders mc bc m data k d"
  obtains d' where "tx_complete_all rcs d = Some d'" "sending refs senders mc bc m data k d'" "undisturbed senders bc d d'"
proof -
  obtain d' where d': "tx_complete_all rcs d = Some d'" "tx_wf refs senders mc bc d'" "undisturbed senders bc d d'"
    using tx_complete_all_wf assms unfolding sending_def by blast
  moreover have "map_option tm_sent (dev_msgs d' m) = map_option tm_sent (dev_msgs d m)"
    using d'(3) assms by (simp add: undisturbed_def sending_def)
  ultimately show thesis using assms that by (simp add: sending_def del: map_option_eq_Some)
qed

text \<open>One frame: the slot is taken, filled and submitted.\<close>

lemma latency_frame:
  fixes sid dst :: u8
  assumes "sending refs senders mc bc m data k d" "k * STREAM_PAYLOAD_MAX < length data"
    "int TX_POOL_RESERVE < fp_free_count (dev_pool d)"
  defines "pl \<equiv> take STREAM_PAYLOAD_MAX (drop (k * STREAM_PAYLOAD_MAX) data)"
  defines "h \<equiv> frag_hdr sid dst (k * STREAM_PAYLOAD_MAX = 0) (k * STREAM_PAYLOAD_MAX + length pl = length data) (length pl)
    (of_nat k)"
  shows "\<exists>i p r d'. frame_pool_get (dev_pool d) = Some (Some i, p) \<and> send_slot e m h pl i (d\<lparr>dev_pool := p\<rparr>) = Some (r, d') \<and>
    (case r of
       Inl _ \<Rightarrow> sending refs senders mc bc m data k d' \<and> dev_wire d' = dev_wire d \<and> \<not> env_good e
     | Inr _ \<Rightarrow> sending refs senders mc bc m data (Suc k) d' \<and>
         dev_wire d' = dev_wire d @ [msg_frames sid dst data ! k] \<and>
         fp_free_count (dev_pool d') = fp_free_count (dev_pool d) - 1)"
proof -
  have wf: "tx_wf refs senders mc bc d" and m: "m \<in> senders" using assms(1) by (auto simp: sending_def)
  note I = tx_baseD [OF tx_wfD(1) [OF wf]]
  from assms(1,2) obtain msg where msg: "dev_msgs d m = Some msg" "tm_sent msg = k * STREAM_PAYLOAD_MAX"
    by (auto simp: sending_def)
  from I(1) obtain i p where g: "frame_pool_get (dev_pool d) = Some (Some i, p)" "frame_pool_wf p"
    "i \<notin> frame_pool_used (dev_pool d)" "frame_pool_used p = insert i (frame_pool_used (dev_pool d))"
  proof (cases rule: frame_pool_get_cases)
    case full
    with free_count_card [OF I(1)] assms(3) show thesis by simp
  qed blast
  have nip: "PoolSlot i \<notin> set (dev_tx_pending d)" using I(7) g(3) by blast
  let ?d = "d\<lparr>dev_pool := p\<rparr>"
  have "tx_wf refs senders mc bc ?d"
    by (rule tx_wf_slot [OF wf nip g(2)]) (use g frame_pool_get_slots(1) [OF g(1), of _ d] in auto)
  moreover have "length pl \<le> STREAM_PAYLOAD_MAX" by (simp add: pl_def)
  ultimately obtain r d' where r: "send_slot e m h pl i ?d = Some (r, d')" "tx_wf refs senders mc bc d'"
    "case r of Inr _ \<Rightarrow> frame_sent m ?d [hdr_bytes h @ pl] (length pl) d' \<and> fp_free_count (dev_pool d') = fp_free_count (dev_pool ?d)
     | Inl _ \<Rightarrow> frame_sent m ?d [] 0 d' \<and> \<not> (te_copy_ok e 0 \<and> te_tx_ok e 0)"
    using send_slot_wf [of refs senders mc bc ?d m msg i pl e h] m msg(1) g(4) nip by auto
  have "fp_free_count p = fp_free_count (dev_pool d) - 1" by (rule frame_pool_get_slots(2) [OF g(1), of "Suc i"]) simp
  moreover have "hdr_bytes h @ pl = msg_frames sid dst data ! k"
    using msg_frames_nth [OF assms(2), of sid dst] by (simp add: h_def pl_def)
  moreover have "k * STREAM_PAYLOAD_MAX + length pl = min (Suc k * STREAM_PAYLOAD_MAX) (length data)"
    using assms(2) by (simp add: pl_def)
  moreover have "Suc k \<le> DIV_ROUND_UP (length data) STREAM_PAYLOAD_MAX" using assms(2) less_frames_iff by (simp add: Suc_le_eq)
  ultimately have "case r of
       Inl _ \<Rightarrow> sending refs senders mc bc m data k d' \<and> dev_wire d' = dev_wire d \<and> \<not> env_good e
     | Inr _ \<Rightarrow> sending refs senders mc bc m data (Suc k) d' \<and> dev_wire d' = dev_wire d @ [msg_frames sid dst data ! k] \<and>
         fp_free_count (dev_pool d') = fp_free_count (dev_pool d) - 1"
    using r(2,3) assms(1,2) m msg by (cases r) (auto simp: sending_def frame_sent_def env_good_def)
  with g(1) r(1) show ?thesis by blast
qed

text \<open>One round of the loop.\<close>

lemma latency_round:
  assumes "sending refs senders mc bc m data k d" "k * STREAM_PAYLOAD_MAX < length data"
  obtains (stop) err d1 where "latency_loop (e # es) m sid dst data (of_nat k) d = Some (TxReturned (Inl err), d1)"
      "sending refs senders mc bc m data k d1" "dev_wire d1 = dev_wire d"
      "\<not> (env_good e \<and> int TX_POOL_RESERVE < fp_free_count (dev_pool d))"
  | (wait) d1 where "latency_loop (e # es) m sid dst data (of_nat k) d = latency_loop es m sid dst data (of_nat k) d1"
      "sending refs senders mc bc m data k d1" "dev_wire d1 = dev_wire d" "\<not> int TX_POOL_RESERVE < fp_free_count (dev_pool d)"
  | (sent) d1 where "latency_loop (e # es) m sid dst data (of_nat k) d = latency_loop es m sid dst data (of_nat (Suc k)) d1"
      "sending refs senders mc bc m data (Suc k) d1" "dev_wire d1 = dev_wire d @ [msg_frames sid dst data ! k]"
      "fp_free_count (dev_pool d) - 1 \<le> fp_free_count (dev_pool d1)"
proof -
  note loop = latency_loop.simps [of "e # es" m sid dst data "of_nat k" d]
  from assms obtain msg where msg: "dev_msgs d m = Some msg" "tm_sent msg = k * STREAM_PAYLOAD_MAX"
    by (auto simp: sending_def)
  obtain d1 where d1: "tx_complete_all (te_done e) d = Some d1" "sending refs senders mc bc m data k d1"
    "undisturbed senders bc d d1" using assms(1) by (rule sending_complete)
  have mono: "dev_wire d1 = dev_wire d" "fp_free_count (dev_pool d) \<le> fp_free_count (dev_pool d1)"
    using d1(3) by (simp_all add: undisturbed_def)
  show thesis
  proof (cases "fp_free_count (dev_pool d1) \<le> int TX_POOL_RESERVE")
    case True
    show thesis
    proof (cases "te_wait e = WSleep")
      case sleep: True
      then have "latency_loop (e # es) m sid dst data (of_nat k) d = latency_loop es m sid dst data (of_nat k) d1"
        using True msg d1(1) assms(2) by (subst loop) (simp add: Let_def)
      with d1(2) mono True wait show thesis by simp
    next
      case False
      then obtain err where "latency_loop (e # es) m sid dst data (of_nat k) d = Some (TxReturned (Inl err), d1)"
        using True msg d1(1) assms(2) that(1) by (subst (asm) loop) (cases "te_wait e"; simp add: Let_def)
      with d1(2) mono True stop show thesis by simp
    qed
  next
    case False
    let ?pl = "take STREAM_PAYLOAD_MAX (drop (k * STREAM_PAYLOAD_MAX) data)"
    let ?h = "frag_hdr sid dst (k * STREAM_PAYLOAD_MAX = 0) (k * STREAM_PAYLOAD_MAX + length ?pl = length data) (length ?pl)
      (of_nat k)"
    obtain i p r d2 where g: "frame_pool_get (dev_pool d1) = Some (Some i, p)"
      "send_slot e m ?h ?pl i (d1\<lparr>dev_pool := p\<rparr>) = Some (r, d2)"
      and r: "case r of
         Inl _ \<Rightarrow> sending refs senders mc bc m data k d2 \<and> dev_wire d2 = dev_wire d1 \<and> \<not> env_good e
       | Inr _ \<Rightarrow> sending refs senders mc bc m data (Suc k) d2 \<and> dev_wire d2 = dev_wire d1 @ [msg_frames sid dst data ! k] \<and>
           fp_free_count (dev_pool d2) = fp_free_count (dev_pool d1) - 1"
      using latency_frame [OF d1(2) assms(2), where sid = sid and dst = dst and e = e] False by auto
    have suc: "of_nat (Suc k) = (of_nat k + 1 :: u16)" by (simp add: add.commute)
    have eq: "latency_loop (e # es) m sid dst data (of_nat k) d =
      (case r of Inl err \<Rightarrow> Some (TxReturned (Inl err), d2) | Inr _ \<Rightarrow> latency_loop es m sid dst data (of_nat (Suc k)) d2)"
      unfolding suc using False msg d1(1) assms(2) g by (subst loop) (simp add: Let_def)
    show thesis
    proof (cases r)
      case (Inl err)
      with eq r mono stop show thesis by simp
    next
      case (Inr u)
      with eq r mono sent show thesis by simp
    qed
  qed
qed

text \<open>The loop as a whole. With enough room in the pool and no failures it ends with success.\<close>

definition latency_room :: "tx_env list \<Rightarrow> nat \<Rightarrow> odl_device \<Rightarrow> bool" where
  "latency_room envs n d \<longleftrightarrow> n \<le> length envs \<and> list_all env_good envs \<and> int (TX_POOL_RESERVE + n) \<le> fp_free_count (dev_pool d)"

lemma latency_loop_ok:
  fixes sid dst :: u8
  assumes "sending refs senders mc bc m data k d"
  defines "fs \<equiv> msg_frames sid dst data"
  shows "\<exists>r d' j. latency_loop envs m sid dst data (of_nat k) d = Some (r, d') \<and> sending refs senders mc bc m data j d' \<and>
    wire_grown fs k j d d' \<and> (r = TxReturned (Inr ()) \<longleftrightarrow> j = length fs) \<and>
    (latency_room envs (length fs - k) d \<longrightarrow> r = TxReturned (Inr ()))"
  using assms(1)
proof (induction envs arbitrary: k d)
  case Nil
  have "k \<le> length fs" "k = length fs \<longleftrightarrow> \<not> k * STREAM_PAYLOAD_MAX < length data"
    using Nil less_frames_iff [of k "length data"] by (auto simp: sending_def fs_def length_msg_frames)
  moreover have "latency_loop [] m sid dst data (of_nat k) d =
      Some (if k * STREAM_PAYLOAD_MAX < length data then TxWaiting else TxReturned (Inr ()), d)"
    using Nil by (subst latency_loop.simps) (auto simp: sending_def)
  ultimately show ?case using Nil wire_grown_refl [of k fs d d]
    by (cases "k = length fs") (auto simp: latency_room_def)
next
  case (Cons e es)
  have k: "k \<le> length fs" "k = length fs \<longleftrightarrow> \<not> k * STREAM_PAYLOAD_MAX < length data"
    using Cons.prems less_frames_iff [of k "length data"] by (auto simp: sending_def fs_def length_msg_frames)
  show ?case
  proof (cases "k * STREAM_PAYLOAD_MAX < length data")
    case False
    then have "latency_loop (e # es) m sid dst data (of_nat k) d = Some (TxReturned (Inr ()), d)"
      using Cons.prems by (subst latency_loop.simps) (auto simp: sending_def)
    with False k Cons.prems wire_grown_refl [of k fs d d] show ?thesis by auto
  next
    case True
    with k have lt: "k < length fs" by simp
    from Cons.prems True show ?thesis
    proof (cases rule: latency_round [where e = e and es = es and sid = sid and dst = dst])
      case (stop err d1)
      with lt wire_grown_refl [OF k(1), of d1 d] show ?thesis
        by (intro exI [of _ "TxReturned (Inl err)"] exI [of _ d1] exI [of _ k]) (auto simp: latency_room_def)
    next
      case (wait d1)
      from Cons.IH [OF wait(2)] obtain r d' j where "latency_loop es m sid dst data (of_nat k) d1 = Some (r, d')"
        "sending refs senders mc bc m data j d'" "wire_grown fs k j d1 d'" "r = TxReturned (Inr ()) \<longleftrightarrow> j = length fs" by blast
      with wait lt show ?thesis
        by (intro exI [of _ r] exI [of _ d'] exI [of _ j]) (auto simp: latency_room_def wire_grown_def)
    next
      case (sent d1)
      from Cons.IH [OF sent(2)] obtain r d' j where
        L: "latency_loop es m sid dst data (of_nat (Suc k)) d1 = Some (r, d')" "sending refs senders mc bc m data j d'"
        "wire_grown fs (Suc k) j d1 d'" "r = TxReturned (Inr ()) \<longleftrightarrow> j = length fs"
        "latency_room es (length fs - Suc k) d1 \<longrightarrow> r = TxReturned (Inr ())" by blast
      have "wire_grown fs k j d d'"
        by (rule wire_grown_step [OF L(3)]) (use sent(3) lt in \<open>simp_all add: fs_def Cons_nth_drop_Suc [symmetric]\<close>)
      moreover have "latency_room es (length fs - Suc k) d1" if "latency_room (e # es) (length fs - k) d"
        using that sent(4) lt by (auto simp: latency_room_def)
      ultimately show ?thesis using L sent(1)
        by (intro exI [of _ r] exI [of _ d'] exI [of _ j]) auto
    qed
  qed
qed

end
