(* ===== verification/Tx_Batch.thy ===== *)
theory Tx_Batch
  imports Tx_Send
begin

text \<open>
  The throughput mode: filling a batch buffer, submitting its frames while frames of the same batch already complete, and the
  loop over the batches of a message.
\<close>

section \<open>Filling a batch buffer\<close>

lemma mem_write_region:
  assumes "mem_write off bs mem = Some mem'"
  shows "take (length bs) (drop off mem') = bs"
    "a + n \<le> off \<or> off + length bs \<le> a \<Longrightarrow> take n (drop a mem') = take n (drop a mem)"
proof -
  have off: "off + length bs \<le> length mem" and mem': "mem' = take off mem @ bs @ drop (off + length bs) mem"
    using assms by (auto simp: mem_write_def split: if_splits)
  then show "take (length bs) (drop off mem') = bs" by simp
  assume "a + n \<le> off \<or> off + length bs \<le> a"
  then show "take n (drop a mem') = take n (drop a mem)"
  proof
    assume "a + n \<le> off"
    then have "take n (drop a mem') = take n (drop a (take off mem'))" by (simp add: drop_take)
    also have "take off mem' = take off mem" using off by (simp add: mem')
    finally show ?thesis using \<open>a + n \<le> off\<close> by (simp add: drop_take)
  next
    assume "off + length bs \<le> a"
    then have "drop a mem' = drop (a - (off + length bs)) (drop (off + length bs) mem')" by simp
    also have "drop (off + length bs) mem' = drop (off + length bs) mem" using off by (simp add: mem')
    finally show ?thesis using \<open>off + length bs \<le> a\<close> by simp
  qed
qed

lemma batch_regions: "i < j \<Longrightarrow> i * FRAME_SIZE + FRAME_SIZE \<le> j * FRAME_SIZE"
  by (metis Suc_leI add.commute mult_Suc mult_le_mono1)

lemma fill_frame_ok:
  assumes "bb_virt buf = Some mem" "length mem = BATCH_BUF_SIZE" "length (bb_frames buf) = BATCH_FRAMES" "i < BATCH_FRAMES"
    "length pl \<le> STREAM_PAYLOAD_MAX"
  shows "\<exists>mem' fr. fill_frame copy_ok h pl i buf = Some (copy_ok i, buf\<lparr>bb_virt := Some mem', bb_frames := fr\<rparr>) \<and>
    length mem' = BATCH_BUF_SIZE \<and> length fr = BATCH_FRAMES \<and>
    (\<forall>j < i. batch_frame_bytes (buf\<lparr>bb_virt := Some mem', bb_frames := fr\<rparr>) j = batch_frame_bytes buf j \<or>
       FRAME_SIZE < rf_size (bb_frames buf ! j)) \<and>
    (\<forall>j < i. fr ! j = bb_frames buf ! j) \<and>
    (copy_ok i \<longrightarrow> rf_size (fr ! i) \<le> FRAME_SIZE \<and>
       batch_frame_bytes (buf\<lparr>bb_virt := Some mem', bb_frames := fr\<rparr>) i = hdr_bytes h @ pl)"
proof -
  have room: "STREAM_HDR_SIZE + length pl < FRAME_SIZE" using assms(5) frame_fits by linarith
  have "i * FRAME_SIZE + FRAME_SIZE \<le> BATCH_BUF_SIZE" using batch_regions [OF assms(4)] by (simp add: driver_consts)
  then have fits: "i * FRAME_SIZE + FRAME_SIZE \<le> length mem" by (simp add: assms(2))
  obtain m1 where m1: "mem_write (i * FRAME_SIZE) (hdr_bytes h) mem = Some m1"
    using fits room by (simp add: mem_write_def)
  note l1 = length_mem_write [OF m1]
  obtain m2 where m2: "mem_write (i * FRAME_SIZE + STREAM_HDR_SIZE) pl m1 = Some m2"
    using fits room l1 by (simp add: mem_write_def)
  note l2 = length_mem_write [OF m2]
  let ?m = "if copy_ok i then m2 else m1"
  let ?fr = "if copy_ok i then (bb_frames buf)[i := batch_desc (length pl) (bb_frames buf ! i)] else bb_frames buf"
  let ?b = "buf\<lparr>bb_virt := Some ?m, bb_frames := ?fr\<rparr>"
  have eq: "fill_frame copy_ok h pl i buf = Some (copy_ok i, ?b)"
    using assms(1,3,4) m1 m2 by (simp add: fill_frame_def)
  have below: "take n (drop (j * FRAME_SIZE) ?m) = take n (drop (j * FRAME_SIZE) mem)" if "j < i" "n \<le> FRAME_SIZE" for j n
  proof -
    have le: "j * FRAME_SIZE + n \<le> i * FRAME_SIZE" using batch_regions [OF that(1)] that(2) by linarith
    then have "take n (drop (j * FRAME_SIZE) m1) = take n (drop (j * FRAME_SIZE) mem)" by (intro mem_write_region(2) [OF m1]) simp
    moreover have "take n (drop (j * FRAME_SIZE) m2) = take n (drop (j * FRAME_SIZE) m1)"
      using le by (intro mem_write_region(2) [OF m2]) simp
    ultimately show ?thesis by simp
  qed
  have "take STREAM_HDR_SIZE (drop (i * FRAME_SIZE) m2) = hdr_bytes h"
    using mem_write_region(2) [OF m2, of "i * FRAME_SIZE" STREAM_HDR_SIZE] mem_write_region(1) [OF m1] by simp
  moreover have "take (length pl) (drop STREAM_HDR_SIZE (drop (i * FRAME_SIZE) m2)) = pl"
    using mem_write_region(1) [OF m2] by (simp add: add.commute)
  ultimately have "take (STREAM_HDR_SIZE + length pl) (drop (i * FRAME_SIZE) m2) = hdr_bytes h @ pl" by (simp add: take_add)
  with below eq assms l1 l2 room show ?thesis
    by (intro exI [of _ ?m] exI [of _ ?fr])
      (auto simp: batch_frame_bytes_def batch_desc_def not_less)
qed

lemma fill_frames_ok:
  assumes "bb_virt buf = Some mem" "length mem = BATCH_BUF_SIZE" "length (bb_frames buf) = BATCH_FRAMES"
    "i + k \<le> BATCH_FRAMES" "\<And>j. length (ps j) \<le> STREAM_PAYLOAD_MAX"
    "\<And>j. j < i \<Longrightarrow> rf_size (bb_frames buf ! j) \<le> FRAME_SIZE \<and> batch_frame_bytes buf j = hdr_bytes (hs j) @ ps j"
  shows "\<exists>ok mem' fr. fill_frames copy_ok hs ps i k buf = Some (ok, buf\<lparr>bb_virt := Some mem', bb_frames := fr\<rparr>) \<and>
    length mem' = BATCH_BUF_SIZE \<and> length fr = BATCH_FRAMES \<and> ((\<forall>j. copy_ok j) \<longrightarrow> ok) \<and>
    (ok \<longrightarrow> (\<forall>j < i + k. batch_frame_bytes (buf\<lparr>bb_virt := Some mem', bb_frames := fr\<rparr>) j = hdr_bytes (hs j) @ ps j))"
  using assms
proof (induction k arbitrary: i buf mem)
  case 0
  then have "batch_frame_bytes (buf\<lparr>bb_virt := Some mem\<rparr>) = batch_frame_bytes buf"
    by (auto simp: batch_frame_bytes_def fun_eq_iff)
  with 0 show ?case by (intro exI [of _ True] exI [of _ mem] exI [of _ "bb_frames buf"]) simp
next
  case (Suc k)
  obtain mem' fr where f: "fill_frame copy_ok (hs i) (ps i) i buf = Some (copy_ok i, buf\<lparr>bb_virt := Some mem', bb_frames := fr\<rparr>)"
    "length mem' = BATCH_BUF_SIZE" "length fr = BATCH_FRAMES"
    "\<And>j. j < i \<Longrightarrow> batch_frame_bytes (buf\<lparr>bb_virt := Some mem', bb_frames := fr\<rparr>) j = batch_frame_bytes buf j \<or>
       FRAME_SIZE < rf_size (bb_frames buf ! j)"
    "\<And>j. j < i \<Longrightarrow> fr ! j = bb_frames buf ! j"
    "copy_ok i \<Longrightarrow> rf_size (fr ! i) \<le> FRAME_SIZE \<and>
       batch_frame_bytes (buf\<lparr>bb_virt := Some mem', bb_frames := fr\<rparr>) i = hdr_bytes (hs i) @ ps i"
    using fill_frame_ok [OF Suc.prems(1-3), of i "ps i" copy_ok "hs i"] Suc.prems(4,5) by auto
  let ?b = "buf\<lparr>bb_virt := Some mem', bb_frames := fr\<rparr>"
  show ?case
  proof (cases "copy_ok i")
    case False
    with f(1-3) show ?thesis by (intro exI [of _ False] exI [of _ mem'] exI [of _ fr]) auto
  next
    case True
    have "rf_size (bb_frames ?b ! j) \<le> FRAME_SIZE \<and> batch_frame_bytes ?b j = hdr_bytes (hs j) @ ps j" if "j < Suc i" for j
    proof (cases "j = i")
      case False
      with that have "j < i" by simp
      with f(4,5) [OF this] Suc.prems(6) [OF this] show ?thesis by auto
    qed (use f(6) True in simp)
    from Suc.IH [of ?b mem' "Suc i", OF _ f(2) _ _ Suc.prems(5) this] f(3) Suc.prems(4) f(1) True show ?thesis by simp
  qed
qed

section \<open>Submitting the frames of a batch\<close>

text \<open>A change of one batch buffer. Its message may change only when none of its frames is on the ring.\<close>

lemma tx_wf_batch:
  assumes "tx_wf refs senders mc bc d" "b < BATCH_BUF_COUNT" "batch_pool_wf q"
    "\<And>j. j \<noteq> b \<Longrightarrow> bp_bufs q ! j = bp_bufs (dev_bpool d) ! j"
    "\<And>j. j \<noteq> b \<Longrightarrow> j \<in> batch_pool_used (dev_bpool d) \<Longrightarrow> j \<in> batch_pool_used q"
    "bb_frames_pending (bp_bufs q ! b) = int (batch_frames_out d b) + c" "0 \<le> c"
    "0 < batch_frames_out d b \<or> 0 < c \<Longrightarrow> b \<in> batch_pool_used q"
    "0 < batch_frames_out d b \<Longrightarrow> bb_tx_msg (bp_bufs q ! b) = bb_tx_msg (bp_bufs (dev_bpool d) ! b)"
  shows "tx_wf refs senders mc (bc(b := c)) (d\<lparr>dev_bpool := q\<rparr>)"
proof -
  let ?d = "d\<lparr>dev_bpool := q\<rparr>"
  note base = tx_wfD(1) [OF assms(1)]
  note I = tx_baseD [OF base]
  have len: "length (bp_bufs q) = length (bp_bufs (dev_bpool d))" using I(2) assms(3) by (simp add: batch_pool_wf_def)
  have own: "frame_owner ?d r = frame_owner d r" if "r \<in> set (dev_tx_pending d)" for r
  proof (rule frame_owner_batch [of b])
    assume "is_batch_frame b r"
    then have "0 < batch_frames_out d b" using that no_batch_frame [of d b r] by (cases "batch_frames_out d b") auto
    with assms(9) show "bb_tx_msg (bp_bufs (dev_bpool ?d) ! b) = bb_tx_msg (bp_bufs (dev_bpool d) ! b)" by simp
  qed (use assms(4) len in simp_all)
  have out: "msg_frames_out ?d k = msg_frames_out d k" "batch_frames_out ?d k = batch_frames_out d k" for k
    using own by (auto simp: msg_frames_out_def batch_frames_out_def intro!: arg_cong [where f = length] filter_cong)
  have "tx_base refs (bc(b := c)) ?d"
  proof (rule tx_base_ring [OF base])
    fix j
    assume j: "j < BATCH_BUF_COUNT"
    show "0 \<le> (bc(b := c)) j \<and> bb_frames_pending (bp_bufs (dev_bpool ?d) ! j) = int (batch_frames_out ?d j) + (bc(b := c)) j \<and>
      (0 < batch_frames_out ?d j \<or> 0 < (bc(b := c)) j \<longrightarrow> j \<in> batch_pool_used (dev_bpool ?d))"
      using I(9-11) [OF j] assms(4-8) out by (cases "j = b") auto
  next
    show "\<And>r m. r \<in> set (dev_tx_pending ?d) \<Longrightarrow> frame_owner ?d r = Some m \<Longrightarrow> dev_msgs d m \<noteq> None"
      using own I(8) by auto
  qed (use I assms(3) in \<open>auto simp: same_objects_def\<close>)
  with tx_wfD(2) [OF assms(1)] show ?thesis by (simp add: tx_wf_def out)
qed

text \<open>Buffer \<open>b\<close> holds the rest of a batch of message \<open>m\<close>: \<open>k\<close> frames from frame \<open>i\<close> on, with the contents \<open>fs\<close>.\<close>

definition batch_armed :: "nat \<Rightarrow> nat \<Rightarrow> nat \<Rightarrow> byte list list \<Rightarrow> odl_device \<Rightarrow> bool" where
  "batch_armed m b i fs d \<longleftrightarrow> b < BATCH_BUF_COUNT \<and> bb_tx_msg (bp_bufs (dev_bpool d) ! b) = Some m \<and> dev_msgs d m \<noteq> None \<and>
     (\<forall>j. i \<le> j \<longrightarrow> BatchFrame b j \<notin> set (dev_tx_pending d)) \<and>
     (\<forall>j < length fs. batch_frame_bytes (bp_bufs (dev_bpool d) ! b) (i + j) = fs ! j)"

lemma batch_armed_undisturbed:
  assumes "batch_armed m b i fs d" "undisturbed senders bc d d'" "0 < bc b" "m \<in> senders"
  shows "batch_armed m b i fs d'"
proof -
  have "\<exists>x. dev_msgs d' m = Some x" using undisturbed_alive [OF assms(2,4)] assms(1) by (auto simp: batch_armed_def)
  with assms show ?thesis by (auto simp: batch_armed_def undisturbed_def batch_frame_bytes_def)
qed

lemma tx_wf_submit_batch:
  assumes "tx_wf refs senders mc bc d" "batch_armed m b i fs d" "0 < bc b" "0 < mc m"
  shows "tx_wf refs senders (mc(m := mc m - 1)) (bc(b := bc b - 1))
    (d\<lparr>dev_tx_pending := dev_tx_pending d @ [BatchFrame b i], dev_wire := w\<rparr>)"
proof -
  let ?d = "d\<lparr>dev_tx_pending := dev_tx_pending d @ [BatchFrame b i], dev_wire := w\<rparr>"
  note base = tx_wfD(1) [OF assms(1)]
  have A: "b < BATCH_BUF_COUNT" "bb_tx_msg (bp_bufs (dev_bpool d) ! b) = Some m" "dev_msgs d m \<noteq> None"
    "BatchFrame b i \<notin> set (dev_tx_pending d)" using assms(2) by (auto simp: batch_armed_def)
  have "length (bp_bufs (dev_bpool d)) = BATCH_BUF_COUNT" using tx_baseD(2) [OF base] by (simp add: batch_pool_wf_def)
  then have own: "frame_owner d (BatchFrame b i) = Some m" using A(1,2) by (simp add: frame_owner_def get_batch_def Let_def)
  note sub = tx_base_submit [OF base A(4) own A(3), of ?d w]
  have "(\<lambda>j. bc j - (if is_batch_frame j (BatchFrame b i) then 1 else 0)) = bc(b := bc b - 1)"
    by (auto simp: is_batch_frame_def fun_eq_iff)
  then have "tx_base refs (bc(b := bc b - 1)) ?d" using sub(1) A(1) assms(3) by simp
  moreover have "msg_frames_out ?d k = msg_frames_out d k + (if k = m then 1 else 0)" for k using sub(2) A(1) assms(3) by simp
  then have "msg_ok (k \<in> senders) (msg_frames_out ?d k) ((mc(m := mc m - 1)) k) y" if "dev_msgs d k = Some y" for k y
    using tx_wfD(2) [OF assms(1) that] assms(4) by (auto simp: msg_ok_def split: if_splits)
  ultimately show ?thesis by (simp add: tx_wf_def)
qed

lemma batch_return_wf:
  assumes "tx_wf refs senders mc bc d" "b \<in> batch_pool_used (dev_bpool d)" "batch_frames_out d b = 0" "bc b = 0"
  shows "\<exists>q. batch_return b d = Some (d\<lparr>dev_bpool := q\<rparr>) \<and> tx_wf refs senders mc bc (d\<lparr>dev_bpool := q\<rparr>)"
proof -
  note I = tx_baseD [OF tx_wfD(1) [OF assms(1)]]
  have b: "b < BATCH_BUF_COUNT" using assms(2) by (simp add: batch_pool_used_def)
  obtain q where q: "batch_pool_put (dev_bpool d) b = Some q" "batch_pool_wf q"
    "batch_pool_used q = batch_pool_used (dev_bpool d) - {b}" using batch_pool_put_slot [OF I(2) assms(2)] by blast
  have q': "bp_bufs q = (bp_bufs (dev_bpool d))[b := (bp_bufs (dev_bpool d) ! b)\<lparr>bb_in_use := False, bb_tx_msg := None\<rparr>]"
    "b < length (bp_bufs (dev_bpool d))"
    using q(1) by (auto simp: batch_pool_put_def split: if_splits)
  have "tx_wf refs senders mc (bc(b := 0)) (d\<lparr>dev_bpool := q\<rparr>)"
    by (rule tx_wf_batch [OF assms(1) b q(2)]) (use q(3) q' I(10) [OF b] assms(3,4) in auto)
  moreover have "bc(b := 0) = bc" using assms(4) by (simp add: fun_upd_idem)
  ultimately show ?thesis using q(1) by (auto simp: batch_return_def)
qed

text \<open>The ring refused a frame: the counters are corrected, and a batch of which nothing was sent is returned.\<close>

lemma submit_refused:
  assumes "tx_wf refs senders mc bc d" "batch_armed m b i fs d" "bc b = int k" "mc m = int k" "m \<in> senders" "0 < k"
  defines "bad \<equiv> \<lambda>d. do {
      d \<leftarrow> upd_batch b (\<lambda>x. x\<lparr>bb_frames_pending := bb_frames_pending x - int k, bb_total_frames := i\<rparr>) d;
      d \<leftarrow> upd_msg m (\<lambda>msg. msg\<lparr>tm_frames_pending := tm_frames_pending msg - int k,
            tm_sent := (tm_sent msg + 2 ^ 64 - k * STREAM_PAYLOAD_MAX) mod 2 ^ 64\<rparr>) d;
      d \<leftarrow> (if i = 0 then batch_return b d else Some d);
      Some (Inl EIO :: errno + unit, d) }"
  shows "\<exists>d'. bad d = Some (Inl EIO, d') \<and> tx_wf refs senders (mc(m := 0)) (bc(b := 0)) d' \<and> dev_wire d' = dev_wire d \<and>
    dev_msgs d' m \<noteq> None"
proof -
  note I = tx_baseD [OF tx_wfD(1) [OF assms(1)]]
  have A: "b < BATCH_BUF_COUNT" "\<And>j. i \<le> j \<Longrightarrow> BatchFrame b j \<notin> set (dev_tx_pending d)"
    using assms(2) by (auto simp: batch_armed_def)
  obtain msg where msg: "dev_msgs d m = Some msg" using assms(2) by (auto simp: batch_armed_def)
  have len: "length (bp_bufs (dev_bpool d)) = BATCH_BUF_COUNT" using I(2) by (simp add: batch_pool_wf_def)
  let ?x = "bp_bufs (dev_bpool d) ! b"
  let ?y = "?x\<lparr>bb_frames_pending := bb_frames_pending ?x - int k, bb_total_frames := i\<rparr>"
  let ?q = "(dev_bpool d)\<lparr>bp_bufs := (bp_bufs (dev_bpool d))[b := ?y]\<rparr>"
  have "buf_ok (b \<notin> set (bp_free_list (dev_bpool d))) ?y"
    using batch_pool_bufs(1) [OF I(2) A(1)] by (simp add: buf_ok_def)
  note up = batch_buf_upd_wf [OF I(2) A(1) this]
  let ?d1 = "d\<lparr>dev_bpool := ?q\<rparr>"
  have wf1: "tx_wf refs senders mc (bc(b := 0)) ?d1"
    by (rule tx_wf_batch [OF assms(1) A(1) up(1)]) (use I(10,11) [OF A(1)] assms(3) A(1) len up(2) in auto)
  let ?m = "msg\<lparr>tm_frames_pending := tm_frames_pending msg - int k,
    tm_sent := (tm_sent msg + 2 ^ 64 - k * STREAM_PAYLOAD_MAX) mod 2 ^ 64\<rparr>"
  let ?d2 = "?d1\<lparr>dev_msgs := (dev_msgs ?d1)(m \<mapsto> ?m)\<rparr>"
  have "msg_ok (m \<in> senders) (msg_frames_out ?d1 m) ((mc(m := 0)) m) ?m"
    using tx_wfD(2) [OF wf1, of m msg] msg assms(4,5) by (simp add: msg_ok_def)
  then have wf2: "tx_wf refs senders (mc(m := 0)) (bc(b := 0)) ?d2"
    by (intro tx_wf_msg [OF wf1, of m msg]) (use msg in simp_all)
  have eq: "bad d = (do { d \<leftarrow> (if i = 0 then batch_return b ?d2 else Some ?d2); Some (Inl EIO, d) })"
    using A(1) len msg by (simp add: bad_def upd_batch_def upd_msg_def Let_def)
  show ?thesis
  proof (cases "i = 0")
    case False
    with eq wf2 show ?thesis by auto
  next
    case True
    have none: "batch_frames_out d b = 0"
      using A(2) True by (auto simp: batch_frames_out_def filter_empty_conv is_batch_frame_def split: frame_ref.splits)
    have out: "batch_frames_out ?d2 = batch_frames_out d" by (simp add: batch_frames_out_def fun_eq_iff)
    have "b \<in> batch_pool_used (dev_bpool ?d2)" using I(11) [OF A(1)] assms(3,6) up(2) by simp
    then obtain q where "batch_return b ?d2 = Some (?d2\<lparr>dev_bpool := q\<rparr>)"
      "tx_wf refs senders (mc(m := 0)) (bc(b := 0)) (?d2\<lparr>dev_bpool := q\<rparr>)"
      using batch_return_wf [OF wf2, of b] none unfolding out by auto
    with eq True show ?thesis by simp
  qed
qed

lemma submit_frames_ok:
  assumes "tx_wf refs senders (mc(m := int (length fs))) (bc(b := int (length fs))) d" "batch_armed m b i fs d" "m \<in> senders"
  shows "\<exists>r d' n. submit_frames e m b i (length fs) d = Some (r, d') \<and>
    tx_wf refs senders (mc(m := 0)) (bc(b := 0)) d' \<and> dev_msgs d' m \<noteq> None \<and>
    dev_wire d' = dev_wire d @ take n fs \<and> n \<le> length fs \<and>
    (r = Inr () \<longleftrightarrow> n = length fs) \<and> (r = Inr () \<longrightarrow> bp_free_count (dev_bpool d) \<le> bp_free_count (dev_bpool d')) \<and>
    (env_good e \<longrightarrow> r = Inr ())"
  using assms(1,2)
proof (induction fs arbitrary: i d)
  case Nil
  then show ?case by (auto simp: batch_armed_def simp del: fun_upd_apply)
next
  case (Cons f fs)
  let ?mc = "mc(m := int (length (f # fs)))" and ?bc = "bc(b := int (length (f # fs)))"
  obtain d1 where d1: "tx_complete_all (te_mid e i) d = Some d1" "tx_wf refs senders ?mc ?bc d1" "undisturbed senders ?bc d d1"
    using tx_complete_all_wf [OF Cons.prems(1)] by blast
  have armed: "batch_armed m b i (f # fs) d1"
    using batch_armed_undisturbed [OF Cons.prems(2) d1(3)] assms(3) by simp
  have mono: "dev_wire d1 = dev_wire d" "bp_free_count (dev_bpool d) \<le> bp_free_count (dev_bpool d1)"
    using d1(3) by (simp_all add: undisturbed_def)
  note I = tx_baseD [OF tx_wfD(1) [OF d1(2)]]
  obtain rg where rg: "rc_ring (dev_tx d1) = Some rg" using I(3) by blast
  have "length (bp_bufs (dev_bpool d1)) = BATCH_BUF_COUNT" using I(2) by (simp add: batch_pool_wf_def)
  then have gb: "get_batch b d1 = Some (bp_bufs (dev_bpool d1) ! b)"
    using armed by (simp add: get_batch_def batch_armed_def Let_def)
  have f: "batch_frame_bytes (bp_bufs (dev_bpool d1) ! b) i = f" using armed by (auto simp: batch_armed_def)
  show ?case
  proof (cases "te_tx_ok e i")
    case False
    obtain d2 where "submit_frames e m b i (length (f # fs)) d = Some (Inl EIO, d2)"
      "tx_wf refs senders (mc(m := 0)) (bc(b := 0)) d2" "dev_wire d2 = dev_wire d1" "dev_msgs d2 m \<noteq> None"
      using submit_refused [OF d1(2) armed, of "Suc (length fs)"] assms(3) d1(1) gb rg False
      by (auto simp: tb_ring_tx_def Let_def)
    moreover have "\<not> env_good e" using False by (auto simp: env_good_def)
    ultimately show ?thesis using mono(1)
      by (intro exI [of _ "Inl EIO"] exI [of _ d2] exI [of _ 0]) (simp del: fun_upd_apply)
  next
    case True
    let ?d2 = "d1\<lparr>dev_tx_pending := dev_tx_pending d1 @ [BatchFrame b i], dev_wire := dev_wire d1 @ [f]\<rparr>"
    have eq: "submit_frames e m b i (length (f # fs)) d = submit_frames e m b (Suc i) (length fs) ?d2"
      using d1(1) gb rg True f by (simp add: tb_ring_tx_def)
    have wf2: "tx_wf refs senders (mc(m := int (length fs))) (bc(b := int (length fs))) ?d2"
      using tx_wf_submit_batch [OF d1(2) armed, of "dev_wire d1 @ [f]"] by simp
    have "batch_armed m b (Suc i) fs ?d2"
      using armed unfolding batch_armed_def by (auto simp: less_Suc_eq_0_disj)
    from Cons.IH [OF wf2 this] obtain r d' n where
      "submit_frames e m b (Suc i) (length fs) ?d2 = Some (r, d')"
      "tx_wf refs senders (mc(m := 0)) (bc(b := 0)) d'" "dev_msgs d' m \<noteq> None"
      "dev_wire d' = dev_wire ?d2 @ take n fs" "n \<le> length fs"
      "r = Inr () \<longleftrightarrow> n = length fs" "r = Inr () \<longrightarrow> bp_free_count (dev_bpool ?d2) \<le> bp_free_count (dev_bpool d')" "env_good e \<longrightarrow> r = Inr ()"
      by blast
    with mono show ?thesis unfolding eq
      by (intro exI [of _ r] exI [of _ d'] exI [of _ "Suc n"]) (auto simp del: fun_upd_apply)
  qed
qed

section \<open>A batch\<close>

text \<open>The part of a message in the batch that starts with frame \<open>k\<close>.\<close>

definition batch_part :: "byte list \<Rightarrow> nat \<Rightarrow> nat" where
  "batch_part data k = min (length data - k * STREAM_PAYLOAD_MAX) (BATCH_FRAMES * STREAM_PAYLOAD_MAX)"

definition batch_count :: "byte list \<Rightarrow> nat \<Rightarrow> nat" where
  "batch_count data k = DIV_ROUND_UP (batch_part data k) STREAM_PAYLOAD_MAX"

lemma batch_count_eq:
  "batch_count data k = min (DIV_ROUND_UP (length data) STREAM_PAYLOAD_MAX - k) BATCH_FRAMES"
proof -
  have "i < batch_count data k \<longleftrightarrow> i < min (DIV_ROUND_UP (length data) STREAM_PAYLOAD_MAX - k) BATCH_FRAMES" for i
  proof -
    have "i < DIV_ROUND_UP (length data) STREAM_PAYLOAD_MAX - k \<longleftrightarrow> (k + i) * STREAM_PAYLOAD_MAX < length data"
      unfolding less_frames_iff [symmetric] by linarith
    also have "\<dots> \<longleftrightarrow> i * STREAM_PAYLOAD_MAX < length data - k * STREAM_PAYLOAD_MAX" by (simp add: add_mult_distrib less_diff_conv add.commute)
    finally show ?thesis by (simp add: batch_count_def less_frames_iff batch_part_def)
  qed
  then show ?thesis by (metis less_irrefl_nat linorder_neqE_nat)
qed

lemma batch_count_pos: "k * STREAM_PAYLOAD_MAX < length data \<Longrightarrow> 0 < batch_count data k"
  unfolding batch_count_eq less_frames_iff [symmetric] by (simp add: BATCH_FRAMES_eq)

lemma batch_frame_at:
  assumes "i < batch_count data k"
  shows "hdr_bytes (batch_hdr sid dst data (k * STREAM_PAYLOAD_MAX) (batch_part data k) (of_nat k) i) @
      frame_payload data (k * STREAM_PAYLOAD_MAX) (batch_part data k) i = msg_frames sid dst data ! (k + i)"
proof -
  have lt: "i * STREAM_PAYLOAD_MAX < batch_part data k" using assms by (simp add: batch_count_def less_frames_iff)
  then have pos: "(k + i) * STREAM_PAYLOAD_MAX < length data"
    by (simp add: batch_part_def add_mult_distrib less_diff_conv add.commute)
  have "frame_payload data (k * STREAM_PAYLOAD_MAX) (batch_part data k) i
      = take STREAM_PAYLOAD_MAX (drop ((k + i) * STREAM_PAYLOAD_MAX) data)"
  proof (cases "batch_part data k = BATCH_FRAMES * STREAM_PAYLOAD_MAX")
    case True
    then have "Suc i \<le> BATCH_FRAMES" using lt by simp
    then have "Suc i * STREAM_PAYLOAD_MAX \<le> batch_part data k" unfolding True by (rule mult_le_mono1)
    then have "min (batch_part data k - i * STREAM_PAYLOAD_MAX) STREAM_PAYLOAD_MAX = STREAM_PAYLOAD_MAX" by simp
    then show ?thesis by (simp add: frame_payload_def add_mult_distrib Let_def)
  next
    case False
    then have "batch_part data k = length data - k * STREAM_PAYLOAD_MAX" by (simp add: batch_part_def min_def split: if_splits)
    then show ?thesis by (simp add: frame_payload_def add_mult_distrib Let_def min_def)
  qed
  then show ?thesis
    using msg_frames_nth [OF pos, of sid dst] by (simp add: batch_hdr_def Let_def add_mult_distrib add.assoc)
qed

lemma batch_part_end:
  assumes "k * STREAM_PAYLOAD_MAX < length data"
  shows "k * STREAM_PAYLOAD_MAX + batch_part data k = min ((k + batch_count data k) * STREAM_PAYLOAD_MAX) (length data)"
proof (cases "batch_count data k = BATCH_FRAMES")
  case True
  show ?thesis using assms unfolding True batch_part_def add_mult_distrib by linarith
next
  case False
  then have c: "batch_count data k = DIV_ROUND_UP (length data) STREAM_PAYLOAD_MAX - k" "batch_count data k < BATCH_FRAMES"
    unfolding batch_count_eq by auto
  have "\<not> (k + batch_count data k) * STREAM_PAYLOAD_MAX < length data" unfolding less_frames_iff [symmetric] c(1) by simp
  moreover have "batch_count data k * STREAM_PAYLOAD_MAX < BATCH_FRAMES * STREAM_PAYLOAD_MAX" using c(2) by simp
  ultimately show ?thesis using assms unfolding batch_part_def add_mult_distrib by linarith
qed

text \<open>The pool has handed out buffer \<open>b\<close>, and none of its frames is on the ring.\<close>

lemma send_batch_ok:
  assumes "tx_wf refs senders mc bc d" "b \<in> batch_pool_used (dev_bpool d)" "batch_frames_out d b = 0" "bc b = 0" "mc m = 0"
    "m \<in> senders" "dev_msgs d m \<noteq> None" "k * STREAM_PAYLOAD_MAX < length data"
  shows "\<exists>r d' n. send_batch e m sid dst data (k * STREAM_PAYLOAD_MAX) (of_nat k) b d = Some (r, d') \<and>
    tx_wf refs senders mc bc d' \<and> dev_msgs d' m \<noteq> None \<and>
    dev_wire d' = dev_wire d @ take n (drop k (msg_frames sid dst data)) \<and> n \<le> batch_count data k \<and>
    (r = Inr () \<longleftrightarrow> n = batch_count data k) \<and> (r = Inr () \<longrightarrow> bp_free_count (dev_bpool d) \<le> bp_free_count (dev_bpool d')) \<and>
    (env_good e \<longrightarrow> r = Inr ())"
proof -
  note I = tx_baseD [OF tx_wfD(1) [OF assms(1)]]
  have b: "b < BATCH_BUF_COUNT" using assms(2) by (simp add: batch_pool_used_def)
  note bb = batch_pool_bufs [OF I(2) b]
  let ?x = "bp_bufs (dev_bpool d) ! b"
  let ?hs = "batch_hdr sid dst data (k * STREAM_PAYLOAD_MAX) (batch_part data k) (of_nat k)"
  let ?ps = "frame_payload data (k * STREAM_PAYLOAD_MAX) (batch_part data k)"
  let ?n = "batch_count data k" and ?fs = "take (batch_count data k) (drop k (msg_frames sid dst data))"
  have n: "?n \<le> BATCH_FRAMES" "length ?fs = ?n" unfolding batch_count_eq by (simp_all add: length_msg_frames)
  obtain mem where mem: "bb_virt ?x = Some mem" "length mem = BATCH_BUF_SIZE" "length (bb_frames ?x) = BATCH_FRAMES"
    using bb(1) by (auto simp: buf_ok_def split: option.splits)
  have len: "length (?ps j) \<le> STREAM_PAYLOAD_MAX" for j by (simp add: frame_payload_def Let_def)
  obtain ok mem' fr where f: "fill_frames (te_copy_ok e) ?hs ?ps 0 ?n ?x = Some (ok, ?x\<lparr>bb_virt := Some mem', bb_frames := fr\<rparr>)"
    "length mem' = BATCH_BUF_SIZE" "length fr = BATCH_FRAMES" "(\<forall>j. te_copy_ok e j) \<longrightarrow> ok"
    "ok \<longrightarrow> (\<forall>j < 0 + ?n. batch_frame_bytes (?x\<lparr>bb_virt := Some mem', bb_frames := fr\<rparr>) j = hdr_bytes (?hs j) @ ?ps j)"
    using fill_frames_ok [OF mem, of 0 ?n ?ps ?hs "te_copy_ok e"] n(1) len by auto
  define y where "y = (if ok then ?x\<lparr>bb_virt := Some mem', bb_frames := fr, bb_tx_msg := Some m, bb_total_frames := ?n,
      bb_frames_pending := int ?n\<rparr> else ?x\<lparr>bb_virt := Some mem', bb_frames := fr\<rparr>)"
  let ?q = "(dev_bpool d)\<lparr>bp_bufs := (bp_bufs (dev_bpool d))[b := y]\<rparr>"
  let ?c = "if ok then int ?n else 0"
  have "buf_ok (b \<notin> set (bp_free_list (dev_bpool d))) y" using bb(1) f(2,3) by (simp add: buf_ok_def y_def)
  note up = batch_buf_upd_wf [OF I(2) b this]
  have wf1: "tx_wf refs senders mc (bc(b := ?c)) (d\<lparr>dev_bpool := ?q\<rparr>)"
    by (rule tx_wf_batch [OF assms(1) b up(1)]) (use I(10) [OF b] assms(2-4) bb(2) up(2) in \<open>auto simp: y_def\<close>)
  obtain msg where msg: "dev_msgs d m = Some msg" using assms(7) by blast
  have id: "bc(b := 0) = bc" "mc(m := 0) = mc" using assms(4,5) by (simp_all add: fun_upd_idem)
  have gb: "get_batch b d = Some ?x" using bb(2) by (simp add: get_batch_def Let_def)
  show ?thesis
  proof (cases ok)
    case False
    let ?d1 = "d\<lparr>dev_bpool := ?q\<rparr>"
    have "batch_frames_out ?d1 b = 0" using assms(3) by (simp add: batch_frames_out_def)
    then obtain q where q: "batch_return b ?d1 = Some (?d1\<lparr>dev_bpool := q\<rparr>)" "tx_wf refs senders mc bc (?d1\<lparr>dev_bpool := q\<rparr>)"
      using batch_return_wf [of refs senders mc bc ?d1 b] wf1 False assms(2,4) up(2) id(1) by auto
    have "send_batch e m sid dst data (k * STREAM_PAYLOAD_MAX) (of_nat k) b d = Some (Inl EFAULT, ?d1\<lparr>dev_bpool := q\<rparr>)"
      using gb f(1) False bb(2) q(1)
      by (simp add: send_batch_def Let_def upd_batch_def y_def batch_part_def [symmetric] batch_count_def [symmetric])
    moreover have "\<not> env_good e" using f(4) False by (auto simp: env_good_def)
    ultimately show ?thesis using q(2) assms(7) batch_count_pos [OF assms(8)]
      by (intro exI [of _ "Inl EFAULT"] exI [of _ "?d1\<lparr>dev_bpool := q\<rparr>"] exI [of _ 0]) simp
  next
    case True
    let ?x' = "msg\<lparr>tm_frames_pending := tm_frames_pending msg + int ?n, tm_sent := tm_sent msg + batch_part data k\<rparr>"
    let ?d1 = "d\<lparr>dev_bpool := ?q\<rparr>"
    let ?d2 = "?d1\<lparr>dev_msgs := (dev_msgs ?d1)(m \<mapsto> ?x')\<rparr>"
    have eq: "send_batch e m sid dst data (k * STREAM_PAYLOAD_MAX) (of_nat k) b d = submit_frames e m b 0 (length ?fs) ?d2"
      unfolding n(2) using gb f(1) True bb(2) msg
      by (simp add: send_batch_def Let_def upd_batch_def upd_msg_def y_def batch_part_def [symmetric] batch_count_def [symmetric])
    have "msg_ok (m \<in> senders) (msg_frames_out ?d1 m) ((mc(m := int ?n)) m) ?x'"
      using tx_wfD(2) [OF wf1, of m msg] msg assms(5,6) by (simp add: msg_ok_def)
    then have "tx_wf refs senders (mc(m := int ?n)) (bc(b := int ?n)) ?d2"
      using True wf1 msg by (intro tx_wf_msg [of refs senders mc _ ?d1]) simp_all
    then have wf2: "tx_wf refs senders (mc(m := int (length ?fs))) (bc(b := int (length ?fs))) ?d2" unfolding n(2) .
    have "BatchFrame b j \<notin> set (dev_tx_pending d)" for j
      using no_batch_frame [OF assms(3), of "BatchFrame b j"] by (auto simp: is_batch_frame_def)
    moreover have "batch_frame_bytes y j = ?fs ! j" if "j < length ?fs" for j
      using f(5) True that batch_frame_at [of j data k sid dst] n(2) less_frames_iff [of k "length data"] assms(8)
      by (simp add: y_def batch_frame_bytes_def length_msg_frames)
    ultimately have "batch_armed m b 0 ?fs ?d2" using b bb(2) True by (simp add: batch_armed_def) (simp add: y_def)
    from submit_frames_ok [OF wf2 this assms(6), of e] show ?thesis
      unfolding eq id n(2) by (auto simp: min_def)
  qed
qed

section \<open>The throughput loop\<close>

definition batching :: "(nat \<Rightarrow> nat) \<Rightarrow> nat set \<Rightarrow> (nat \<Rightarrow> int) \<Rightarrow> (nat \<Rightarrow> int) \<Rightarrow> nat \<Rightarrow> byte list \<Rightarrow> nat \<Rightarrow> odl_device \<Rightarrow> bool"
  where
  "batching refs senders mc bc m data k d \<longleftrightarrow> tx_wf refs senders mc bc d \<and> m \<in> senders \<and> mc m = 0 \<and> dev_msgs d m \<noteq> None \<and>
     k \<le> DIV_ROUND_UP (length data) STREAM_PAYLOAD_MAX"

lemma tx_wf_batch_get:
  assumes "tx_wf refs senders mc bc d" "0 < bp_free_count (dev_bpool d)"
  obtains b q where "batch_pool_get (dev_bpool d) = Some (Some b, q)" "tx_wf refs senders mc bc (d\<lparr>dev_bpool := q\<rparr>)"
    "b \<in> batch_pool_used q" "batch_frames_out d b = 0" "bc b = 0" "bp_free_count q = bp_free_count (dev_bpool d) - 1"
proof -
  note I = tx_baseD [OF tx_wfD(1) [OF assms(1)]]
  obtain b rest where fl: "bp_free_list (dev_bpool d) = b # rest"
    using assms(2) I(2) by (cases "bp_free_list (dev_bpool d)") (auto simp: batch_pool_wf_def)
  have b: "b < BATCH_BUF_COUNT" "b < length (bp_bufs (dev_bpool d))" using I(2) fl by (auto simp: batch_pool_wf_def)
  define q where "q = (dev_bpool d)\<lparr>bp_free_list := rest, bp_bufs := (bp_bufs (dev_bpool d))[b := (bp_bufs (dev_bpool d) ! b)\<lparr>bb_in_use := True\<rparr>],
    bp_free_count := bp_free_count (dev_bpool d) - 1\<rparr>"
  have g: "batch_pool_get (dev_bpool d) = Some (Some b, q)" using fl b(2) by (simp add: batch_pool_get_def q_def)
  note gs = batch_pool_get_slot [OF I(2) g]
  have z: "batch_frames_out d b = 0" "bc b = 0" using I(9,11) [OF b(1)] gs by fastforce+
  have "tx_wf refs senders mc (bc(b := 0)) (d\<lparr>dev_bpool := q\<rparr>)"
    by (rule tx_wf_batch [OF assms(1) b(1)]) (use gs I(10) [OF b(1)] z b(2) in \<open>auto simp: q_def\<close>)
  moreover have "bc(b := 0) = bc" using z(2) by (simp add: fun_upd_idem)
  ultimately show thesis using g gs z by (intro that [of b q]) (auto simp: q_def)
qed

lemma throughput_round:
  fixes sid dst :: u8
  assumes "batching refs senders mc bc m data k d" "k * STREAM_PAYLOAD_MAX < length data"
  defines "fs \<equiv> msg_frames sid dst data" and "l \<equiv> k + batch_count data k"
    and "loop \<equiv> \<lambda>es k. throughput_loop es m sid dst data (min (k * STREAM_PAYLOAD_MAX) (length data)) (of_nat k)"
  obtains (stop) err d1 n where "loop (e # es) k d = Some (TxReturned (Inl err), d1)"
      "tx_wf refs senders mc bc d1" "dev_msgs d1 m \<noteq> None" "wire_grown fs k (k + n) d d1" "k + n < length fs"
      "\<not> (env_good e \<and> 0 < bp_free_count (dev_bpool d))"
  | (wait) d1 where "loop (e # es) k d = loop es k d1"
      "batching refs senders mc bc m data k d1" "dev_wire d1 = dev_wire d" "\<not> 0 < bp_free_count (dev_bpool d)"
  | (sent) d1 where "loop (e # es) k d = loop es l d1" "batching refs senders mc bc m data l d1"
      "dev_wire d1 = dev_wire d @ take (l - k) (drop k fs)" "bp_free_count (dev_bpool d) - 1 \<le> bp_free_count (dev_bpool d1)"
proof -
  have min: "min (k * STREAM_PAYLOAD_MAX) (length data) = k * STREAM_PAYLOAD_MAX" using assms(2) by simp
  note step = throughput_loop.simps [of "e # es" m sid dst data "k * STREAM_PAYLOAD_MAX" "of_nat k" d]
  have B: "tx_wf refs senders mc bc d" "m \<in> senders" "mc m = 0" "k < length fs"
    and msg: "\<exists>x. dev_msgs d m = Some x" using assms(1,2) less_frames_iff by (auto simp: batching_def fs_def length_msg_frames)
  obtain d1 where d1: "tx_complete_all (te_done e) d = Some d1" "tx_wf refs senders mc bc d1" "undisturbed senders bc d d1"
    using tx_complete_all_wf [OF B(1)] by blast
  have mono: "dev_wire d1 = dev_wire d" "bp_free_count (dev_bpool d) \<le> bp_free_count (dev_bpool d1)"
    using d1(3) by (simp_all add: undisturbed_def)
  have m1: "dev_msgs d1 m \<noteq> None" using undisturbed_alive [OF d1(3) B(2)] msg by auto
  show thesis
  proof (cases "0 < bp_free_count (dev_bpool d1)")
    case False
    show thesis
    proof (cases "te_wait e = WSleep")
      case True
      then have "loop (e # es) k d = loop es k d1"
        unfolding loop_def min using False d1(1) assms(2) by (subst step) simp
      moreover have "batching refs senders mc bc m data k d1" using assms(1) d1(2) m1 by (simp add: batching_def)
      ultimately show thesis using mono False wait by simp
    next
      case nosleep: False
      have "\<exists>err. loop (e # es) k d = Some (TxReturned (Inl err), d1)"
        unfolding loop_def min using False nosleep d1(1) assms(2) by (subst step) (cases "te_wait e"; simp)
      with mono False d1(2) m1 B(4) stop [of _ d1 0] show thesis by (auto simp: wire_grown_def)
    qed
  next
    case True
    obtain b q where g: "batch_pool_get (dev_bpool d1) = Some (Some b, q)" "tx_wf refs senders mc bc (d1\<lparr>dev_bpool := q\<rparr>)"
      "b \<in> batch_pool_used q" "batch_frames_out d1 b = 0" "bc b = 0" "bp_free_count q = bp_free_count (dev_bpool d1) - 1"
      using d1(2) True by (rule tx_wf_batch_get)
    have "batch_frames_out (d1\<lparr>dev_bpool := q\<rparr>) b = 0" using g(4) by (simp add: batch_frames_out_def)
    then obtain r d2 n where s: "send_batch e m sid dst data (k * STREAM_PAYLOAD_MAX) (of_nat k) b (d1\<lparr>dev_bpool := q\<rparr>) = Some (r, d2)"
      "tx_wf refs senders mc bc d2" "dev_msgs d2 m \<noteq> None" "dev_wire d2 = dev_wire d1 @ take n (drop k fs)" "n \<le> batch_count data k"
      "r = Inr () \<longleftrightarrow> n = batch_count data k" "r = Inr () \<longrightarrow> bp_free_count q \<le> bp_free_count (dev_bpool d2)" "env_good e \<longrightarrow> r = Inr ()"
      using send_batch_ok [OF g(2), of b m k data e sid dst] g(3,5) B(2,3) m1 assms(2) by (auto simp: fs_def)
    have l: "k + batch_count data k \<le> length fs"
      using B(4) unfolding batch_count_eq by (simp add: fs_def length_msg_frames)
    have pos: "k * STREAM_PAYLOAD_MAX + batch_part data k = min (l * STREAM_PAYLOAD_MAX) (length data)"
      using batch_part_end [OF assms(2)] by (simp add: l_def)
    have fr: "of_nat k + of_nat (batch_count data k) = (of_nat l :: u16)" by (simp add: l_def)
    have eq: "loop (e # es) k d = (case r of Inl err \<Rightarrow> Some (TxReturned (Inl err), d2) | Inr _ \<Rightarrow> loop es l d2)"
      unfolding loop_def min pos [symmetric] fr [symmetric] using True d1(1) assms(2) g(1) s(1)
      by (subst step) (cases r; simp add: Let_def batch_part_def [symmetric] batch_count_def [symmetric])
    show thesis
    proof (cases r)
      case (Inl err)
      with eq s mono l True stop [of err d2 n] show thesis by (auto simp: wire_grown_def)
    next
      case (Inr u)
      with s l g(6) B(2,3) mono have "batching refs senders mc bc m data l d2" "dev_wire d2 = dev_wire d @ take (l - k) (drop k fs)"
        "bp_free_count (dev_bpool d) - 1 \<le> bp_free_count (dev_bpool d2)"
        by (auto simp: batching_def l_def fs_def length_msg_frames)
      with eq Inr show thesis by (intro sent [of d2]) simp_all
    qed
  qed
qed

text \<open>Enough buffers for all batches.\<close>

definition throughput_room :: "tx_env list \<Rightarrow> nat \<Rightarrow> odl_device \<Rightarrow> bool" where
  "throughput_room envs n d \<longleftrightarrow> DIV_ROUND_UP n BATCH_FRAMES \<le> length envs \<and> list_all env_good envs \<and>
     int (DIV_ROUND_UP n BATCH_FRAMES) \<le> bp_free_count (dev_bpool d)"

lemma throughput_loop_ok:
  fixes sid dst :: u8
  assumes "batching refs senders mc bc m data k d"
  defines "fs \<equiv> msg_frames sid dst data"
  shows "\<exists>r d' j. throughput_loop envs m sid dst data (min (k * STREAM_PAYLOAD_MAX) (length data)) (of_nat k) d = Some (r, d') \<and>
    tx_wf refs senders mc bc d' \<and> dev_msgs d' m \<noteq> None \<and> wire_grown fs k j d d' \<and> (r = TxReturned (Inr ()) \<longleftrightarrow> j = length fs) \<and>
    (throughput_room envs (length fs - k) d \<longrightarrow> r = TxReturned (Inr ()))"
  using assms(1)
proof (induction envs arbitrary: k d)
  case Nil
  then have k: "k \<le> length fs" "k = length fs \<longleftrightarrow> \<not> k * STREAM_PAYLOAD_MAX < length data"
    using less_frames_iff [of k "length data"] by (auto simp: batching_def fs_def length_msg_frames)
  have "throughput_loop [] m sid dst data (min (k * STREAM_PAYLOAD_MAX) (length data)) (of_nat k) d =
      Some (if k * STREAM_PAYLOAD_MAX < length data then TxWaiting else TxReturned (Inr ()), d)"
    by (subst throughput_loop.simps) auto
  moreover have "\<not> throughput_room [] (length fs - k) d" if "k \<noteq> length fs"
    using that k(1) DIV_ROUND_UP_step [of "length fs - k" BATCH_FRAMES] by (simp add: throughput_room_def BATCH_FRAMES_eq)
  ultimately show ?case using Nil k wire_grown_refl [of k fs d d] by (cases "k = length fs") (auto simp: batching_def)
next
  case (Cons e es)
  have k: "k \<le> length fs" "k = length fs \<longleftrightarrow> \<not> k * STREAM_PAYLOAD_MAX < length data"
    using Cons.prems less_frames_iff [of k "length data"] by (auto simp: batching_def fs_def length_msg_frames)
  show ?case
  proof (cases "k * STREAM_PAYLOAD_MAX < length data")
    case False
    then have "throughput_loop (e # es) m sid dst data (min (k * STREAM_PAYLOAD_MAX) (length data)) (of_nat k) d =
        Some (TxReturned (Inr ()), d)" by (subst throughput_loop.simps) auto
    with False k Cons.prems wire_grown_refl [of k fs d d] show ?thesis by (auto simp: batching_def)
  next
    case True
    with k have "0 < length fs - k" by simp
    then have up: "DIV_ROUND_UP (length fs - k) BATCH_FRAMES = Suc (DIV_ROUND_UP (length fs - k - BATCH_FRAMES) BATCH_FRAMES)"
      by (rule DIV_ROUND_UP_step) (simp add: BATCH_FRAMES_eq)
    from Cons.prems True show ?thesis
    proof (cases rule: throughput_round [where e = e and es = es and sid = sid and dst = dst])
      case (stop err d1 n)
      have "\<not> throughput_room (e # es) (length fs - k) d" using stop(6) up by (auto simp: throughput_room_def)
      with stop show ?thesis unfolding fs_def
        by (intro exI [of _ "TxReturned (Inl err)"] exI [of _ d1] exI [of _ "k + n"]) simp
    next
      case (wait d1)
      have "\<not> throughput_room (e # es) (length fs - k) d" using wait(4) up by (auto simp: throughput_room_def)
      with Cons.IH [OF wait(2)] wait show ?thesis by (auto simp: wire_grown_def)
    next
      case (sent d1)
      let ?l = "k + batch_count data k"
      from Cons.IH [OF sent(2)] obtain r d' j where
        L: "throughput_loop es m sid dst data (min (?l * STREAM_PAYLOAD_MAX) (length data)) (of_nat ?l) d1 = Some (r, d')"
        "tx_wf refs senders mc bc d'" "dev_msgs d' m \<noteq> None" "wire_grown fs ?l j d1 d'" "r = TxReturned (Inr ()) \<longleftrightarrow> j = length fs"
        "throughput_room es (length fs - ?l) d1 \<longrightarrow> r = TxReturned (Inr ())" by blast
      have "wire_grown fs k j d d'"
        by (rule wire_grown_step [OF L(4)]) (use sent(3) in \<open>simp_all add: fs_def\<close>)
      moreover have "length fs - ?l = length fs - k - BATCH_FRAMES" unfolding batch_count_eq by (simp add: fs_def length_msg_frames)
      then have "throughput_room es (length fs - ?l) d1" if "throughput_room (e # es) (length fs - k) d"
        using that sent(4) up by (auto simp: throughput_room_def)
      ultimately show ?thesis using L sent(1) by (intro exI [of _ r] exI [of _ d'] exI [of _ j]) auto
    qed
  qed
qed

end
