(* ===== verification/Stream_Send.thy ===== *)
theory Stream_Send
  imports Tx_Batch
begin

text \<open>
  The send call as a whole: what it puts on the wire, when it succeeds, that no schedule of sends, completions and stream
  operations uses freed memory, and that the choice between the two modes has the hysteresis it is meant to have.
\<close>

section \<open>Both modes send the same frames\<close>

lemma tx_conclude_ok:
  assumes "tx_wf refs (insert m senders) mc bc d" "dev_msgs d m \<noteq> None" "mc m = 0" "m \<notin> senders"
  shows "\<exists>d'. tx_conclude last_done m (Some (r, d)) = Some (r, d') \<and> dev_wire d' = dev_wire d \<and>
    tx_wf refs (case r of TxWaiting \<Rightarrow> insert m senders | TxReturned _ \<Rightarrow> senders) mc bc d'"
proof -
  obtain msg where msg: "dev_msgs d m = Some msg" using assms(2) by blast
  have out: "insert m senders - {m} = senders" using assms(4) by simp
  have fin: "\<exists>d'. tx_finish m d = Some d' \<and> tx_wf refs senders mc bc d' \<and> dev_wire d' = dev_wire d"
    using tx_finish_wf [OF assms(1) _ msg assms(3)] unfolding out by (auto simp: undisturbed_def)
  have ab: "\<exists>d'. tx_abort last_done m d = Some d' \<and> tx_wf refs senders mc bc d' \<and> dev_wire d' = dev_wire d"
    using tx_abort_wf [OF assms(1) _ msg assms(3), of last_done] unfolding out by auto
  show ?thesis
  proof (cases r)
    case TxWaiting
    with assms(1) show ?thesis by (simp add: tx_conclude_def)
  next
    case (TxReturned x)
    with fin ab show ?thesis by (cases x) (auto simp: tx_conclude_def)
  qed
qed

text \<open>What a send call promises: on success all frames of the message, otherwise a proper prefix of them.\<close>

definition sends_message ::
  "(nat \<Rightarrow> nat) \<Rightarrow> nat set \<Rightarrow> nat \<Rightarrow> byte list list \<Rightarrow> odl_device \<Rightarrow> ((errno + unit) tx_result \<times> odl_device) option \<Rightarrow> bool" where
  "sends_message refs senders m fs d res \<longleftrightarrow>
     (\<exists>r d' j. res = Some (r, d') \<and> dev_wire d' = dev_wire d @ take j fs \<and> j \<le> length fs \<and>
        (r = TxReturned (Inr ()) \<longleftrightarrow> j = length fs) \<and>
        tx_wf refs (case r of TxWaiting \<Rightarrow> insert m senders | TxReturned _ \<Rightarrow> senders) (\<lambda>_. 0) (\<lambda>_. 0) d')"

text \<open>A send is a loop between the beginning and the conclusion. \<open>room\<close> is a condition under which the loop succeeds.\<close>

definition loop_sends ::
  "(nat \<Rightarrow> nat) \<Rightarrow> nat set \<Rightarrow> nat \<Rightarrow> byte list list \<Rightarrow> bool \<Rightarrow> odl_device \<Rightarrow> ((errno + unit) tx_result \<times> odl_device) option \<Rightarrow> bool"
  where
  "loop_sends refs senders m fs room d res \<longleftrightarrow>
     (\<exists>r d' j. res = Some (r, d') \<and> tx_wf refs senders (\<lambda>_. 0) (\<lambda>_. 0) d' \<and> dev_msgs d' m \<noteq> None \<and> wire_grown fs 0 j d d' \<and>
        (r = TxReturned (Inr ()) \<longleftrightarrow> j = length fs) \<and> (room \<longrightarrow> r = TxReturned (Inr ())))"

lemma send_by_loop:
  assumes "tx_wf refs senders (\<lambda>_. 0) (\<lambda>_. 0) d" "dev_msgs d m = None" "m \<notin> senders" "dev_heap d a = Some s"
    and loop: "\<And>H d1. d1 = d\<lparr>dev_msgs := (dev_msgs d)(m \<mapsto> new_tx_msg dst len a), dev_heap := H\<rparr> \<Longrightarrow>
      tx_wf refs (insert m senders) (\<lambda>_. 0) (\<lambda>_. 0) d1 \<Longrightarrow> loop_sends refs (insert m senders) m fs room d1 (loop (st_id s) d1)"
    and res: "res = do { d \<leftarrow> tx_begin m a dst len d; s \<leftarrow> dev_heap d a; tx_conclude last_done m (loop (st_id s) d) }"
  shows "sends_message refs senders m fs d res \<and> (room \<longrightarrow> (\<exists>d'. res = Some (TxReturned (Inr ()), d')))"
proof -
  let ?up = "\<lambda>H. d\<lparr>dev_msgs := (dev_msgs d)(m \<mapsto> new_tx_msg dst len a), dev_heap := H\<rparr>"
  obtain H where b: "tx_begin m a dst len d = Some (?up H)"
    "tx_wf refs (insert m senders) (\<lambda>_. 0) (\<lambda>_. 0) (?up H)" "map_option st_id (H a) = Some (st_id s)"
    using tx_begin_wf [OF assms(1,2,4)] by blast
  obtain r d1 j where L: "loop (st_id s) (?up H) = Some (r, d1)" "tx_wf refs (insert m senders) (\<lambda>_. 0) (\<lambda>_. 0) d1"
    "dev_msgs d1 m \<noteq> None" "wire_grown fs 0 j (?up H) d1" "r = TxReturned (Inr ()) \<longleftrightarrow> j = length fs"
    "room \<longrightarrow> r = TxReturned (Inr ())" using loop [OF refl b(2)] by (auto simp: loop_sends_def)
  obtain d2 where d2: "tx_conclude last_done m (Some (r, d1)) = Some (r, d2)" "dev_wire d2 = dev_wire d1"
    "tx_wf refs (case r of TxWaiting \<Rightarrow> insert m senders | TxReturned _ \<Rightarrow> senders) (\<lambda>_. 0) (\<lambda>_. 0) d2"
    using tx_conclude_ok [OF L(2,3) _ assms(3)] by blast
  have eq: "res = Some (r, d2)" using b(1,3) L(1) d2(1) by (auto simp: res)
  then have "sends_message refs senders m fs d res"
    unfolding sends_message_def using L(4,5) d2(2,3)
    by (intro exI [of _ r] exI [of _ d2] exI [of _ j]) (simp add: wire_grown_def)
  with L(6) eq show ?thesis by simp
qed

lemma send_latency_ok:
  fixes dst :: u8 and data :: "byte list"
  assumes "tx_wf refs senders (\<lambda>_. 0) (\<lambda>_. 0) d" "dev_msgs d m = None" "m \<notin> senders" "dev_heap d a = Some s"
  defines "fs \<equiv> msg_frames (st_id s) dst data"
  shows "sends_message refs senders m fs d (stream_send_latency envs last_done (Some m) a dst data d) \<and>
    (latency_room envs (length fs) d \<longrightarrow> (\<exists>d'. stream_send_latency envs last_done (Some m) a dst data d = Some (TxReturned (Inr ()), d')))"
proof (rule send_by_loop [OF assms(1-4), where loop = "\<lambda>sid. latency_loop envs m sid dst data 0"])
  fix H d1
  assume d1: "d1 = d\<lparr>dev_msgs := (dev_msgs d)(m \<mapsto> new_tx_msg dst (length data) a), dev_heap := H\<rparr>"
    and "tx_wf refs (insert m senders) (\<lambda>_. 0) (\<lambda>_. 0) d1"
  then have "sending refs (insert m senders) (\<lambda>_. 0) (\<lambda>_. 0) m data 0 d1" by (simp add: sending_def new_tx_msg_def)
  from latency_loop_ok [OF this, of envs "st_id s" dst]
  show "loop_sends refs (insert m senders) m fs (latency_room envs (length fs) d) d1 (latency_loop envs m (st_id s) dst data 0 d1)"
    unfolding loop_sends_def fs_def by (fastforce simp: sending_def latency_room_def d1)
qed (simp add: stream_send_latency_def)

lemma send_throughput_ok:
  fixes dst :: u8 and data :: "byte list"
  assumes "tx_wf refs senders (\<lambda>_. 0) (\<lambda>_. 0) d" "dev_msgs d m = None" "m \<notin> senders" "dev_heap d a = Some s"
  defines "fs \<equiv> msg_frames (st_id s) dst data"
  shows "sends_message refs senders m fs d (stream_send_throughput envs last_done (Some m) a dst data d) \<and>
    (throughput_room envs (length fs) d \<longrightarrow> (\<exists>d'. stream_send_throughput envs last_done (Some m) a dst data d = Some (TxReturned (Inr ()), d')))"
proof (rule send_by_loop [OF assms(1-4), where loop = "\<lambda>sid. throughput_loop envs m sid dst data 0 0"])
  fix H d1
  assume d1: "d1 = d\<lparr>dev_msgs := (dev_msgs d)(m \<mapsto> new_tx_msg dst (length data) a), dev_heap := H\<rparr>"
    and "tx_wf refs (insert m senders) (\<lambda>_. 0) (\<lambda>_. 0) d1"
  then have "batching refs (insert m senders) (\<lambda>_. 0) (\<lambda>_. 0) m data 0 d1" by (simp add: batching_def)
  from throughput_loop_ok [OF this, of envs "st_id s" dst]
  show "loop_sends refs (insert m senders) m fs (throughput_room envs (length fs) d) d1 (throughput_loop envs m (st_id s) dst data 0 0 d1)"
    unfolding loop_sends_def fs_def by (fastforce simp: throughput_room_def d1)
qed (simp add: stream_send_throughput_def)

text \<open>The choice of the mode touches only the adaptive state.\<close>

lemma tx_wf_adapt: "tx_wf refs senders mc bc (d\<lparr>dev_adapt := ta\<rparr>) = tx_wf refs senders mc bc d"
proof -
  let ?d = "d\<lparr>dev_adapt := ta\<rparr>"
  have acc: "frame_owner ?d = frame_owner d" "msg_frames_out ?d = msg_frames_out d"
    "batch_frames_out ?d = batch_frames_out d" "stream_msgs ?d = stream_msgs d"
    by (rule frame_accounting_cong stream_msgs_cong; simp)+
  have "streams_wf ext ?d = streams_wf ext d" for ext
    by (simp add: streams_wf_def rx_base_ok_def stream_num_def [abs_def])
  then show ?thesis unfolding tx_wf_def tx_base_def acc by simp
qed

lemma evaluate_tx_mode_state: "\<exists>ta. snd (evaluate_tx_mode n d) = d\<lparr>dev_adapt := ta\<rparr>"
  by (cases "ta_mode (dev_adapt d)") (auto simp: evaluate_tx_mode_def Let_def intro: exI [of _ "dev_adapt d"])

section \<open>The send call\<close>

definition sendable :: "byte list \<Rightarrow> bool" where
  "sendable data \<longleftrightarrow> data \<noteq> [] \<and> length data \<le> STREAM_PAYLOAD_MAX * 4096"

lemma stream_send_ok:
  fixes dst :: u8 and data :: "byte list"
  assumes "tx_wf refs senders (\<lambda>_. 0) (\<lambda>_. 0) d" "dev_msgs d m = None" "m \<notin> senders" "dev_heap d a = Some s"
    "dev_state d = READY" "sendable data"
  defines "fs \<equiv> msg_frames (st_id s) dst data" and "res \<equiv> \<lambda>envs last_done. stream_send envs last_done (Some m) a dst data d"
  shows "sends_message refs senders m fs d (res envs last_done)"
    "(if fst (evaluate_tx_mode (length data) d) = TX_LATENCY then latency_room envs (length fs) d
      else throughput_room envs (length fs) d) \<Longrightarrow> \<exists>d'. res envs last_done = Some (TxReturned (Inr ()), d')"
proof -
  obtain mode ta where ev: "evaluate_tx_mode (length data) d = (mode, d\<lparr>dev_adapt := ta\<rparr>)"
    using evaluate_tx_mode_state [of "length data" d] by (metis prod.collapse)
  let ?d = "d\<lparr>dev_adapt := ta\<rparr>"
  have wf: "tx_wf refs senders (\<lambda>_. 0) (\<lambda>_. 0) ?d" using assms(1) by (simp add: tx_wf_adapt)
  have eq: "res envs last_done = (case mode of TX_THROUGHPUT \<Rightarrow> stream_send_throughput envs last_done (Some m) a dst data ?d
      | TX_LATENCY \<Rightarrow> stream_send_latency envs last_done (Some m) a dst data ?d)"
    using assms(5,6) ev by (simp add: res_def stream_send_def sendable_def split: tx_mode.splits)
  have "sends_message refs senders m fs ?d (res envs last_done) \<and>
    ((if mode = TX_LATENCY then latency_room envs (length fs) ?d else throughput_room envs (length fs) ?d) \<longrightarrow>
       (\<exists>d'. res envs last_done = Some (TxReturned (Inr ()), d')))"
    using send_latency_ok [OF wf, of m a s dst data envs last_done] send_throughput_ok [OF wf, of m a s dst data envs last_done]
      assms(2-4) unfolding eq fs_def by (cases mode) auto
  then show "sends_message refs senders m fs d (res envs last_done)"
    "(if fst (evaluate_tx_mode (length data) d) = TX_LATENCY then latency_room envs (length fs) d
      else throughput_room envs (length fs) d) \<Longrightarrow> \<exists>d'. res envs last_done = Some (TxReturned (Inr ()), d')"
    using ev by (auto simp: sends_message_def latency_room_def throughput_room_def split: if_splits)
qed

text \<open>A call that is refused leaves the device alone, up to the adaptive state.\<close>

lemma stream_send_refused:
  "dev_state d \<noteq> READY \<Longrightarrow> stream_send envs last_done alloc a dst data d = Some (TxReturned (Inl ENOTCONN), d)"
  "dev_state d = READY \<Longrightarrow> \<not> sendable data \<Longrightarrow> stream_send envs last_done alloc a dst data d = Some (TxReturned (Inl EINVAL), d)"
  "dev_state d = READY \<Longrightarrow> sendable data \<Longrightarrow>
    \<exists>ta. stream_send envs last_done None a dst data d = Some (TxReturned (Inl ENOMEM), d\<lparr>dev_adapt := ta\<rparr>)"
proof -
  show "\<exists>ta. stream_send envs last_done None a dst data d = Some (TxReturned (Inl ENOMEM), d\<lparr>dev_adapt := ta\<rparr>)"
    if "dev_state d = READY" "sendable data"
  proof -
    obtain mode ta where "evaluate_tx_mode (length data) d = (mode, d\<lparr>dev_adapt := ta\<rparr>)"
      using evaluate_tx_mode_state [of "length data" d] by (metis prod.collapse)
    with that show ?thesis
      by (auto simp: stream_send_def sendable_def stream_send_latency_def stream_send_throughput_def split: tx_mode.splits)
  qed
qed (auto simp: stream_send_def sendable_def)

section \<open>A device that is ready to send\<close>

text \<open>The state after the pools were allocated and the rings started: nothing is on the transmit ring.\<close>

definition tx_idle :: "(nat \<Rightarrow> nat) \<Rightarrow> odl_device \<Rightarrow> bool" where
  "tx_idle refs d \<longleftrightarrow> frame_pool_wf (dev_pool d) \<and> batch_pool_wf (dev_bpool d) \<and>
     list_all (\<lambda>b. bb_frames_pending b = 0) (bp_bufs (dev_bpool d)) \<and> rc_ring (dev_tx d) \<noteq> None \<and>
     dev_msgs d = Map.empty \<and> dev_tx_pending d = [] \<and> streams_wf refs d"

lemma tx_idle_wf: "tx_idle refs d \<Longrightarrow> tx_wf refs {} (\<lambda>_. 0) (\<lambda>_. 0) d"
  by (auto simp: tx_idle_def tx_wf_def tx_base_def stream_msgs_def batch_frames_out_def list_all_length batch_pool_wf_def)

definition sample_batches :: batch_pool where
  "sample_batches = \<lparr>bp_bufs = replicate BATCH_BUF_COUNT
     \<lparr>bb_virt = Some (replicate BATCH_BUF_SIZE 0), bb_frames = replicate BATCH_FRAMES zero_frame, bb_tx_msg = None,
      bb_frames_pending = 0, bb_total_frames = 0, bb_in_use = False\<rparr>,
     bp_free_list = [0..<BATCH_BUF_COUNT], bp_free_count = int BATCH_BUF_COUNT\<rparr>"

definition sample_sender :: odl_device where
  "sample_sender = (with_stream 21 None 7 sample_device)\<lparr>dev_bpool := sample_batches\<rparr>"

lemma sample_sender_idle: "tx_idle (\<lambda>_. 0) sample_sender"
proof -
  have "streams_wf (\<lambda>_. 0) (with_stream 21 None 7 sample_device)"
    using stream_created_law [OF empty_device_wf [OF sample_device_empty] sample_created] by blast
  then have "streams_wf (\<lambda>_. 0) sample_sender"
    by (rule streams_wf_cong)
      (use sample_pool_ok(1) in \<open>simp_all add: sample_sender_def with_stream_def add_owned_def sample_device_def\<close>)
  moreover have "batch_pool_wf sample_batches"
    by (auto simp: batch_pool_wf_def sample_batches_def buf_ok_def list_all_iff)
  ultimately show ?thesis
    using sample_pool_ok(1)
    by (simp add: tx_idle_def sample_sender_def sample_batches_def with_stream_def add_owned_def sample_device_def sample_ring_def
        list_all_iff)
qed

lemma frame_pool_wf_size: "frame_pool_wf p \<Longrightarrow> fp_size p = FRAME_POOL_SIZE"
  by (erule frame_pool_wfE)

lemma sample_sender_heap: "dev_heap sample_sender 7 = Some (new_stream 21 None)" "dev_msgs sample_sender = Map.empty"
  "dev_state sample_sender = READY" "fp_free_count (dev_pool sample_sender) = 4096" "bp_free_count (dev_bpool sample_sender) = 32"
  "dev_wire sample_sender = []" "bb_virt (bp_bufs (dev_bpool sample_sender) ! 0) = Some (replicate BATCH_BUF_SIZE 0)"
  "dev_adapt sample_sender = \<lparr>ta_mode = TX_LATENCY, ta_consecutive_low = 0, ta_high_watermark = 48, ta_low_watermark = 16\<rparr>"
  "fp_size (dev_pool sample_sender) = 4096"
  using free_count_card [OF sample_pool_ok(1)] sample_pool_ok(2) frame_pool_wf_size [OF sample_pool_ok(1)]
  by (simp_all add: sample_sender_def sample_batches_def with_stream_def add_owned_def sample_device_def driver_consts)

definition sample_env :: tx_env where
  "sample_env = \<lparr>te_done = [], te_wait = WSleep, te_copy_ok = (\<lambda>_. True), te_mid = (\<lambda>_. []), te_tx_ok = (\<lambda>_. True)\<rparr>"

lemma sample_send:
  "\<exists>d'. stream_send [sample_env] [] (Some 1) 7 dst [65, 66, 67] sample_sender = Some (TxReturned (Inr ()), d')"
proof -
  let ?fs = "msg_frames (st_id (new_stream 21 None)) dst [65, 66, 67]"
  have mode: "fst (evaluate_tx_mode (length [65, 66, 67 :: byte]) sample_sender) = TX_LATENCY"
    using sample_sender_heap(4,7-9)
    by (simp add: evaluate_tx_mode_def Let_def THROUGHPUT_THRESH_def DIV_ROUND_UP_def STREAM_PAYLOAD_MAX_eq)
  have room: "latency_room [sample_env] (length ?fs) sample_sender"
    using sample_sender_heap(4)
    by (simp add: latency_room_def env_good_def sample_env_def length_msg_frames DIV_ROUND_UP_def STREAM_PAYLOAD_MAX_eq TX_POOL_RESERVE_def)
  have st: "dev_state sample_sender = READY" "sendable [65, 66, 67 :: byte]"
    using sample_sender_heap(3) by (simp_all add: sendable_def STREAM_PAYLOAD_MAX_eq)
  have free: "dev_msgs sample_sender 1 = None" using sample_sender_heap(2) by simp
  show ?thesis
    using stream_send_ok(2) [OF tx_idle_wf [OF sample_sender_idle] free _ sample_sender_heap(1) st, where dst = dst and
        envs = "[sample_env]" and last_done = "[]"] mode room by auto
qed

section \<open>Properties\<close>

text \<open>C3: Whatever mode \<open>odl_tb5_stream_send\<close> chooses and however completions of earlier frames and of its own frames
  interleave with it, the frames it adds to the wire are those of the reference definition, in order: all of them if and only if it
  returns success, a proper prefix when it fails or still waits. It never runs into undefined behaviour, and the accounting of
  pools, messages and references stays exact. A call on a device that is not ready, or with a message that is empty or longer than
  4096 frames, is refused and sends nothing.\<close>

theorem stream_send_exact:
  assumes "tx_wf refs senders (\<lambda>_. 0) (\<lambda>_. 0) d" "dev_msgs d m = None" "m \<notin> senders" "dev_heap d a = Some s"
  shows "case stream_send envs last_done (Some m) a dst data d of
      None \<Rightarrow> False
    | Some (r, d') \<Rightarrow>
        tx_wf refs (case r of TxWaiting \<Rightarrow> insert m senders | TxReturned _ \<Rightarrow> senders) (\<lambda>_. 0) (\<lambda>_. 0) d' \<and>
        (\<exists>j. dev_wire d' = dev_wire d @ take j (msg_frames (st_id s) dst data) \<and>
           (if dev_state d = READY \<and> sendable data
            then r = TxReturned (Inr ()) \<longleftrightarrow> j \<ge> length (msg_frames (st_id s) dst data)
            else j = 0 \<and> r = TxReturned (Inl (if dev_state d = READY then EINVAL else ENOTCONN))))"
proof (cases "dev_state d = READY \<and> sendable data")
  case True
  then have "sends_message refs senders m (msg_frames (st_id s) dst data) d (stream_send envs last_done (Some m) a dst data d)"
    by (intro stream_send_ok(1) [OF assms]) simp_all
  then obtain r d' j where "stream_send envs last_done (Some m) a dst data d = Some (r, d')"
    "dev_wire d' = dev_wire d @ take j (msg_frames (st_id s) dst data)" "j \<le> length (msg_frames (st_id s) dst data)"
    "r = TxReturned (Inr ()) \<longleftrightarrow> j = length (msg_frames (st_id s) dst data)"
    "tx_wf refs (case r of TxWaiting \<Rightarrow> insert m senders | TxReturned _ \<Rightarrow> senders) (\<lambda>_. 0) (\<lambda>_. 0) d'"
    by (auto simp: sends_message_def)
  with True show ?thesis by (auto intro!: exI [of _ j])
next
  case False
  with stream_send_refused(1,2) [where envs = envs and last_done = last_done and alloc = "Some m" and a = a and dst = dst and d = d and data = data]
    assms(1) show ?thesis
    by (cases "dev_state d = READY") (auto intro!: exI [of _ 0])
qed

theorem stream_send_exact_witness:
  "\<exists>d'. stream_send [sample_env] [] (Some 1) 7 9 [65, 66, 67] sample_sender = Some (TxReturned (Inr ()), d') \<and>
     dev_wire d' = [[21, 9, 3, 0, 3, 0, 0, 0, 65, 66, 67]]"
proof -
  let ?fs = "msg_frames 21 9 [65, 66, 67]"
  have fs: "?fs = [[21, 9, 3, 0, 3, 0, 0, 0, 65, 66, 67]]"
    by (simp add: msg_frames_def STREAM_PAYLOAD_MAX_eq chunks_step hdr_bytes_def frag_hdr_def shdr_flags_def le16_def driver_consts)
  note wf = tx_idle_wf [OF sample_sender_idle]
  have id: "st_id (new_stream 21 None) = 21" by (simp add: new_stream_def)
  have free: "dev_msgs sample_sender 1 = None" using sample_sender_heap(2) by simp
  have st: "dev_state sample_sender = READY" "sendable [65, 66, 67 :: byte]"
    using sample_sender_heap(3) by (simp_all add: sendable_def STREAM_PAYLOAD_MAX_eq)
  obtain d' where d': "stream_send [sample_env] [] (Some 1) 7 9 [65, 66, 67] sample_sender = Some (TxReturned (Inr ()), d')"
    using sample_send by blast
  with stream_send_exact [OF wf free _ sample_sender_heap(1), where dst = 9 and envs = "[sample_env]" and last_done = "[]" and
      data = "[65, 66, 67]", unfolded id] fs st sample_sender_heap(6) show ?thesis by auto
qed

text \<open>C8: A send that has room succeeds. If the frame pool holds the message above the reserve and the batch pool holds
  its batches when the call starts, no copy faults and the ring accepts every descriptor, then the call returns success after at
  most one round per frame, whatever completions happen meanwhile.\<close>

theorem stream_send_progress:
  assumes "tx_wf refs senders (\<lambda>_. 0) (\<lambda>_. 0) d" "dev_msgs d m = None" "m \<notin> senders" "dev_heap d a = Some s"
    "dev_state d = READY" "data \<noteq> []" "length data \<le> STREAM_PAYLOAD_MAX * 4096"
    "n = DIV_ROUND_UP (length data) STREAM_PAYLOAD_MAX" "n \<le> length envs"
    "\<forall>e \<in> set envs. \<forall>i. te_copy_ok e i \<and> te_tx_ok e i"
    "int (TX_POOL_RESERVE + n) \<le> fp_free_count (dev_pool d)" "int (DIV_ROUND_UP n BATCH_FRAMES) \<le> bp_free_count (dev_bpool d)"
  shows "\<exists>d'. stream_send envs last_done (Some m) a dst data d = Some (TxReturned (Inr ()), d')"
proof -
  have "DIV_ROUND_UP n BATCH_FRAMES \<le> n" by (simp add: DIV_ROUND_UP_def BATCH_FRAMES_eq)
  then have "latency_room envs n d" "throughput_room envs n d"
    using assms(9-12) by (auto simp: latency_room_def throughput_room_def list_all_iff env_good_def)
  then show ?thesis
    using stream_send_ok(2) [OF assms(1-5), where data = data and dst = dst and envs = envs and last_done = last_done] assms(6-8) by (simp add: sendable_def length_msg_frames)
qed

theorem stream_send_progress_witness:
  "\<exists>d'. stream_send (replicate 25 sample_env) [] (Some 1) 7 9 (replicate 100000 0) sample_sender = Some (TxReturned (Inr ()), d')"
proof -
  have n: "DIV_ROUND_UP (length (replicate 100000 (0 :: byte))) STREAM_PAYLOAD_MAX = 25"
    by (simp add: DIV_ROUND_UP_def STREAM_PAYLOAD_MAX_eq)
  show ?thesis
    by (rule stream_send_progress [OF tx_idle_wf [OF sample_sender_idle] _ _ sample_sender_heap(1,3), where n = 25])
      (use sample_sender_heap n in \<open>simp_all add: sample_env_def driver_consts DIV_ROUND_UP_def\<close>)
qed

section \<open>Sends, completions and stream operations in any order\<close>

text \<open>The steps that touch transmit messages: a send by a caller that holds a reference to the stream (as the ioctl does),
  a completion, a lookup, the return of a reference and the destruction of a stream.\<close>

inductive tx_trace :: "odl_device \<Rightarrow> (nat \<Rightarrow> nat) \<Rightarrow> odl_device \<Rightarrow> bool" for d0 where
  trace_start: "tx_trace d0 (\<lambda>_. 0) d0"
| trace_send: "tx_trace d0 refs d \<Longrightarrow> 0 < refs a \<Longrightarrow> dev_msgs d m = None \<Longrightarrow>
    stream_send envs last_done (Some m) a dst data d = Some (TxReturned r, d') \<Longrightarrow> tx_trace d0 refs d'"
| trace_complete: "tx_trace d0 refs d \<Longrightarrow> tx_complete rc d = Some d' \<Longrightarrow> tx_trace d0 refs d'"
| trace_found: "tx_trace d0 refs d \<Longrightarrow> stream_lookup i d = Some (Some a, d') \<Longrightarrow> tx_trace d0 (refs(a := Suc (refs a))) d'"
| trace_put: "tx_trace d0 refs d \<Longrightarrow> 0 < refs a \<Longrightarrow> stream_put a d = Some d' \<Longrightarrow> tx_trace d0 (refs(a := refs a - 1)) d'"
| trace_destroy: "tx_trace d0 refs d \<Longrightarrow> stream_pub d i = Some a \<Longrightarrow> stream_destroy a d = Some d' \<Longrightarrow> tx_trace d0 refs d'"

text \<open>Stream operations leave the ring, the pools and the messages alone.\<close>

definition same_tx :: "odl_device \<Rightarrow> odl_device \<Rightarrow> bool" where
  "same_tx d d' \<longleftrightarrow> dev_msgs d' = dev_msgs d \<and> dev_pool d' = dev_pool d \<and> dev_bpool d' = dev_bpool d \<and> dev_tx d' = dev_tx d \<and>
     dev_tx_pending d' = dev_tx_pending d"

lemma tx_wf_streams:
  assumes "tx_wf refs senders mc bc d" "same_tx d d'" "streams_wf (\<lambda>a. refs' a + stream_msgs d a) d'"
  shows "tx_wf refs' senders mc bc d'"
proof -
  have same: "dev_msgs d' = dev_msgs d" "dev_pool d' = dev_pool d" "dev_bpool d' = dev_bpool d" "dev_tx d' = dev_tx d"
    "dev_tx_pending d' = dev_tx_pending d" using assms(2) by (auto simp: same_tx_def)
  have acc: "frame_owner d' = frame_owner d" "msg_frames_out d' = msg_frames_out d" "batch_frames_out d' = batch_frames_out d"
    using frame_accounting_cong [OF same(2,3)] same(5) by blast+
  have "stream_msgs d' = stream_msgs d" using same(1) by (rule stream_msgs_cong)
  with assms(1,3) same show ?thesis unfolding tx_wf_def tx_base_def acc by simp
qed

lemma stream_ops_same_tx:
  assumes "streams_wf ext d"
  shows "stream_lookup i d = Some (r, d') \<Longrightarrow> same_tx d d'"
    "0 < ext a \<Longrightarrow> stream_put a d = Some d' \<Longrightarrow> same_tx d d'"
    "stream_pub d i = Some a \<Longrightarrow> stream_destroy a d = Some d' \<Longrightarrow> same_tx d d'"
proof -
  show "stream_lookup i d = Some (r, d') \<Longrightarrow> same_tx d d'"
    using lookup_chain_find [OF streams_wfD(7) [OF assms], of "dev_streams d" i]
    by (auto simp: stream_lookup_def same_tx_def split: option.splits)
  show "same_tx d d'" if pos: "0 < ext a" and put: "stream_put a d = Some d'"
  proof -
    obtain s n where "dev_heap d a = Some s" "st_tx_queue s = []" "st_refcount s = Suc n"
      using streams_wfD(6) [OF assms, of a] pos by (auto simp: stream_ok_def gr0_conv_Suc split: option.splits)
    from stream_put_eq [OF this] put show ?thesis by (auto simp: same_tx_def)
  qed
  show "same_tx d d'" if "stream_pub d i = Some a" "stream_destroy a d = Some d'"
  proof -
    have a: "a \<in> set (dev_streams d)" using that(1) stream_pub_iff [OF assms] by blast
    then obtain s where "dev_heap d a = Some s" using streams_wfD(7) [OF assms] by blast
    from stream_destroy_eq [OF assms a this] that(2) show ?thesis by (auto simp: same_tx_def del_owned_def split: option.splits)
  qed
qed

lemma stream_held: "streams_wf ext d \<Longrightarrow> 0 < ext a \<Longrightarrow> \<exists>s. dev_heap d a = Some s"
  using streams_wfD(6) [of ext d a] by (auto simp: stream_ok_def split: option.splits)

text \<open>How each operation changes the references that callers hold.\<close>

lemma tx_wf_lookup:
  assumes "tx_wf refs senders mc bc d" "stream_lookup i d = Some (r, d')"
  shows "tx_wf (case r of None \<Rightarrow> refs | Some a \<Rightarrow> refs(a := Suc (refs a))) senders mc bc d'" "r = stream_pub d i"
proof -
  note str = tx_baseD(5) [OF tx_wfD(1) [OF assms(1)]]
  let ?ext = "\<lambda>b. refs b + stream_msgs d b"
  have L: "r = stream_pub d i" "streams_wf (case stream_pub d i of None \<Rightarrow> ?ext | Some a \<Rightarrow> ?ext(a := Suc (?ext a))) d'"
    using stream_lookup_law [OF str, of i] assms(2) by auto
  then show "r = stream_pub d i" by blast
  have "?ext(a := Suc (?ext a)) = (\<lambda>b. (refs(a := Suc (refs a))) b + stream_msgs d b)" for a by (auto simp: fun_eq_iff)
  with L have "streams_wf (\<lambda>b. (case r of None \<Rightarrow> refs | Some a \<Rightarrow> refs(a := Suc (refs a))) b + stream_msgs d b) d'"
    by (cases "stream_pub d i") simp_all
  then show "tx_wf (case r of None \<Rightarrow> refs | Some a \<Rightarrow> refs(a := Suc (refs a))) senders mc bc d'"
    by (rule tx_wf_streams [OF assms(1) stream_ops_same_tx(1) [OF str assms(2)]])
qed

lemma tx_wf_put:
  assumes "tx_wf refs senders mc bc d" "0 < refs a" "stream_put a d = Some d'"
  shows "tx_wf (refs(a := refs a - 1)) senders mc bc d'"
proof -
  note str = tx_baseD(5) [OF tx_wfD(1) [OF assms(1)]]
  let ?ext = "\<lambda>b. refs b + stream_msgs d b"
  have "streams_wf (?ext(a := ?ext a - 1)) d'" using stream_put_law [OF str, of a] assms(2,3) by auto
  moreover have "?ext(a := ?ext a - 1) = (\<lambda>b. (refs(a := refs a - 1)) b + stream_msgs d b)" using assms(2) by (auto simp: fun_eq_iff)
  ultimately show ?thesis using tx_wf_streams [OF assms(1)] stream_ops_same_tx(2) [OF str _ assms(3)] assms(2) by simp
qed

lemma tx_wf_destroy:
  assumes "tx_wf refs senders mc bc d" "stream_pub d i = Some a" "stream_destroy a d = Some d'"
  shows "tx_wf refs senders mc bc d'"
proof -
  note str = tx_baseD(5) [OF tx_wfD(1) [OF assms(1)]]
  have "streams_wf (\<lambda>b. refs b + stream_msgs d b) d'" using stream_destroy_law [OF str assms(2)] assms(3) by auto
  then show ?thesis using tx_wf_streams [OF assms(1)] stream_ops_same_tx(3) [OF str assms(2,3)] by simp
qed

lemma tx_wf_send:
  assumes "tx_wf refs senders (\<lambda>_. 0) (\<lambda>_. 0) d" "dev_heap d a = Some s" "dev_msgs d m = None" "m \<notin> senders"
  shows "\<exists>r d'. stream_send envs last_done (Some m) a dst data d = Some (r, d') \<and>
    tx_wf refs (case r of TxWaiting \<Rightarrow> insert m senders | TxReturned _ \<Rightarrow> senders) (\<lambda>_. 0) (\<lambda>_. 0) d'"
proof (cases "dev_state d = READY \<and> sendable data")
  case True
  then have "sends_message refs senders m (msg_frames (st_id s) dst data) d (stream_send envs last_done (Some m) a dst data d)"
    by (intro stream_send_ok(1) [OF assms(1,3,4,2)]) simp_all
  then show ?thesis by (auto simp: sends_message_def)
next
  case False
  with stream_send_refused(1,2) [where envs = envs and last_done = last_done and alloc = "Some m" and a = a and dst = dst and d = d and data = data]
    assms(1) show ?thesis by (cases "dev_state d = READY") auto
qed

lemma tx_trace_wf:
  assumes "tx_trace d0 refs d" "tx_idle (\<lambda>_. 0) d0"
  shows "tx_wf refs {} (\<lambda>_. 0) (\<lambda>_. 0) d"
  using assms(1)
proof (induction rule: tx_trace.induct)
  case trace_start
  show ?case using assms(2) by (rule tx_idle_wf)
next
  case (trace_send refs d a m envs last_done dst data r d')
  obtain s where s: "dev_heap d a = Some s"
    using stream_held [OF tx_baseD(5) [OF tx_wfD(1) [OF trace_send.IH]], of a] trace_send.hyps(2) by auto
  from tx_wf_send [OF trace_send.IH s trace_send.hyps(3), of envs last_done dst data] trace_send.hyps(4) show ?case by auto
next
  case (trace_complete refs d rc d')
  with tx_complete_wf [OF trace_complete.IH, of rc] show ?case by auto
next
  case (trace_found refs d i a d')
  from tx_wf_lookup(1) [OF trace_found.IH trace_found.hyps(2)] show ?case by (simp only: option.case)
next
  case (trace_put refs d a d')
  from tx_wf_put [OF trace_put.IH trace_put.hyps(2,3)] show ?case .
next
  case (trace_destroy refs d i a d')
  from tx_wf_destroy [OF trace_destroy.IH trace_destroy.hyps(2,3)] show ?case .
qed

text \<open>C2: The transmit side is free of use after free, double release and leaks. Start with a device whose pools are allocated and
  whose transmit ring is empty, and let callers that hold stream references send, look up, release and destroy streams while the
  hardware completes or cancels frames, in any order; in particular, a stream may be destroyed while its frames are in flight. Then
  every further such step is defined, and once the ring has drained no message is left and the stream objects in memory
  are exactly those that are published or held by a caller.\<close>

theorem tx_trace_safe:
  assumes "tx_idle (\<lambda>_. 0) d0" "tx_trace d0 refs d"
  shows "(\<forall>rc. tx_complete rc d \<noteq> None) \<and>
    (\<forall>envs last_done m a dst data. 0 < refs a \<longrightarrow> dev_msgs d m = None \<longrightarrow>
       stream_send envs last_done (Some m) a dst data d \<noteq> None) \<and>
    (\<forall>a. 0 < refs a \<longrightarrow> stream_put a d \<noteq> None) \<and> (\<forall>i a. stream_pub d i = Some a \<longrightarrow> stream_destroy a d \<noteq> None) \<and>
    (dev_tx_pending d = [] \<longrightarrow> dev_msgs d = Map.empty \<and> dom (dev_heap d) = {a. 0 < refs a} \<union> ran (stream_pub d))"
proof -
  note wf = tx_trace_wf [OF assms(2,1)]
  note str = tx_baseD(5) [OF tx_wfD(1) [OF wf]]
  have "tx_complete rc d \<noteq> None" for rc using tx_complete_wf [OF wf, of rc] by auto
  moreover have "stream_send envs last_done (Some m) a dst data d \<noteq> None" if held: "0 < refs a" and free: "dev_msgs d m = None"
    for envs last_done m a dst data
  proof -
    obtain s where s: "dev_heap d a = Some s" using stream_held [OF str, of a] held by auto
    from tx_wf_send [OF wf s free, of envs last_done dst data] show ?thesis by auto
  qed
  moreover have "stream_put a d \<noteq> None" if "0 < refs a" for a using stream_put_law [OF str, of a] that by auto
  moreover have "stream_destroy a d \<noteq> None" if "stream_pub d i = Some a" for i a using stream_destroy_law [OF str that] by auto
  moreover have "dev_msgs d = Map.empty \<and> dom (dev_heap d) = {a. 0 < refs a} \<union> ran (stream_pub d)" if "dev_tx_pending d = []"
  proof -
    have "msg_frames_out d m = 0" for m using that by (simp add: msg_frames_out_def)
    then have none: "dev_msgs d m = None" for m using tx_wfD(2) [OF wf, of m] by (cases "dev_msgs d m") (auto simp: msg_ok_def)
    then have "stream_msgs d a = 0" for a by (simp add: stream_msgs_def)
    then have "a \<in> dom (dev_heap d) \<longleftrightarrow> 0 < refs a \<or> (\<exists>i. stream_pub d i = Some a)" for a
      using sreg.alive_iff [OF str, of a] by simp
    with none show ?thesis by (auto simp: ran_def)
  qed
  ultimately show ?thesis by blast
qed

theorem tx_trace_safe_witness:
  "\<exists>d1 d2. stream_lookup 21 sample_sender = Some (Some 7, d1) \<and> stream_destroy 7 d1 = Some d2 \<and>
     stream_send [sample_env] [] (Some 1) 7 9 [65] d2 \<noteq> None \<and> dom (dev_heap d2) = {7}"
proof -
  note str = tx_idle_def [THEN iffD1, OF sample_sender_idle]
  have pub: "stream_pub sample_sender 21 = Some 7"
    by (simp add: stream_pub_def sample_sender_def with_stream_def add_owned_def sample_device_def new_stream_def)
  obtain d1 where d1: "stream_lookup 21 sample_sender = Some (Some 7, d1)" "stream_pub d1 = stream_pub sample_sender"
    using stream_lookup_law [of "\<lambda>_. 0" sample_sender 21] str pub by auto
  have t1: "tx_trace sample_sender ((\<lambda>_. 0)(7 := Suc 0)) d1" using trace_found [OF trace_start d1(1)] by simp
  note s1 = tx_trace_safe [OF sample_sender_idle t1]
  obtain d2 where d2: "stream_destroy 7 d1 = Some d2" using s1 d1(2) pub by fastforce
  have "stream_pub d1 21 = Some 7" using d1(2) pub by simp
  from trace_destroy [OF t1 this d2] have t2: "tx_trace sample_sender ((\<lambda>_. 0)(7 := Suc 0)) d2" .
  note wf1 = tx_baseD(5) [OF tx_wfD(1) [OF tx_trace_wf [OF t1 sample_sender_idle]]]
  have "same_tx sample_sender d1" by (rule stream_ops_same_tx(1) [OF _ d1(1)]) (use str in blast)
  moreover have "same_tx d1 d2" by (rule stream_ops_same_tx(3) [OF wf1 \<open>stream_pub d1 21 = Some 7\<close> d2])
  ultimately have emp: "dev_msgs d2 = Map.empty" "dev_tx_pending d2 = []" using str by (simp_all add: same_tx_def)
  have "ran (stream_pub d2) = {}"
  proof -
    have "stream_pub d2 = (stream_pub d1)(21 := None)"
      using stream_destroy_law [OF wf1 \<open>stream_pub d1 21 = Some 7\<close>] d2 by auto
    moreover have "stream_pub sample_sender i \<noteq> None \<Longrightarrow> i = 21" for i
      by (auto simp: stream_pub_def sample_sender_def with_stream_def add_owned_def sample_device_def new_stream_def split: if_splits)
    ultimately show ?thesis using d1(2) by (auto simp: ran_def split: if_splits)
  qed
  with tx_trace_safe [OF sample_sender_idle t2] emp d1(1) d2 show ?thesis by auto
qed

section \<open>Hysteresis of the mode\<close>

text \<open>A sequence of mode decisions, each for a message length and with the frame pool as the send finds it.\<close>

fun mode_run :: "(nat \<times> frame_pool) list \<Rightarrow> odl_device \<Rightarrow> odl_device" where
  "mode_run [] d = d"
| "mode_run ((n, p) # xs) d = mode_run xs (snd (evaluate_tx_mode n (d\<lparr>dev_pool := p\<rparr>)))"

definition pool_low :: "odl_device \<Rightarrow> frame_pool \<Rightarrow> bool" where
  "pool_low d p \<longleftrightarrow> unat (of_int (int (fp_size p) - fp_free_count p) :: u32) < ta_low_watermark (dev_adapt d)"

fun trailing :: "bool list \<Rightarrow> nat" where
  "trailing [] = 0"
| "trailing (b # bs) = (if list_all id bs \<and> b then Suc (length bs) else trailing bs)"

lemma trailing_snoc: "trailing (bs @ [b]) = (if b then Suc (trailing bs) else 0)"
  by (induction bs) auto

lemma mode_run_snoc: "mode_run (xs @ [x]) d = snd (evaluate_tx_mode (fst x) (mode_run xs d\<lparr>dev_pool := snd x\<rparr>))"
  by (induction xs arbitrary: d) (cases x; auto split: prod.splits)+

lemma evaluate_keeps:
  "ta_low_watermark (dev_adapt (snd (evaluate_tx_mode n d))) = ta_low_watermark (dev_adapt d)"
  "dev_bpool (snd (evaluate_tx_mode n d)) = dev_bpool d"
  by (cases "ta_mode (dev_adapt d)"; simp add: evaluate_tx_mode_def Let_def)+

lemma mode_run_keeps:
  "ta_low_watermark (dev_adapt (mode_run xs d)) = ta_low_watermark (dev_adapt d)" "dev_bpool (mode_run xs d) = dev_bpool d"
  by (induction xs rule: rev_induct) (simp_all add: mode_run_snoc evaluate_keeps)

text \<open>C10: The way down from throughput to latency mode has hysteresis. For messages of at most 64 KiB on a device in throughput
  mode, the mode stays throughput until the load of the frame pool has been below the low watermark at four decisions in a row,
  and changes to latency at exactly that decision; any decision with a higher load starts the count again.\<close>

theorem tx_mode_hysteresis:
  assumes "bb_virt (bp_bufs (dev_bpool d) ! 0) \<noteq> None" "ta_mode (dev_adapt d) = TX_THROUGHPUT" "ta_consecutive_low (dev_adapt d) = 0"
    "\<forall>x \<in> set xs. fst x \<le> THROUGHPUT_THRESH" "\<forall>k < length xs. trailing (map (\<lambda>x. pool_low d (snd x)) (take k xs)) < 4"
  shows "let ta = dev_adapt (mode_run xs d); n = trailing (map (\<lambda>x. pool_low d (snd x)) xs)
    in if n < 4 then ta_mode ta = TX_THROUGHPUT \<and> ta_consecutive_low ta = n
       else ta_mode ta = TX_LATENCY \<and> ta_consecutive_low ta = 0"
  using assms(4,5)
proof (induction xs rule: rev_induct)
  case Nil
  then show ?case using assms(2,3) by simp
next
  case (snoc x xs)
  let ?n = "trailing (map (\<lambda>x. pool_low d (snd x)) xs)"
  have "\<forall>k < length xs. trailing (map (\<lambda>x. pool_low d (snd x)) (take k xs)) < 4"
  proof (intro allI impI)
    fix k
    assume "k < length xs"
    with snoc.prems(2) [rule_format, of k] show "trailing (map (\<lambda>x. pool_low d (snd x)) (take k xs)) < 4" by simp
  qed
  moreover have n: "?n < 4" using snoc.prems(2) [rule_format, of "length xs"] by simp
  ultimately have IH: "ta_mode (dev_adapt (mode_run xs d)) = TX_THROUGHPUT" "ta_consecutive_low (dev_adapt (mode_run xs d)) = ?n"
    using snoc.IH snoc.prems(1) by (simp_all add: Let_def)
  let ?e = "mode_run xs d\<lparr>dev_pool := snd x\<rparr>"
  obtain mem where "bb_virt (bp_bufs (dev_bpool ?e) ! 0) = Some mem" using assms(1) mode_run_keeps(2) by auto
  moreover have "\<not> THROUGHPUT_THRESH < fst x" using snoc.prems(1) by simp
  ultimately have "dev_adapt (snd (evaluate_tx_mode (fst x) ?e)) =
      (let ta = dev_adapt (mode_run xs d)
       in if pool_low d (snd x)
          then if 4 \<le> Suc ?n then ta\<lparr>ta_consecutive_low := Suc ?n, ta_mode := TX_LATENCY, ta_consecutive_low := 0\<rparr>
               else ta\<lparr>ta_consecutive_low := Suc ?n\<rparr>
          else ta\<lparr>ta_consecutive_low := 0\<rparr>)"
    using IH by (simp add: evaluate_tx_mode_def Let_def pool_low_def mode_run_keeps MODE_HYSTERESIS_def)
  with IH n show ?case by (auto simp: mode_run_snoc trailing_snoc Let_def)
qed

theorem tx_mode_hysteresis_witness:
  "let d = sample_sender\<lparr>dev_adapt := (dev_adapt sample_sender)\<lparr>ta_mode := TX_THROUGHPUT\<rparr>\<rparr>; x = (100, sample_pool)
   in ta_mode (dev_adapt (mode_run [x, x, x] d)) = TX_THROUGHPUT \<and> ta_mode (dev_adapt (mode_run [x, x, x, x] d)) = TX_LATENCY"
proof -
  let ?d = "sample_sender\<lparr>dev_adapt := (dev_adapt sample_sender)\<lparr>ta_mode := TX_THROUGHPUT\<rparr>\<rparr>" and ?x = "(100 :: nat, sample_pool)"
  have "fp_free_count sample_pool = 4096" "fp_size sample_pool = 4096"
    using free_count_card [OF sample_pool_ok(1)] sample_pool_ok(2) frame_pool_wf_size [OF sample_pool_ok(1)]
    by (simp_all add: driver_consts)
  then have low: "pool_low ?d sample_pool" using sample_sender_heap(8) by (simp add: pool_low_def)
  have pre: "bb_virt (bp_bufs (dev_bpool ?d) ! 0) \<noteq> None" "ta_mode (dev_adapt ?d) = TX_THROUGHPUT"
    "ta_consecutive_low (dev_adapt ?d) = 0" using sample_sender_heap(7,8) by simp_all
  have short: "\<forall>k < length xs. trailing (map (\<lambda>x. pool_low ?d (snd x)) (take k xs)) < 4"
    if "xs = [?x, ?x, ?x] \<or> xs = [?x, ?x, ?x, ?x]" for xs
    using that low by (auto simp: less_Suc_eq numeral_eq_Suc)
  from tx_mode_hysteresis [OF pre _ short, of "[?x, ?x, ?x]"] tx_mode_hysteresis [OF pre _ short, of "[?x, ?x, ?x, ?x]"] low
  show ?thesis by (simp add: Let_def THROUGHPUT_THRESH_def del: mode_run.simps)
qed

end
