(* ===== verification/Ring_Life.thy ===== *)
theory Ring_Life
  imports Stream_Send Rx_Path
begin

text \<open>
  The life of the two NHI rings and of the legacy double buffers, \<^verbatim>\<open>driver/odl_tb5_ring_dma.c\<close> lines 524 to 811:
  allocation with its error labels, release, resizing to the peer's ring depth, start, stop and reset.

  What the driver holds of the kernel is the record \<open>nhi_res\<close>: the rings and output HopIDs that are allocated and the
  number of descriptor arrays and DMA buffers. Releasing something that is not allocated has the value \<open>None\<close>. The results
  of the allocators are the arguments \<open>ring_env\<close> and \<open>buf_env\<close>.
\<close>

section \<open>What the driver holds of the kernel\<close>

record nhi_res =
  nr_rings :: "nat set"
  nr_hopids :: "int set"
  nr_arrays :: nat
  nr_bufs :: nat

record ring_env =
  re_tx_frames :: bool
  re_rx_frames :: bool
  re_hopid :: "errno + int"
  re_tx_ring :: "nat option"
  re_rx_ring :: "nat option"

record buf_env =
  be_tx :: "nat \<Rightarrow> bool"
  be_rx :: "nat \<Rightarrow> bool"

definition tb_ring_free :: "nat \<Rightarrow> nhi_res \<Rightarrow> nhi_res option" where
  "tb_ring_free r res = (if r \<in> nr_rings res then Some (res\<lparr>nr_rings := nr_rings res - {r}\<rparr>) else None)"

definition release_out_hopid :: "int \<Rightarrow> nhi_res \<Rightarrow> nhi_res option" where
  "release_out_hopid h res = (if h \<in> nr_hopids res then Some (res\<lparr>nr_hopids := nr_hopids res - {h}\<rparr>) else None)"

text \<open>\<open>kvfree(NULL)\<close> does nothing.\<close>

definition kvfree :: "'a option \<Rightarrow> nhi_res \<Rightarrow> nhi_res option" where
  "kvfree p res = (case p of None \<Rightarrow> Some res
     | Some _ \<Rightarrow> (case nr_arrays res of 0 \<Rightarrow> None | Suc n \<Rightarrow> Some (res\<lparr>nr_arrays := n\<rparr>)))"

definition dma_free_coherent :: "nhi_res \<Rightarrow> nhi_res option" where
  "dma_free_coherent res = (case nr_bufs res of 0 \<Rightarrow> None | Suc n \<Rightarrow> Some (res\<lparr>nr_bufs := n\<rparr>))"

definition upd_tx :: "(ring_ctx \<Rightarrow> ring_ctx) \<Rightarrow> odl_device \<Rightarrow> odl_device" where
  "upd_tx f d = d\<lparr>dev_tx := f (dev_tx d)\<rparr>"

definition upd_rx :: "(ring_ctx \<Rightarrow> ring_ctx) \<Rightarrow> odl_device \<Rightarrow> odl_device" where
  "upd_rx f d = d\<lparr>dev_rx := f (dev_rx d)\<rparr>"

definition set_local_hopid :: "int \<Rightarrow> odl_device \<Rightarrow> odl_device" where
  "set_local_hopid h d = d\<lparr>dev_hs := (dev_hs d)\<lparr>hs_local_tx_hopid := h\<rparr>\<rparr>"

section \<open>Allocation and release of the rings\<close>

definition ring_size_of :: "nat \<Rightarrow> nat" where
  "ring_size_of requested_size =
     (let rs = requested_size;
          rs = (if rs < RING_SIZE_MIN then RING_SIZE_MIN else rs);
          rs = (if RING_SIZE_MAX < rs then RING_SIZE_MAX else rs)
      in roundup_pow_of_two rs)"

definition update_tx_watermarks :: "odl_device \<Rightarrow> odl_device" where
  "update_tx_watermarks d =
     (let ring_try = rc_ring_size (dev_tx d)
      in d\<lparr>dev_adapt := (dev_adapt d)\<lparr>
           ta_high_watermark := min (ring_try * 3 mod 2 ^ 32 div 4) (FRAME_POOL_SIZE - TX_POOL_RESERVE),
           ta_low_watermark := min (ring_try div 4) ((FRAME_POOL_SIZE - TX_POOL_RESERVE) div 2)\<rparr>\<rparr>)"

text \<open>The error labels, each falling through to the next.\<close>

type_synonym ring_result = "((errno + unit) \<times> nhi_res \<times> odl_device) option"

definition err_free_tx_frames :: "errno \<Rightarrow> nhi_res \<Rightarrow> odl_device \<Rightarrow> ring_result" where
  "err_free_tx_frames e res d =
     do {
       res \<leftarrow> kvfree (rc_frames (dev_tx d)) res;
       Some (Inl e, res, upd_tx (\<lambda>c. c\<lparr>rc_frames := None\<rparr>) d)
     }"

definition err_free_rx_frames :: "errno \<Rightarrow> nhi_res \<Rightarrow> odl_device \<Rightarrow> ring_result" where
  "err_free_rx_frames e res d =
     do {
       res \<leftarrow> kvfree (rc_frames (dev_rx d)) res;
       err_free_tx_frames e res (upd_rx (\<lambda>c. c\<lparr>rc_frames := None\<rparr>) d)
     }"

definition err_free_hopid :: "errno \<Rightarrow> nhi_res \<Rightarrow> odl_device \<Rightarrow> ring_result" where
  "err_free_hopid e res d =
     do {
       res \<leftarrow> release_out_hopid (hs_local_tx_hopid (dev_hs d)) res;
       err_free_rx_frames e res (set_local_hopid (- 1) d)
     }"

definition err_free_tx_ring :: "errno \<Rightarrow> nhi_res \<Rightarrow> odl_device \<Rightarrow> ring_result" where
  "err_free_tx_ring e res d =
     do {
       r \<leftarrow> rc_ring (dev_tx d);
       res \<leftarrow> tb_ring_free r res;
       err_free_hopid e res (upd_tx (\<lambda>c. c\<lparr>rc_ring := None\<rparr>) d)
     }"

definition rings_alloc :: "ring_env \<Rightarrow> nat \<Rightarrow> nhi_res \<Rightarrow> odl_device \<Rightarrow> ring_result" where
  "rings_alloc env requested_size res d =
     (let rs = ring_size_of requested_size;
          d = upd_rx (\<lambda>c. c\<lparr>rc_ring_size := rs\<rparr>) (upd_tx (\<lambda>c. c\<lparr>rc_ring_size := rs\<rparr>) d);
          frames = Some (replicate rs zero_frame)
      in if \<not> re_tx_frames env then Some (Inl ENOMEM, res, upd_tx (\<lambda>c. c\<lparr>rc_frames := None\<rparr>) d)
         else
           let res = res\<lparr>nr_arrays := Suc (nr_arrays res)\<rparr>; d = upd_tx (\<lambda>c. c\<lparr>rc_frames := frames\<rparr>) d
           in if \<not> re_rx_frames env then err_free_tx_frames ENOMEM res (upd_rx (\<lambda>c. c\<lparr>rc_frames := None\<rparr>) d)
              else
                let res = res\<lparr>nr_arrays := Suc (nr_arrays res)\<rparr>; d = upd_rx (\<lambda>c. c\<lparr>rc_frames := frames\<rparr>) d
                in case re_hopid env of
                     Inl e \<Rightarrow> err_free_rx_frames e res d
                   | Inr h \<Rightarrow>
                       let res = res\<lparr>nr_hopids := insert h (nr_hopids res)\<rparr>; d = set_local_hopid h d
                       in case re_tx_ring env of
                            None \<Rightarrow> err_free_hopid ENOMEM res (upd_tx (\<lambda>c. c\<lparr>rc_ring := None\<rparr>) d)
                          | Some t \<Rightarrow>
                              let res = res\<lparr>nr_rings := insert t (nr_rings res)\<rparr>;
                                  d = upd_tx (\<lambda>c. c\<lparr>rc_ring := Some t\<rparr>) d
                              in case re_rx_ring env of
                                   None \<Rightarrow> err_free_tx_ring ENOMEM res (upd_rx (\<lambda>c. c\<lparr>rc_ring := None\<rparr>) d)
                                 | Some r \<Rightarrow>
                                     Some (Inr (), res\<lparr>nr_rings := insert r (nr_rings res)\<rparr>,
                                       update_tx_watermarks
                                         (upd_rx (\<lambda>c. c\<lparr>rc_ring := Some r, rc_completed := 0, rc_submitted := 0\<rparr>)
                                           (upd_tx (\<lambda>c. c\<lparr>rc_completed := 0, rc_submitted := 0\<rparr>) d))))"

definition rings_free :: "nhi_res \<Rightarrow> odl_device \<Rightarrow> (nhi_res \<times> odl_device) option" where
  "rings_free res d =
     do {
       res \<leftarrow> (case rc_ring (dev_rx d) of Some r \<Rightarrow> tb_ring_free r res | None \<Rightarrow> Some res);
       res \<leftarrow> (case rc_ring (dev_tx d) of Some r \<Rightarrow> tb_ring_free r res | None \<Rightarrow> Some res);
       (res, d) \<leftarrow> (if 0 \<le> hs_local_tx_hopid (dev_hs d)
                    then do { res \<leftarrow> release_out_hopid (hs_local_tx_hopid (dev_hs d)) res;
                              Some (res, set_local_hopid (- 1) d) }
                    else Some (res, d));
       res \<leftarrow> kvfree (rc_frames (dev_tx d)) res;
       res \<leftarrow> kvfree (rc_frames (dev_rx d)) res;
       Some (res, upd_rx (\<lambda>c. c\<lparr>rc_ring := None, rc_frames := None\<rparr>)
                    (upd_tx (\<lambda>c. c\<lparr>rc_ring := None, rc_frames := None\<rparr>) d))
     }"

section \<open>The double buffers\<close>

definition set_buf :: "nat \<Rightarrow> dma_buf \<Rightarrow> ring_ctx \<Rightarrow> ring_ctx" where
  "set_buf i b c = c\<lparr>rc_bufs := (rc_bufs c)[i := b]\<rparr>"

text \<open>One buffer of one ring: freed if it is there, and the pointer cleared.\<close>

definition free_buf :: "nat \<Rightarrow> nhi_res \<Rightarrow> ring_ctx \<Rightarrow> (nhi_res \<times> ring_ctx) option" where
  "free_buf i res c =
     (if length (rc_bufs c) \<le> i then None
      else case db_virt (rc_bufs c ! i) of
             None \<Rightarrow> Some (res, c)
           | Some _ \<Rightarrow> do {
               res \<leftarrow> dma_free_coherent res;
               Some (res, set_buf i ((rc_bufs c ! i)\<lparr>db_virt := None\<rparr>) c)
             })"

fun dma_free_bufs :: "nat list \<Rightarrow> nhi_res \<Rightarrow> odl_device \<Rightarrow> (nhi_res \<times> odl_device) option" where
  "dma_free_bufs [] res d = Some (res, d)"
| "dma_free_bufs (i # js) res d =
     do {
       (res, tx) \<leftarrow> free_buf i res (dev_tx d);
       (res, rx) \<leftarrow> free_buf i res (dev_rx d);
       dma_free_bufs js res (d\<lparr>dev_tx := tx, dev_rx := rx\<rparr>)
     }"

definition dma_bufs_free :: "nhi_res \<Rightarrow> odl_device \<Rightarrow> (nhi_res \<times> odl_device) option" where
  "dma_bufs_free res d =
     (if rc_ring (dev_tx d) = None \<and> rc_ring (dev_rx d) = None then Some (res, d)
      else dma_free_bufs [0..<NUM_BUFFERS] res d)"

text \<open>One allocation: the size is stored first, the memory is zeroed.\<close>

definition alloc_buf :: "bool \<Rightarrow> nat \<Rightarrow> nat \<Rightarrow> nhi_res \<Rightarrow> ring_ctx \<Rightarrow> bool \<times> nhi_res \<times> ring_ctx" where
  "alloc_buf ok sz i res c =
     (if ok then (True, res\<lparr>nr_bufs := Suc (nr_bufs res)\<rparr>,
                  set_buf i \<lparr>db_virt = Some (replicate sz 0), db_size = sz\<rparr> c)
      else (False, res, set_buf i \<lparr>db_virt = None, db_size = sz\<rparr> c))"

fun dma_alloc_bufs :: "buf_env \<Rightarrow> nat \<Rightarrow> nat list \<Rightarrow> nhi_res \<Rightarrow> odl_device \<Rightarrow> bool \<times> nhi_res \<times> odl_device" where
  "dma_alloc_bufs env sz [] res d = (True, res, d)"
| "dma_alloc_bufs env sz (i # js) res d =
     (case alloc_buf (be_tx env i) sz i res (dev_tx d) of (ok, res, tx) \<Rightarrow>
        let d = d\<lparr>dev_tx := tx\<rparr> in
        if \<not> ok then (False, res, d)
        else case alloc_buf (be_rx env i) sz i res (dev_rx d) of (ok, res, rx) \<Rightarrow>
               let d = d\<lparr>dev_rx := rx\<rparr> in
               if \<not> ok then (False, res, d) else dma_alloc_bufs env sz js res d)"

definition reset_swap :: "ring_ctx \<Rightarrow> ring_ctx" where
  "reset_swap c = c\<lparr>rc_front := 0, rc_back := 1, rc_frames_posted := False, rc_swapped_since_post := False\<rparr>"

definition dma_bufs_alloc :: "buf_env \<Rightarrow> nhi_res \<Rightarrow> odl_device \<Rightarrow> ring_result" where
  "dma_bufs_alloc env res d =
     do {
       _ \<leftarrow> rc_ring (dev_tx d);
       let sz = FRAME_SIZE * rc_ring_size (dev_tx d);
       case dma_alloc_bufs env sz [0..<NUM_BUFFERS] res d of (ok, res, d) \<Rightarrow>
         if ok then Some (Inr (), res, upd_rx reset_swap (upd_tx reset_swap d))
         else do { (res, d) \<leftarrow> dma_bufs_free res d; Some (Inl ENOMEM, res, d) }
     }"

section \<open>Resizing\<close>

definition rings_bufs_alloc :: "ring_env \<Rightarrow> buf_env \<Rightarrow> nat \<Rightarrow> nhi_res \<Rightarrow> odl_device \<Rightarrow> ring_result" where
  "rings_bufs_alloc renv benv requested_size res d =
     do {
       (ret, res, d) \<leftarrow> rings_alloc renv requested_size res d;
       case ret of Inl e \<Rightarrow> Some (Inl e, res, d) | Inr _ \<Rightarrow> dma_bufs_alloc benv res d
     }"

text \<open>The first pair of environments is for the new size, the second for the attempt to restore the old size.\<close>

definition rings_resize ::
  "ring_env \<times> buf_env \<Rightarrow> ring_env \<times> buf_env \<Rightarrow> nat \<Rightarrow> nhi_res \<Rightarrow> odl_device \<Rightarrow> ring_result" where
  "rings_resize env1 env2 new_size res d =
     (let old = rc_ring_size (dev_tx d)
      in if rc_started (dev_tx d) \<or> rc_started (dev_rx d) then Some (Inl EBUSY, res, d)
         else if old \<le> new_size then Some (Inr (), res, d)
         else do {
           (res, d) \<leftarrow> dma_bufs_free res d;
           (res, d) \<leftarrow> rings_free res d;
           (ret, res, d) \<leftarrow> rings_bufs_alloc (fst env1) (snd env1) new_size res d;
           case ret of
             Inr _ \<Rightarrow> Some (Inr (), res, d)
           | Inl _ \<Rightarrow> do {
               (res, d) \<leftarrow> dma_bufs_free res d;
               (res, d) \<leftarrow> rings_free res d;
               (ret, res, d) \<leftarrow> rings_bufs_alloc (fst env2) (snd env2) old res d;
               Some (case ret of Inl e \<Rightarrow> Inl e | Inr _ \<Rightarrow> Inl ENOMEM, res, d)
             }
         })"

section \<open>Accounting\<close>

text \<open>The driver's pointers name exactly what it holds: nothing is leaked and nothing is named twice.\<close>

definition live :: "'a option \<Rightarrow> nat" where
  "live p = (case p of None \<Rightarrow> 0 | Some _ \<Rightarrow> 1)"

definition bufs_live :: "ring_ctx \<Rightarrow> nat" where
  "bufs_live c = length (filter (\<lambda>b. db_virt b \<noteq> None) (rc_bufs c))"

definition holds :: "nhi_res \<Rightarrow> odl_device \<Rightarrow> bool" where
  "holds res d \<longleftrightarrow>
     nr_rings res = set_option (rc_ring (dev_tx d)) \<union> set_option (rc_ring (dev_rx d)) \<and>
     set_option (rc_ring (dev_tx d)) \<inter> set_option (rc_ring (dev_rx d)) = {} \<and>
     nr_hopids res = (if 0 \<le> hs_local_tx_hopid (dev_hs d) then {hs_local_tx_hopid (dev_hs d)} else {}) \<and>
     nr_arrays res = live (rc_frames (dev_tx d)) + live (rc_frames (dev_rx d)) \<and>
     nr_bufs res = bufs_live (dev_tx d) + bufs_live (dev_rx d) \<and>
     length (rc_bufs (dev_tx d)) = NUM_BUFFERS \<and> length (rc_bufs (dev_rx d)) = NUM_BUFFERS"

definition unequipped :: "odl_device \<Rightarrow> bool" where
  "unequipped d \<longleftrightarrow> rc_ring (dev_tx d) = None \<and> rc_ring (dev_rx d) = None \<and> rc_frames (dev_tx d) = None \<and>
     rc_frames (dev_rx d) = None \<and> hs_local_tx_hopid (dev_hs d) < 0"

definition equipped :: "nat \<Rightarrow> odl_device \<Rightarrow> bool" where
  "equipped n d \<longleftrightarrow> rc_ring (dev_tx d) \<noteq> None \<and> rc_ring (dev_rx d) \<noteq> None \<and>
     map_option length (rc_frames (dev_tx d)) = Some n \<and> map_option length (rc_frames (dev_rx d)) = Some n \<and>
     rc_ring_size (dev_tx d) = n \<and> rc_ring_size (dev_rx d) = n \<and> 0 \<le> hs_local_tx_hopid (dev_hs d)"

definition unbuffered :: "odl_device \<Rightarrow> bool" where
  "unbuffered d \<longleftrightarrow> bufs_live (dev_tx d) = 0 \<and> bufs_live (dev_rx d) = 0"

definition buffered :: "nat \<Rightarrow> odl_device \<Rightarrow> bool" where
  "buffered n d \<longleftrightarrow> (\<forall>b \<in> set (rc_bufs (dev_tx d)) \<union> set (rc_bufs (dev_rx d)).
     map_option length (db_virt b) = Some (FRAME_SIZE * n) \<and> db_size b = FRAME_SIZE * n)"

text \<open>What the allocators promise: a HopID is not negative, a new ring is not an allocated one.\<close>

definition fresh_env :: "ring_env \<Rightarrow> bool" where
  "fresh_env env \<longleftrightarrow> (\<forall>h. re_hopid env = Inr h \<longrightarrow> 0 \<le> h) \<and>
     set_option (re_tx_ring env) \<inter> set_option (re_rx_ring env) = {}"

lemma ring_size_of_bounds:
  "is_power_of_2 (ring_size_of n)" "RING_SIZE_MIN \<le> ring_size_of n" "ring_size_of n \<le> RING_SIZE_MAX"
proof -
  let ?rs = "max RING_SIZE_MIN (min RING_SIZE_MAX n)"
  have rs: "ring_size_of n = roundup_pow_of_two ?rs"
    by (simp add: ring_size_of_def Let_def driver_consts max_def min_def)
  have b: "1 \<le> ?rs" "?rs \<le> RING_SIZE_MAX" "RING_SIZE_MIN \<le> ?rs" by (simp_all add: driver_consts)
  note s = roundup_pow_of_two_spec [OF b(1)]
  show "is_power_of_2 (ring_size_of n)" using s(1) rs by simp
  show "RING_SIZE_MIN \<le> ring_size_of n" using s(2) b(3) rs by linarith
  obtain k where k: "roundup_pow_of_two ?rs = 2 ^ k" using s(1) by (auto simp: is_power_of_2_iff)
  have "(2::nat) ^ k < 2 * RING_SIZE_MAX" using s(3) b(2) k by linarith
  also have "\<dots> = 2 ^ 15" by (simp add: driver_consts)
  finally have "k \<le> 14" using power_less_imp_less_exp [of "2::nat" k 15] by simp
  then have "(2::nat) ^ k \<le> 2 ^ 14" by (rule power_increasing) simp
  then show "ring_size_of n \<le> RING_SIZE_MAX" using rs k by (simp add: driver_consts)
qed

lemma ring_size_of_id:
  assumes "is_power_of_2 n" "RING_SIZE_MIN \<le> n" "n \<le> RING_SIZE_MAX"
  shows "ring_size_of n = n"
  using assms roundup_pow_of_two_id by (simp add: ring_size_of_def Let_def)

lemmas ring_error_defs = err_free_tx_ring_def err_free_hopid_def err_free_rx_frames_def err_free_tx_frames_def

lemmas ring_upd_defs = upd_tx_def upd_rx_def set_local_hopid_def

lemmas release_defs = tb_ring_free_def release_out_hopid_def kvfree_def

lemma rings_alloc_ok:
  assumes "holds res d" "unequipped d" "fresh_env env"
  obtains (ok) res' d' where "rings_alloc env n res d = Some (Inr (), res', d')" "holds res' d'"
      "equipped (ring_size_of n) d'" "dev_adapt d' = dev_adapt (update_tx_watermarks d')"
      "rc_bufs (dev_tx d') = rc_bufs (dev_tx d)" "rc_bufs (dev_rx d') = rc_bufs (dev_rx d)"
  | (error) e d' where "rings_alloc env n res d = Some (Inl e, res, d')" "holds res d'" "unequipped d'"
      "rc_bufs (dev_tx d') = rc_bufs (dev_tx d)" "rc_bufs (dev_rx d') = rc_bufs (dev_rx d)"
proof -
  have res: "res = \<lparr>nr_rings = {}, nr_hopids = {}, nr_arrays = 0, nr_bufs = nr_bufs res\<rparr>"
    using assms(1,2) by (cases res) (auto simp: holds_def unequipped_def live_def)
  note defs = rings_alloc_def ring_error_defs ring_upd_defs release_defs Let_def
  have dom: "nr_bufs res = bufs_live (dev_tx d) + bufs_live (dev_rx d)" "length (rc_bufs (dev_tx d)) = NUM_BUFFERS"
    "length (rc_bufs (dev_rx d)) = NUM_BUFFERS" "rc_ring (dev_tx d) = None" "rc_ring (dev_rx d) = None"
    "rc_frames (dev_tx d) = None" "rc_frames (dev_rx d) = None" "hs_local_tx_hopid (dev_hs d) < 0"
    using assms(1,2) by (auto simp: holds_def unequipped_def)
  show thesis
  proof (cases "\<exists>h t r. re_tx_frames env \<and> re_rx_frames env \<and> re_hopid env = Inr h \<and> re_tx_ring env = Some t \<and>
      re_rx_ring env = Some r")
    case True
    then obtain h t r where T: "re_tx_frames env" "re_rx_frames env" "re_hopid env = Inr h" "re_tx_ring env = Some t"
      "re_rx_ring env = Some r" by blast
    have "0 \<le> h" "t \<noteq> r" using assms(3) T by (auto simp: fresh_env_def)
    with T have "\<exists>res' d'. rings_alloc env n res d = Some (Inr (), res', d') \<and> holds res' d' \<and>
      equipped (ring_size_of n) d' \<and> dev_adapt d' = dev_adapt (update_tx_watermarks d') \<and>
      rc_bufs (dev_tx d') = rc_bufs (dev_tx d) \<and> rc_bufs (dev_rx d') = rc_bufs (dev_rx d)"
      by (subst res)
        (simp add: defs holds_def equipped_def dom live_def bufs_live_def update_tx_watermarks_def insert_commute)
    with ok show thesis by blast
  next
    case False
    have "\<exists>e d'. rings_alloc env n res d = Some (Inl e, res, d') \<and> holds res d' \<and> unequipped d' \<and>
      rc_bufs (dev_tx d') = rc_bufs (dev_tx d) \<and> rc_bufs (dev_rx d') = rc_bufs (dev_rx d)"
      using False dom assms(3)
      by (subst res, subst (2) res, subst (3) res,
          cases "re_tx_frames env"; cases "re_rx_frames env"; cases "re_hopid env"; cases "re_tx_ring env";
          cases "re_rx_ring env")
        (simp_all add: defs holds_def unequipped_def live_def bufs_live_def fresh_env_def)
    with error show thesis by blast
  qed
qed


lemma rings_free_ok:
  assumes "holds res d"
  shows "\<exists>res' d'. rings_free res d = Some (res', d') \<and> holds res' d' \<and> unequipped d' \<and>
    rc_bufs (dev_tx d') = rc_bufs (dev_tx d) \<and> rc_bufs (dev_rx d') = rc_bufs (dev_rx d) \<and>
    rc_started (dev_tx d') = rc_started (dev_tx d) \<and> rc_started (dev_rx d') = rc_started (dev_rx d)"
proof -
  obtain tr hs k n where res: "res = \<lparr>nr_rings = tr, nr_hopids = hs, nr_arrays = k, nr_bufs = n\<rparr>" by (cases res)
  have F: "tr = set_option (rc_ring (dev_tx d)) \<union> set_option (rc_ring (dev_rx d))"
    "set_option (rc_ring (dev_tx d)) \<inter> set_option (rc_ring (dev_rx d)) = {}"
    "hs = (if 0 \<le> hs_local_tx_hopid (dev_hs d) then {hs_local_tx_hopid (dev_hs d)} else {})"
    "k = live (rc_frames (dev_tx d)) + live (rc_frames (dev_rx d))"
    "n = bufs_live (dev_tx d) + bufs_live (dev_rx d)"
    "length (rc_bufs (dev_tx d)) = NUM_BUFFERS" "length (rc_bufs (dev_rx d)) = NUM_BUFFERS"
    using assms by (simp_all add: res holds_def)
  show ?thesis unfolding res rings_free_def using F
    by (cases "rc_ring (dev_tx d)"; cases "rc_ring (dev_rx d)"; cases "0 \<le> hs_local_tx_hopid (dev_hs d)";
        cases "rc_frames (dev_tx d)"; cases "rc_frames (dev_rx d)")
      (simp_all add: release_defs ring_upd_defs holds_def unequipped_def live_def bufs_live_def)
qed

text \<open>The buffers: freeing them leaves none, allocating them fills both rings or leaves none.\<close>

definition with_bufs :: "dma_buf list \<Rightarrow> dma_buf list \<Rightarrow> odl_device \<Rightarrow> odl_device" where
  "with_bufs bt br d = d\<lparr>dev_tx := (dev_tx d)\<lparr>rc_bufs := bt\<rparr>, dev_rx := (dev_rx d)\<lparr>rc_bufs := br\<rparr>\<rparr>"

lemma two_bufs:
  assumes "length xs = NUM_BUFFERS"
  obtains x y where "xs = [x, y]"
  using assms by (auto simp: NUM_BUFFERS_def numeral_2_eq_2 length_Suc_conv)

lemma upt_bufs: "[0..<NUM_BUFFERS] = [0, 1]"
  by (simp add: NUM_BUFFERS_def upt_rec)

lemma free_buf_eq:
  assumes "i < length (rc_bufs c)" "live (db_virt (rc_bufs c ! i)) \<le> nr_bufs res"
  shows "free_buf i res c = Some (res\<lparr>nr_bufs := nr_bufs res - live (db_virt (rc_bufs c ! i))\<rparr>,
    c\<lparr>rc_bufs := (rc_bufs c)[i := (rc_bufs c ! i)\<lparr>db_virt := None\<rparr>]\<rparr>)"
proof (cases "db_virt (rc_bufs c ! i)")
  case None
  then have "(rc_bufs c ! i)\<lparr>db_virt := None\<rparr> = rc_bufs c ! i" by (cases "rc_bufs c ! i") simp
  then have "(rc_bufs c)[i := (rc_bufs c ! i)\<lparr>db_virt := None\<rparr>] = rc_bufs c" by (simp only: list_update_id)
  then have "c\<lparr>rc_bufs := (rc_bufs c)[i := (rc_bufs c ! i)\<lparr>db_virt := None\<rparr>]\<rparr> = c" by simp
  with None assms(1) show ?thesis by (simp add: free_buf_def live_def)
next
  case (Some mem)
  with assms obtain n where "nr_bufs res = Suc n" by (cases "nr_bufs res") (simp_all add: live_def)
  with Some assms(1) show ?thesis by (simp add: free_buf_def live_def set_buf_def dma_free_coherent_def)
qed

lemma bufs_live_two: "rc_bufs c = [x, y] \<Longrightarrow> bufs_live c = live (db_virt x) + live (db_virt y)"
  by (auto simp: bufs_live_def live_def split: option.splits)

lemma dma_free_bufs_ok:
  assumes "holds res d"
  shows "\<exists>bt br. dma_free_bufs [0..<NUM_BUFFERS] res d = Some (res\<lparr>nr_bufs := 0\<rparr>, with_bufs bt br d) \<and>
    holds (res\<lparr>nr_bufs := 0\<rparr>) (with_bufs bt br d) \<and> unbuffered (with_bufs bt br d)"
proof -
  obtain t0 t1 where T: "rc_bufs (dev_tx d) = [t0, t1]" using assms two_bufs unfolding holds_def by metis
  obtain r0 r1 where R: "rc_bufs (dev_rx d) = [r0, r1]" using assms two_bufs unfolding holds_def by metis
  let ?clear = "\<lambda>b. b\<lparr>db_virt := None\<rparr>"
  have n: "nr_bufs res = live (db_virt t0) + live (db_virt t1) + live (db_virt r0) + live (db_virt r1)"
    using assms by (simp add: holds_def bufs_live_two [OF T] bufs_live_two [OF R])
  have "dma_free_bufs [0..<NUM_BUFFERS] res d
      = Some (res\<lparr>nr_bufs := 0\<rparr>, with_bufs [?clear t0, ?clear t1] [?clear r0, ?clear r1] d)"
    unfolding upt_bufs by (simp add: T R n free_buf_eq with_bufs_def)
  moreover have "unbuffered (with_bufs [?clear t0, ?clear t1] [?clear r0, ?clear r1] d)"
    by (simp add: unbuffered_def with_bufs_def bufs_live_def)
  moreover have "holds (res\<lparr>nr_bufs := 0\<rparr>) (with_bufs [?clear t0, ?clear t1] [?clear r0, ?clear r1] d)"
    using assms by (simp add: holds_def with_bufs_def bufs_live_def NUM_BUFFERS_def)
  ultimately show ?thesis by blast
qed

text \<open>Freeing the buffers needs a ring for its DMA device; without rings there must be no buffers.\<close>

lemma dma_bufs_free_ok:
  assumes "holds res d" "rc_ring (dev_tx d) = None \<Longrightarrow> rc_ring (dev_rx d) = None \<Longrightarrow> unbuffered d"
  shows "\<exists>bt br. dma_bufs_free res d = Some (res\<lparr>nr_bufs := 0\<rparr>, with_bufs bt br d) \<and>
    holds (res\<lparr>nr_bufs := 0\<rparr>) (with_bufs bt br d) \<and> unbuffered (with_bufs bt br d)"
proof (cases "rc_ring (dev_tx d) = None \<and> rc_ring (dev_rx d) = None")
  case True
  with assms have "unbuffered d" "nr_bufs res = 0" by (simp_all add: holds_def unbuffered_def)
  moreover from this(2) have "res\<lparr>nr_bufs := 0\<rparr> = res" by (cases res) simp
  moreover have "with_bufs (rc_bufs (dev_tx d)) (rc_bufs (dev_rx d)) d = d" by (simp add: with_bufs_def)
  moreover have "dma_bufs_free res d = Some (res, d)" using True by (simp add: dma_bufs_free_def)
  ultimately show ?thesis using assms(1) by metis
next
  case False
  show ?thesis unfolding dma_bufs_free_def if_not_P [OF False] by (rule dma_free_bufs_ok [OF assms(1)])
qed

lemma alloc_buf_eq: "alloc_buf ok sz i res c = (ok, res\<lparr>nr_bufs := nr_bufs res + (if ok then 1 else 0)\<rparr>,
    c\<lparr>rc_bufs := (rc_bufs c)[i := \<lparr>db_virt = (if ok then Some (replicate sz 0) else None), db_size = sz\<rparr>]\<rparr>)"
  by (simp add: alloc_buf_def set_buf_def)

lemma dma_alloc_bufs_ok:
  assumes "holds res d" "unbuffered d"
  shows "\<exists>ok k bt br. dma_alloc_bufs env sz [0..<NUM_BUFFERS] res d = (ok, res\<lparr>nr_bufs := k\<rparr>, with_bufs bt br d) \<and>
    holds (res\<lparr>nr_bufs := k\<rparr>) (with_bufs bt br d) \<and>
    (ok \<longrightarrow> (\<forall>b \<in> set bt \<union> set br. map_option length (db_virt b) = Some sz \<and> db_size b = sz))"
proof -
  obtain t0 t1 where T: "rc_bufs (dev_tx d) = [t0, t1]" using assms two_bufs unfolding holds_def by metis
  obtain r0 r1 where R: "rc_bufs (dev_rx d) = [r0, r1]" using assms two_bufs unfolding holds_def by metis
  let ?b = "\<lambda>ok. \<lparr>db_virt = (if ok then Some (replicate sz 0) else None), db_size = sz\<rparr>"
  let ?P = "\<lambda>ok k bt br. dma_alloc_bufs env sz [0..<NUM_BUFFERS] res d = (ok, res\<lparr>nr_bufs := k\<rparr>, with_bufs bt br d)"
  have none: "nr_bufs res = 0" "db_virt t0 = None" "db_virt t1 = None" "db_virt r0 = None" "db_virt r1 = None"
    using assms by (auto simp: holds_def unbuffered_def bufs_live_two [OF T] bufs_live_two [OF R] live_def
      split: option.splits)
  have H: "holds (res\<lparr>nr_bufs := k\<rparr>) (with_bufs [x, y] [u, v] d)"
    if "k = live (db_virt x) + live (db_virt y) + live (db_virt u) + live (db_virt v)" for k x y u v
    using assms(1) that
    by (simp add: holds_def with_bufs_def NUM_BUFFERS_def bufs_live_two [where x = x and y = y]
        bufs_live_two [where x = u and y = v])
  consider (t0) "\<not> be_tx env 0" | (r0) "be_tx env 0" "\<not> be_rx env 0" | (t1) "be_tx env 0" "be_rx env 0" "\<not> be_tx env 1"
    | (r1) "be_tx env 0" "be_rx env 0" "be_tx env 1" "\<not> be_rx env 1"
    | (all) "be_tx env 0" "be_rx env 0" "be_tx env 1" "be_rx env 1" by blast
  then show ?thesis
  proof cases
    case t0
    then have "?P False 0 [?b False, t1] [r0, r1]" unfolding upt_bufs
      by (simp add: alloc_buf_eq T R none with_bufs_def)
    with H [of 0 "?b False" t1 r0 r1] show ?thesis by (auto simp: none live_def)
  next
    case r0
    then have "?P False 1 [?b True, t1] [?b False, r1]" unfolding upt_bufs
      by (simp add: alloc_buf_eq T R none with_bufs_def)
    with H [of 1 "?b True" t1 "?b False" r1] show ?thesis by (auto simp: none live_def)
  next
    case t1
    then have "?P False 2 [?b True, ?b False] [?b True, r1]" unfolding upt_bufs
      by (simp add: alloc_buf_eq T R none with_bufs_def)
    with H [of 2 "?b True" "?b False" "?b True" r1] show ?thesis by (auto simp: none live_def)
  next
    case r1
    then have "?P False 3 [?b True, ?b True] [?b True, ?b False]" unfolding upt_bufs
      by (simp add: alloc_buf_eq T R none with_bufs_def)
    with H [of 3 "?b True" "?b True" "?b True" "?b False"] show ?thesis by (auto simp: live_def)
  next
    case all
    then have "?P True 4 [?b True, ?b True] [?b True, ?b True]" unfolding upt_bufs
      by (simp add: alloc_buf_eq T R none with_bufs_def)
    moreover have "holds (res\<lparr>nr_bufs := 4\<rparr>) (with_bufs [?b True, ?b True] [?b True, ?b True] d)"
      by (rule H) (simp add: live_def)
    moreover have "map_option length (db_virt b) = Some sz \<and> db_size b = sz"
      if "b \<in> set [?b True, ?b True] \<union> set [?b True, ?b True]" for b using that by simp
    ultimately show ?thesis by blast
  qed
qed

lemma dma_bufs_alloc_ok:
  assumes "holds res d" "equipped n d" "unbuffered d"
  obtains (ok) res' d' where "dma_bufs_alloc env res d = Some (Inr (), res', d')" "holds res' d'" "equipped n d'"
      "buffered n d'" "dev_adapt d' = dev_adapt d"
  | (error) d' where "dma_bufs_alloc env res d = Some (Inl ENOMEM, res, d')" "holds res d'" "equipped n d'"
      "unbuffered d'"
proof -
  obtain r where r: "rc_ring (dev_tx d) = Some r" and n: "rc_ring_size (dev_tx d) = n"
    using assms(2) by (auto simp: equipped_def)
  obtain b k bt br where A: "dma_alloc_bufs env (FRAME_SIZE * n) [0..<NUM_BUFFERS] res d = (b, res\<lparr>nr_bufs := k\<rparr>, with_bufs bt br d)"
    "holds (res\<lparr>nr_bufs := k\<rparr>) (with_bufs bt br d)"
    "b \<Longrightarrow> \<forall>b \<in> set bt \<union> set br. map_option length (db_virt b) = Some (FRAME_SIZE * n) \<and> db_size b = FRAME_SIZE * n"
    using dma_alloc_bufs_ok [OF assms(1,3), of env "FRAME_SIZE * n"] by blast
  have E: "equipped n (with_bufs bt br d)" for bt br using assms(2) by (simp add: equipped_def with_bufs_def)
  show thesis
  proof (cases b)
    case True
    let ?d = "upd_rx reset_swap (upd_tx reset_swap (with_bufs bt br d))"
    have "dma_bufs_alloc env res d = Some (Inr (), res\<lparr>nr_bufs := k\<rparr>, ?d)"
      unfolding dma_bufs_alloc_def r n using A(1) True by simp
    moreover have "holds (res\<lparr>nr_bufs := k\<rparr>) ?d" "equipped n ?d" "buffered n ?d" "dev_adapt ?d = dev_adapt d"
      using A(2) E [of bt br] A(3) [OF True]
      by (simp_all add: holds_def equipped_def buffered_def ring_upd_defs reset_swap_def bufs_live_def with_bufs_def)
    ultimately show thesis by (rule ok)
  next
    case False
    have "nr_bufs res = 0" using assms(1,3) by (simp add: holds_def unbuffered_def)
    then have res: "res\<lparr>nr_bufs := k, nr_bufs := 0\<rparr> = res" by (cases res) simp
    obtain bt' br' where F: "dma_bufs_free (res\<lparr>nr_bufs := k\<rparr>) (with_bufs bt br d) = Some (res, with_bufs bt' br' (with_bufs bt br d))"
      "holds res (with_bufs bt' br' (with_bufs bt br d))" "unbuffered (with_bufs bt' br' (with_bufs bt br d))"
      using dma_bufs_free_ok [OF A(2)] r unfolding res by (auto simp: with_bufs_def)
    have "dma_bufs_alloc env res d = Some (Inl ENOMEM, res, with_bufs bt' br' (with_bufs bt br d))"
      unfolding dma_bufs_alloc_def r n using A(1) F(1) False by simp
    moreover have "equipped n (with_bufs bt' br' (with_bufs bt br d))"
      using E [of bt' br'] by (simp add: with_bufs_def)
    ultimately show thesis using F(2,3) by (intro error)
  qed
qed

definition provisioned :: "nat \<Rightarrow> odl_device \<Rightarrow> bool" where
  "provisioned n d \<longleftrightarrow> equipped n d \<and> buffered n d"

lemma rings_bufs_alloc_ok:
  assumes "holds res d" "unequipped d" "unbuffered d" "fresh_env renv"
  shows "\<exists>ret res' d'. rings_bufs_alloc renv benv n res d = Some (ret, res', d') \<and> holds res' d' \<and>
    (if ret = Inr () then provisioned (ring_size_of n) d' else unbuffered d')"
  using assms(1,2,4)
proof (cases rule: rings_alloc_ok [where n = n])
  case (ok res1 d1)
  have "unbuffered d1" using assms(3) ok(5,6) by (simp add: unbuffered_def bufs_live_def)
  with ok(2,3) show ?thesis
  proof (cases rule: dma_bufs_alloc_ok [where env = benv])
    case (ok res2 d2)
    with \<open>rings_alloc renv n res d = Some (Inr (), res1, d1)\<close> show ?thesis
      by (simp add: rings_bufs_alloc_def provisioned_def)
  next
    case (error d2)
    with ok(1) show ?thesis by (simp add: rings_bufs_alloc_def)
  qed
next
  case (error e d1)
  then show ?thesis using assms(3) by (simp add: rings_bufs_alloc_def unbuffered_def bufs_live_def)
qed

lemma rings_teardown_ok:
  assumes "holds res d" "rc_ring (dev_tx d) = None \<Longrightarrow> rc_ring (dev_rx d) = None \<Longrightarrow> unbuffered d"
  shows "\<exists>res' d'. (do { (res, d) \<leftarrow> dma_bufs_free res d; rings_free res d }) = Some (res', d') \<and>
    holds res' d' \<and> unequipped d' \<and> unbuffered d'"
proof -
  obtain bt br where B: "dma_bufs_free res d = Some (res\<lparr>nr_bufs := 0\<rparr>, with_bufs bt br d)"
    "holds (res\<lparr>nr_bufs := 0\<rparr>) (with_bufs bt br d)" "unbuffered (with_bufs bt br d)"
    using dma_bufs_free_ok [OF assms] by blast
  from rings_free_ok [OF B(2)] B(1,3) show ?thesis by (auto simp: unbuffered_def bufs_live_def)
qed

lemma rings_resize_cases:
  assumes "holds res d" "provisioned n d" "ring_size_of n = n" "fresh_env (fst env1)" "fresh_env (fst env2)"
    "\<not> rc_started (dev_tx d)" "\<not> rc_started (dev_rx d)" "m < n"
  shows "\<exists>ret res' d'. rings_resize env1 env2 m res d = Some (ret, res', d') \<and> holds res' d' \<and>
    (case ret of Inr _ \<Rightarrow> provisioned (ring_size_of m) d' | Inl e \<Rightarrow> provisioned n d' \<and> e = ENOMEM \<or> unbuffered d')"
proof -
  have n: "rc_ring_size (dev_tx d) = n" and r: "rc_ring (dev_tx d) \<noteq> None"
    using assms(2) by (simp_all add: provisioned_def equipped_def)
  obtain res1 d1 where T1: "(do { (res, d) \<leftarrow> dma_bufs_free res d; rings_free res d }) = Some (res1, d1)"
    "holds res1 d1" "unequipped d1" "unbuffered d1"
    using rings_teardown_ok [OF assms(1)] r by blast
  obtain ret1 res2 d2 where A1: "rings_bufs_alloc (fst env1) (snd env1) m res1 d1 = Some (ret1, res2, d2)"
    "holds res2 d2" "if ret1 = Inr () then provisioned (ring_size_of m) d2 else unbuffered d2"
    using rings_bufs_alloc_ok [OF T1(2-4) assms(4)] by blast
  have step: "rings_resize env1 env2 m res d = (case ret1 of Inr _ \<Rightarrow> Some (Inr (), res2, d2)
      | Inl _ \<Rightarrow> do { (res, d) \<leftarrow> do { (res, d) \<leftarrow> dma_bufs_free res2 d2; rings_free res d };
          (ret, res, d) \<leftarrow> rings_bufs_alloc (fst env2) (snd env2) n res d;
          Some (case ret of Inl e \<Rightarrow> Inl e | Inr _ \<Rightarrow> Inl ENOMEM, res, d) })"
    using T1(1) A1(1) n assms(6-8)
    by (cases "dma_bufs_free res d"; cases ret1) (auto simp: rings_resize_def Let_def split: Option.bind_splits)
  show ?thesis
  proof (cases ret1)
    case (Inr u)
    with step A1(2,3) show ?thesis by simp
  next
    case (Inl e)
    with A1(3) have "unbuffered d2" by simp
    then obtain res3 d3 where T2: "(do { (res, d) \<leftarrow> dma_bufs_free res2 d2; rings_free res d }) = Some (res3, d3)"
      "holds res3 d3" "unequipped d3" "unbuffered d3"
      using rings_teardown_ok [OF A1(2)] by blast
    obtain ret2 res4 d4 where A2: "rings_bufs_alloc (fst env2) (snd env2) n res3 d3 = Some (ret2, res4, d4)"
      "holds res4 d4" "if ret2 = Inr () then provisioned n d4 else unbuffered d4"
      using rings_bufs_alloc_ok [OF T2(2-4) assms(5), of "snd env2" n] unfolding assms(3) by blast
    have "rings_resize env1 env2 m res d = Some (case ret2 of Inl e \<Rightarrow> Inl e | Inr _ \<Rightarrow> Inl ENOMEM, res4, d4)"
      unfolding step Inl sum.case T2(1) using A2(1) by simp
    with A2(2,3) show ?thesis by (cases ret2) auto
  qed
qed

section \<open>Start, stop and reset\<close>

text \<open>
  \<open>tb_ring_stop\<close> cancels every descriptor that is still enqueued, runs its callback with \<open>canceled\<close> set and returns when all
  callbacks have returned. A canceled receive callback reads none of the arguments that describe arriving data.
\<close>

definition tb_ring_stop_tx :: "odl_device \<Rightarrow> odl_device option" where
  "tb_ring_stop_tx d = do { _ \<leftarrow> rc_ring (dev_tx d); tx_complete_all (map (\<lambda>r. (r, True)) (dev_tx_pending d)) d }"

definition rx_complete ::
  "(nat \<Rightarrow> byte list option) \<Rightarrow> bool \<Rightarrow> (int \<Rightarrow> bool) \<Rightarrow> frame_ref \<times> bool \<Rightarrow> odl_device \<Rightarrow> odl_device option" where
  "rx_complete kmalloc rxm_ok rx_ok rc d =
     (case rc of (r, canceled) \<Rightarrow>
        if r \<notin> set (dev_rx_pending d) then Some d
        else rx_callback kmalloc rxm_ok rx_ok True r canceled (d\<lparr>dev_rx_pending := remove1 r (dev_rx_pending d)\<rparr>))"

fun rx_complete_all ::
  "(nat \<Rightarrow> byte list option) \<Rightarrow> bool \<Rightarrow> (int \<Rightarrow> bool) \<Rightarrow> (frame_ref \<times> bool) list \<Rightarrow> odl_device \<Rightarrow> odl_device option" where
  "rx_complete_all kmalloc rxm_ok rx_ok [] d = Some d"
| "rx_complete_all kmalloc rxm_ok rx_ok (rc # rcs) d =
     do { d \<leftarrow> rx_complete kmalloc rxm_ok rx_ok rc d; rx_complete_all kmalloc rxm_ok rx_ok rcs d }"

definition tb_ring_stop_rx :: "odl_device \<Rightarrow> odl_device option" where
  "tb_ring_stop_rx d =
     do {
       _ \<leftarrow> rc_ring (dev_rx d);
       rx_complete_all (\<lambda>_. None) False (\<lambda>_. False) (map (\<lambda>r. (r, True)) (dev_rx_pending d)) d
     }"

definition rings_start :: "odl_device \<Rightarrow> odl_device option" where
  "rings_start d =
     do {
       _ \<leftarrow> rc_ring (dev_tx d);
       _ \<leftarrow> rc_ring (dev_rx d);
       Some (upd_rx (\<lambda>c. c\<lparr>rc_started := True\<rparr>) (upd_tx (\<lambda>c. c\<lparr>rc_started := True\<rparr>) d))
     }"

definition rings_stop :: "odl_device \<Rightarrow> odl_device option" where
  "rings_stop d =
     do {
       d \<leftarrow> (if rc_ring (dev_tx d) \<noteq> None \<and> rc_started (dev_tx d)
             then do { d \<leftarrow> tb_ring_stop_tx d;
                       Some (upd_tx (\<lambda>c. c\<lparr>rc_started := False, rc_frames_posted := False\<rparr>) d) }
             else Some d);
       (if rc_ring (dev_rx d) \<noteq> None \<and> rc_started (dev_rx d)
        then do { d \<leftarrow> tb_ring_stop_rx d;
                  Some (upd_rx (\<lambda>c. c\<lparr>rc_started := False, rc_frames_posted := False\<rparr>) d) }
        else Some d)
     }"

definition reset_counts :: "ring_ctx \<Rightarrow> ring_ctx" where
  "reset_counts c = c\<lparr>rc_frames_posted := False, rc_swapped_since_post := False, rc_completed := 0, rc_submitted := 0\<rparr>"

definition rings_reset :: "odl_device \<Rightarrow> odl_device option" where
  "rings_reset d =
     do {
       d \<leftarrow> (if rc_ring (dev_tx d) \<noteq> None \<and> rc_started (dev_tx d)
             then do { d \<leftarrow> tb_ring_stop_tx d; Some (upd_tx reset_counts d) } else Some d);
       (if rc_ring (dev_rx d) \<noteq> None \<and> rc_started (dev_rx d)
        then do { d \<leftarrow> tb_ring_stop_rx d; Some (upd_rx reset_counts d) } else Some d)
     }"

section \<open>Stopping reclaims everything\<close>

text \<open>What the bookkeeping of messages and streams leaves alone.\<close>

definition same_ctx :: "ring_ctx \<Rightarrow> ring_ctx \<Rightarrow> bool" where
  "same_ctx c c' \<longleftrightarrow> c'\<lparr>rc_completed := 0\<rparr> = c\<lparr>rc_completed := 0\<rparr>"

lemma same_ctx_refl [simp]: "same_ctx c c" "same_ctx c (c\<lparr>rc_completed := n\<rparr>)"
  by (simp_all add: same_ctx_def)

lemma same_ctxD:
  assumes "same_ctx c c'"
  shows "rc_ring c' = rc_ring c" "rc_started c' = rc_started c" "rc_frames c' = rc_frames c" "rc_bufs c' = rc_bufs c"
    "rc_front c' = rc_front c" "rc_ring_size c' = rc_ring_size c" "rc_frames_posted c' = rc_frames_posted c"
    "rc_submitted c' = rc_submitted c"
  using assms by (cases c; cases c'; simp add: same_ctx_def)+

definition same_rings :: "odl_device \<Rightarrow> odl_device \<Rightarrow> bool" where
  "same_rings d d' \<longleftrightarrow> dev_tx_pending d' = dev_tx_pending d \<and> dev_rx_pending d' = dev_rx_pending d \<and>
     dev_pool d' = dev_pool d \<and> dev_rx d' = dev_rx d \<and> same_ctx (dev_tx d) (dev_tx d') \<and>
     dev_rx_posted d' = dev_rx_posted d \<and> dev_hs d' = dev_hs d \<and> dev_state d' = dev_state d \<and>
     dev_ctrl_reply d' = dev_ctrl_reply d"

lemma same_rings_refl [simp]: "same_rings d d"
  by (simp add: same_rings_def)

lemma same_rings_trans: "same_rings d d' \<Longrightarrow> same_rings d' d'' \<Longrightarrow> same_rings d d''"
  by (simp add: same_rings_def same_ctx_def)

lemma upd_same_rings:
  "upd_stream a f d = Some d' \<Longrightarrow> same_rings d d'" "upd_msg m g d = Some d' \<Longrightarrow> same_rings d d'"
  "upd_batch b h d = Some d' \<Longrightarrow> same_rings d d'"
  by (auto simp: upd_stream_def upd_msg_def upd_batch_def Let_def same_rings_def split: option.splits if_splits)

lemma stream_put_same_rings: "stream_put a d = Some d' \<Longrightarrow> same_rings d d'"
  by (auto simp: stream_put_def stream_free_def same_rings_def split: Option.bind_splits nat.splits if_splits)

lemma tx_msg_put_same_rings: "tx_msg_put m d = Some d' \<Longrightarrow> same_rings d d'"
proof (goal_cases)
  case 1
  then consider (last) d1 d2 a f where "upd_stream a f d = Some d1" "stream_put a d1 = Some d2"
      "d' = d2\<lparr>dev_msgs := (dev_msgs d2)(m := None)\<rparr>"
    | (dec) f where "upd_msg m f d = Some d'"
    by (fastforce simp: tx_msg_put_def split: Option.bind_splits nat.splits if_splits)
  then show ?case
  proof cases
    case last
    from last(1,2) have "same_rings d d2" by (meson upd_same_rings(1) stream_put_same_rings same_rings_trans)
    with last(3) show ?thesis by (simp add: same_rings_def)
  qed (rule upd_same_rings)
qed

lemma maybe_complete_same_rings: "tx_msg_maybe_complete m d = Some d' \<Longrightarrow> same_rings d d'"
  by (auto simp: tx_msg_maybe_complete_def split: Option.bind_splits if_splits
      dest!: upd_same_rings tx_msg_put_same_rings elim: same_rings_trans)

lemma frame_done_same_rings: "tx_msg_frame_done m c d = Some d' \<Longrightarrow> same_rings d d'"
  by (auto simp: tx_msg_frame_done_def split: Option.bind_splits if_splits
      dest!: upd_same_rings maybe_complete_same_rings elim: same_rings_trans)

lemma batch_callback_same_rings: "tx_batch_callback True (BatchFrame b i) c d = Some d' \<Longrightarrow> same_rings d d'"
proof (goal_cases)
  case 1
  then obtain batch :: batch_buf and d1 d2 d3 where
    B: "(case bb_tx_msg batch of Some m \<Rightarrow> if c then upd_msg m (\<lambda>msg. msg\<lparr>tm_failed := True\<rparr>) d else Some d | None \<Rightarrow> Some d) = Some d1"
      "upd_batch b (\<lambda>x. x\<lparr>bb_frames_pending := bb_frames_pending x - 1\<rparr>) d1 = Some d2"
      "(if bb_frames_pending batch - 1 = 0 then do { p \<leftarrow> batch_pool_put (dev_bpool d2) b; Some (d2\<lparr>dev_bpool := p\<rparr>) } else Some d2) = Some d3"
      "(case bb_tx_msg batch of Some m \<Rightarrow> tx_msg_frame_done m False d3 | None \<Rightarrow> Some d3) = Some d'"
    unfolding tx_batch_callback_def frame_ref.case bind_eq_Some_conv not_True_eq_False if_False by blast
  have "same_rings d d1" using B(1) upd_same_rings(2) by (auto split: option.splits if_splits)
  moreover have "same_rings d1 d2" using B(2) by (rule upd_same_rings)
  moreover have "same_rings d2 d3" using B(3) by (auto simp: same_rings_def split: Option.bind_splits if_splits)
  moreover have "same_rings d3 d'" using B(4) frame_done_same_rings by (auto split: option.splits)
  ultimately show ?case by (meson same_rings_trans)
qed

text \<open>A completion takes its descriptor off the ring and returns the slot of a pool frame; it touches nothing else that the
  receive side uses.\<close>

definition slots_of :: "frame_ref list \<Rightarrow> nat set" where
  "slots_of rs = {i. PoolSlot i \<in> set rs}"

lemma tx_complete_rings:
  assumes "tx_complete (r, c) d = Some d'" "r \<in> set (dev_tx_pending d)"
  shows "\<exists>p. same_rings (d\<lparr>dev_tx_pending := remove1 r (dev_tx_pending d), dev_pool := p\<rparr>) d' \<and>
    (case r of PoolSlot i \<Rightarrow> frame_pool_put (dev_pool d) i = Some p | _ \<Rightarrow> p = dev_pool d)"
proof (cases r)
  case (PoolSlot i)
  then obtain p where p: "frame_pool_put (dev_pool d) i = Some p"
    using assms by (auto simp: tx_complete_def tx_callback_def Let_def split: Option.bind_splits)
  then have "same_rings (d\<lparr>dev_tx_pending := remove1 r (dev_tx_pending d), dev_pool := p\<rparr>) d'"
    using assms frame_done_same_rings PoolSlot
    by (auto simp: tx_complete_def tx_callback_def Let_def split: Option.bind_splits option.splits)
  with p PoolSlot show ?thesis by auto
next
  case (BatchFrame b i)
  have "same_rings (d\<lparr>dev_tx_pending := remove1 r (dev_tx_pending d)\<rparr>) d'"
    using assms BatchFrame batch_callback_same_rings by (auto simp: tx_complete_def Let_def)
  with BatchFrame show ?thesis by (auto intro!: exI [of _ "dev_pool d"])
qed (use assms in \<open>auto simp: tx_complete_def tx_callback_def Let_def same_rings_def split: if_splits\<close>)

lemma tx_complete_ctx: "tx_complete rc d = Some d' \<Longrightarrow> same_ctx (dev_tx d) (dev_tx d')"
  using tx_complete_rings [of "fst rc" "snd rc" d d']
  by (cases "fst rc \<in> set (dev_tx_pending d)") (auto simp: same_rings_def tx_complete_def split: prod.splits)

lemma tx_complete_all_ctx: "tx_complete_all rcs d = Some d' \<Longrightarrow> same_ctx (dev_tx d) (dev_tx d')"
proof (induction rcs arbitrary: d)
  case (Cons rc rcs)
  then obtain d1 where "tx_complete rc d = Some d1" "tx_complete_all rcs d1 = Some d'" by (auto split: Option.bind_splits)
  with Cons.IH [of d1] tx_complete_ctx [of rc d d1] show ?case by (simp add: same_ctx_def)
qed simp

lemma tx_complete_effect:
  assumes "tx_wf refs senders mc bc d" "dev_tx_pending d = r # rs" "tx_complete (r, c) d = Some d'"
  shows "dev_tx_pending d' = rs" "dev_rx_pending d' = dev_rx_pending d" "dev_rx d' = dev_rx d"
    "same_ctx (dev_tx d) (dev_tx d')"
    "dev_rx_posted d' = dev_rx_posted d" "frame_pool_used (dev_pool d') = frame_pool_used (dev_pool d) - slots_of [r]"
proof -
  obtain p where p: "same_rings (d\<lparr>dev_tx_pending := rs, dev_pool := p\<rparr>) d'"
    "case r of PoolSlot i \<Rightarrow> frame_pool_put (dev_pool d) i = Some p | _ \<Rightarrow> p = dev_pool d"
    using tx_complete_rings [OF assms(3)] assms(2) by auto
  have "frame_pool_used p = frame_pool_used (dev_pool d) - slots_of [r]"
  proof (cases r)
    case (PoolSlot i)
    have "i \<in> frame_pool_used (dev_pool d)" using tx_baseD(7) [OF tx_wfD(1) [OF assms(1)]] assms(2) PoolSlot by simp
    from frame_pool_put_used [OF tx_baseD(1) [OF tx_wfD(1) [OF assms(1)]] this] p(2) PoolSlot
    have "frame_pool_used p = frame_pool_used (dev_pool d) - {i}" by auto
    with PoolSlot show ?thesis by (auto simp: slots_of_def)
  qed (use p(2) in \<open>auto simp: slots_of_def\<close>)
  with p(1) show "dev_tx_pending d' = rs" "dev_rx_pending d' = dev_rx_pending d" "dev_rx d' = dev_rx d"
    "same_ctx (dev_tx d) (dev_tx d')"
    "dev_rx_posted d' = dev_rx_posted d" "frame_pool_used (dev_pool d') = frame_pool_used (dev_pool d) - slots_of [r]"
    by (simp_all add: same_rings_def)
qed

definition tx_drained :: "frame_ref list \<Rightarrow> odl_device \<Rightarrow> odl_device \<Rightarrow> bool" where
  "tx_drained rs d d' \<longleftrightarrow> dev_tx_pending d' = [] \<and> dev_rx_pending d' = dev_rx_pending d \<and> dev_rx d' = dev_rx d \<and>
     same_ctx (dev_tx d) (dev_tx d') \<and> dev_rx_posted d' = dev_rx_posted d \<and> frame_pool_used (dev_pool d') = frame_pool_used (dev_pool d) - slots_of rs"

lemma tx_cancel_all:
  assumes "tx_wf refs senders mc bc d" "dev_tx_pending d = rs"
  shows "\<exists>d'. tx_complete_all (map (\<lambda>r. (r, True)) rs) d = Some d' \<and> tx_wf refs senders mc bc d' \<and> tx_drained rs d d'"
  using assms
proof (induction rs arbitrary: d)
  case Nil
  then show ?case by (simp add: tx_drained_def slots_of_def)
next
  case (Cons r rs)
  obtain d1 where d1: "tx_complete (r, True) d = Some d1" "tx_wf refs senders mc bc d1"
    using tx_complete_wf [OF Cons.prems(1)] by blast
  note eff = tx_complete_effect [OF Cons.prems d1(1)]
  obtain d2 where d2: "tx_complete_all (map (\<lambda>r. (r, True)) rs) d1 = Some d2" "tx_wf refs senders mc bc d2"
    "tx_drained rs d1 d2"
    using Cons.IH [OF d1(2) eff(1)] by blast
  have "slots_of (r # rs) = slots_of [r] \<union> slots_of rs" by (auto simp: slots_of_def)
  then have "tx_drained (r # rs) d d2" using d2(3) eff by (auto simp: tx_drained_def same_ctx_def)
  with d1(1) d2(1,2) show ?case by simp
qed

lemma rx_cancel_pool:
  assumes "frame_pool_wf (dev_pool d)" "dev_rx_pending d = PoolSlot i # rs" "i \<in> frame_pool_used (dev_pool d)"
  shows "\<exists>p st. rx_complete kmalloc rxm_ok rx_ok (PoolSlot i, True) d = Some (d\<lparr>dev_rx_pending := rs,
      dev_rx_posted := dev_rx_posted d - 1, dev_pool := p, dev_stats := st\<rparr>) \<and>
    frame_pool_wf p \<and> frame_pool_used p = frame_pool_used (dev_pool d) - {i}"
proof -
  obtain p where p: "frame_pool_put (dev_pool d) i = Some p" "frame_pool_wf p"
    "frame_pool_used p = frame_pool_used (dev_pool d) - {i}"
    using frame_pool_put_used [OF assms(1,3)] by blast
  obtain ss where ss: "fp_slots (dev_pool d) = Some ss" "fp_size (dev_pool d) = FRAME_POOL_SIZE" "length ss = FRAME_POOL_SIZE"
    using assms(1) by (rule frame_pool_wfE) blast
  have "i < FRAME_POOL_SIZE" using assms(3) frame_pool_used_bounded by blast
  with p ss assms(2) show ?thesis
    by (intro exI [of _ p] exI [of _ "(dev_stats d)\<lparr>rx_canceled := rx_canceled (dev_stats d) + 1\<rparr>"])
      (simp add: rx_complete_def rx_callback_def rx_pool_frame_def get_slot_def pool_put_def Let_def)
qed

lemma rx_cancel_all:
  assumes "frame_pool_wf (dev_pool d)" "dev_rx_pending d = map PoolSlot js0" "distinct js0"
    "set js0 \<subseteq> frame_pool_used (dev_pool d)" "dev_rx_posted d = int (length js0)"
  shows "\<exists>p st. rx_complete_all kmalloc rxm_ok rx_ok (map (\<lambda>r. (r, True)) (map PoolSlot js0)) d
      = Some (d\<lparr>dev_rx_pending := [], dev_rx_posted := 0, dev_pool := p, dev_stats := st\<rparr>) \<and>
    frame_pool_wf p \<and> frame_pool_used p = frame_pool_used (dev_pool d) - set js0"
  using assms
proof (induction js0 arbitrary: d)
  case Nil
  then show ?case by (auto intro!: exI [of _ "dev_pool d"] exI [of _ "dev_stats d"])
next
  case (Cons i js)
  have i: "dev_rx_pending d = PoolSlot i # map PoolSlot js" "i \<in> frame_pool_used (dev_pool d)"
    using Cons.prems(2,4) by simp_all
  obtain p st where p: "rx_complete kmalloc rxm_ok rx_ok (PoolSlot i, True) d = Some (d\<lparr>dev_rx_pending := map PoolSlot js,
      dev_rx_posted := dev_rx_posted d - 1, dev_pool := p, dev_stats := st\<rparr>)" (is "_ = Some ?d")
    "frame_pool_wf p" "frame_pool_used p = frame_pool_used (dev_pool d) - {i}"
    using rx_cancel_pool [OF Cons.prems(1) i, of kmalloc rxm_ok rx_ok] by blast
  obtain q st' where "rx_complete_all kmalloc rxm_ok rx_ok (map (\<lambda>r. (r, True)) (map PoolSlot js)) ?d
      = Some (?d\<lparr>dev_rx_pending := [], dev_rx_posted := 0, dev_pool := q, dev_stats := st'\<rparr>)"
    "frame_pool_wf q" "frame_pool_used q = frame_pool_used (dev_pool ?d) - set js"
    using Cons.IH [of ?d] p(2,3) Cons.prems(3-5) by (auto simp del: map_map)
  with p(1,3) show ?case by (intro exI [of _ q] exI [of _ st']) (auto simp del: map_map)
qed

text \<open>Both rings: descriptors, slots and messages are all reclaimed.\<close>

definition rx_slots_posted :: "nat list \<Rightarrow> odl_device \<Rightarrow> bool" where
  "rx_slots_posted posted d \<longleftrightarrow> dev_rx_pending d = map PoolSlot posted \<and> distinct posted \<and>
     set posted \<subseteq> frame_pool_used (dev_pool d) \<and> set posted \<inter> slots_of (dev_tx_pending d) = {} \<and>
     dev_rx_posted d = int (length posted)"

lemma tx_wf_idle_msgs:
  assumes "tx_wf refs {} mc bc d" "dev_tx_pending d = []"
  shows "dev_msgs d = Map.empty"
proof
  fix m
  show "dev_msgs d m = None"
    using tx_wfD(2) [OF assms(1), of m] assms(2) by (cases "dev_msgs d m") (auto simp: msg_ok_def msg_frames_out_def)
qed

lemma stop_tx_ok:
  assumes "tx_wf refs senders mc bc d"
  shows "\<exists>d'. tb_ring_stop_tx d = Some d' \<and> tx_wf refs senders mc bc d' \<and> tx_drained (dev_tx_pending d) d d'"
proof -
  obtain r where "rc_ring (dev_tx d) = Some r" using tx_baseD(3) [OF tx_wfD(1) [OF assms]] by blast
  with tx_cancel_all [OF assms refl] show ?thesis by (simp add: tb_ring_stop_tx_def)
qed

lemma stop_rx_ok:
  assumes "frame_pool_wf (dev_pool d)" "dev_rx_pending d = map PoolSlot posted" "distinct posted"
    "set posted \<subseteq> frame_pool_used (dev_pool d)" "dev_rx_posted d = int (length posted)" "rc_ring (dev_rx d) \<noteq> None"
  shows "\<exists>p st. tb_ring_stop_rx d = Some (d\<lparr>dev_rx_pending := [], dev_rx_posted := 0, dev_pool := p, dev_stats := st\<rparr>) \<and>
    frame_pool_wf p \<and> frame_pool_used p = frame_pool_used (dev_pool d) - set posted"
  using rx_cancel_all [OF assms(1-5)] assms(2,6) by (auto simp: tb_ring_stop_rx_def)

section \<open>Properties\<close>

lemma holds_unequipped_unique:
  assumes "holds res d" "unequipped d" "holds res' d'" "unequipped d'"
    "rc_bufs (dev_tx d') = rc_bufs (dev_tx d)" "rc_bufs (dev_rx d') = rc_bufs (dev_rx d)"
  shows "res' = res"
  using assms by (cases res; cases res') (simp add: holds_def unequipped_def bufs_live_def live_def)

lemma watermarks_ordered:
  assumes "RING_SIZE_MIN \<le> n" "n \<le> RING_SIZE_MAX" "rc_ring_size (dev_tx d) = n"
    "dev_adapt d = dev_adapt (update_tx_watermarks d)"
  shows "ta_low_watermark (dev_adapt d) < ta_high_watermark (dev_adapt d)"
    "ta_high_watermark (dev_adapt d) \<le> FRAME_POOL_SIZE - TX_POOL_RESERVE"
proof -
  have "n * 3 mod 2 ^ 32 = n * 3" using assms(2) by (simp add: driver_consts)
  moreover have "n div 4 < n * 3 div 4" using assms(1) by (simp add: driver_consts)
  moreover have "ta_low_watermark (dev_adapt d) = min (n div 4) 1920"
    "ta_high_watermark (dev_adapt d) = min (n * 3 mod 2 ^ 32 div 4) 3840"
    by (subst assms(4), simp add: update_tx_watermarks_def assms(3) driver_consts)+
  ultimately show "ta_low_watermark (dev_adapt d) < ta_high_watermark (dev_adapt d)"
    "ta_high_watermark (dev_adapt d) \<le> FRAME_POOL_SIZE - TX_POOL_RESERVE"
    by (auto simp: driver_consts min_less_iff_disj)
qed

text \<open>C13: \<open>odl_tb5_rings_alloc\<close> is all or nothing. Whatever size is requested and whichever allocation fails, it returns without
  undefined behaviour; after an error the device holds no ring, HopID or descriptor array and the kernel has everything back; after
  success both rings have the same depth, a power of two between 64 and 16384, descriptor arrays of that length and a low watermark
  below the high one, and \<open>odl_tb5_rings_free\<close> gives back exactly what was taken.\<close>

theorem rings_alloc_all_or_nothing:
  assumes "holds res d" "unequipped d" "fresh_env env"
  shows "\<exists>ret res' d'. rings_alloc env requested_size res d = Some (ret, res', d') \<and>
    (case ret of
       Inl _ \<Rightarrow> unequipped d' \<and> res' = res
     | Inr _ \<Rightarrow>
         (let n = rc_ring_size (dev_tx d') in
          equipped n d' \<and> is_power_of_2 n \<and> RING_SIZE_MIN \<le> n \<and> n \<le> RING_SIZE_MAX \<and>
          ta_low_watermark (dev_adapt d') < ta_high_watermark (dev_adapt d') \<and>
          ta_high_watermark (dev_adapt d') \<le> FRAME_POOL_SIZE - TX_POOL_RESERVE) \<and>
         (\<exists>d''. rings_free res' d' = Some (res, d'') \<and> unequipped d''))"
  using assms
proof (cases rule: rings_alloc_ok [where n = requested_size])
  case (error e d')
  then show ?thesis by simp
next
  case (ok res' d')
  obtain res'' d'' where F: "rings_free res' d' = Some (res'', d'')" "holds res'' d''" "unequipped d''"
    "rc_bufs (dev_tx d'') = rc_bufs (dev_tx d')" "rc_bufs (dev_rx d'') = rc_bufs (dev_rx d')"
    using rings_free_ok [OF ok(2)] by blast
  have "res'' = res" using holds_unequipped_unique [OF assms(1,2) F(2,3)] F(4,5) ok(5,6) by simp
  moreover have n: "rc_ring_size (dev_tx d') = ring_size_of requested_size" using ok(3) by (simp add: equipped_def)
  ultimately show ?thesis
    using ok(1,3) F(1,3) ring_size_of_bounds [of requested_size] watermarks_ordered [OF _ _ n ok(4)] by (simp add: Let_def)
qed

text \<open>C14: \<open>odl_tb5_rings_resize\<close> never loses track of a resource, whichever allocations fail. Running rings are refused and left
  alone; a size that is not smaller changes nothing; success leaves rings and buffers of the clamped new depth, never deeper than
  before; an error leaves either the complete old configuration or a device without buffers.\<close>

theorem rings_resize_safe:
  assumes "holds res d" "provisioned n d" "is_power_of_2 n" "RING_SIZE_MIN \<le> n" "n \<le> RING_SIZE_MAX"
    "fresh_env (fst env1)" "fresh_env (fst env2)"
  shows "\<exists>ret res' d'. rings_resize env1 env2 new_size res d = Some (ret, res', d') \<and> holds res' d' \<and>
    (if rc_started (dev_tx d) \<or> rc_started (dev_rx d) then ret = Inl EBUSY \<and> d' = d
     else if n \<le> new_size then ret = Inr () \<and> d' = d
     else case ret of
            Inr _ \<Rightarrow> ring_size_of new_size \<le> n \<and> provisioned (ring_size_of new_size) d'
          | Inl e \<Rightarrow> provisioned n d' \<and> e = ENOMEM \<or> unbuffered d')"
proof (cases "rc_started (dev_tx d) \<or> rc_started (dev_rx d) \<or> n \<le> new_size")
  case True
  moreover have "rc_ring_size (dev_tx d) = n" using assms(2) by (simp add: provisioned_def equipped_def)
  ultimately show ?thesis using assms(1) by (auto simp: rings_resize_def Let_def)
next
  case False
  have "ring_size_of n = n" using assms(3-5) by (rule ring_size_of_id)
  moreover have "ring_size_of new_size \<le> n" if "new_size < n" for new_size
  proof -
    let ?m = "max RING_SIZE_MIN new_size"
    have m: "ring_size_of new_size = roundup_pow_of_two ?m" "1 \<le> ?m" "?m \<le> n"
      using that assms(4,5) by (auto simp: ring_size_of_def Let_def driver_consts max_def)
    obtain j k where jk: "roundup_pow_of_two ?m = 2 ^ j" "n = 2 ^ k"
      using roundup_pow_of_two_spec(1) [OF m(2)] assms(3) by (auto simp: is_power_of_2_iff)
    have "(2::nat) ^ j < 2 * n" using roundup_pow_of_two_spec(3) [OF m(2)] m(3) jk(1) by linarith
    then have "(2::nat) ^ j < 2 ^ Suc k" using jk(2) by simp
    then have "j \<le> k" using power_less_imp_less_exp [of "2::nat" j "Suc k"] by simp
    then show ?thesis using m(1) jk by simp
  qed
  moreover obtain ret res' d' where R: "rings_resize env1 env2 new_size res d = Some (ret, res', d')" "holds res' d'"
    "case ret of Inr _ \<Rightarrow> provisioned (ring_size_of new_size) d' | Inl e \<Rightarrow> provisioned n d' \<and> e = ENOMEM \<or> unbuffered d'"
    using rings_resize_cases [OF assms(1,2) calculation(1) assms(6,7), of new_size] False by auto
  ultimately show ?thesis using False
    by (intro exI [of _ ret] exI [of _ res'] exI [of _ d']) (cases ret; simp)
qed

lemma rings_stop_ok:
  assumes "tx_wf refs {} (\<lambda>_. 0) (\<lambda>_. 0) d" "rx_slots_posted posted d" "rc_started (dev_tx d)" "rc_started (dev_rx d)"
  shows "\<exists>d'. rings_stop d = Some d' \<and> \<not> rc_started (dev_tx d') \<and> \<not> rc_started (dev_rx d') \<and>
    dev_tx_pending d' = [] \<and> dev_rx_pending d' = [] \<and> dev_rx_posted d' = 0 \<and> dev_msgs d' = Map.empty \<and>
    frame_pool_used (dev_pool d') = frame_pool_used (dev_pool d) - (set posted \<union> slots_of (dev_tx_pending d)) \<and>
    streams_wf refs d' \<and> frame_pool_wf (dev_pool d') \<and>
    batch_pool_wf (dev_bpool d') \<and> same_ctx ((dev_tx d)\<lparr>rc_started := False, rc_frames_posted := False\<rparr>) (dev_tx d') \<and>
    dev_rx d' = (dev_rx d)\<lparr>rc_started := False, rc_frames_posted := False\<rparr>"
proof -
  have base: "rc_ring (dev_tx d) \<noteq> None" "rc_ring (dev_rx d) \<noteq> None"
    using tx_baseD(3,5) [OF tx_wfD(1) [OF assms(1)]] by (auto simp: streams_wf_def rx_base_ok_def)
  obtain d1 where d1: "tb_ring_stop_tx d = Some d1" "tx_wf refs {} (\<lambda>_. 0) (\<lambda>_. 0) d1" "tx_drained (dev_tx_pending d) d d1"
    using stop_tx_ok [OF assms(1)] by blast
  let ?d1 = "upd_tx (\<lambda>c. c\<lparr>rc_started := False, rc_frames_posted := False\<rparr>) d1"
  have msgs: "dev_msgs d1 = Map.empty" using tx_wf_idle_msgs [OF d1(2)] d1(3) by (simp add: tx_drained_def)
  have pool: "frame_pool_wf (dev_pool ?d1)" using tx_baseD(1) [OF tx_wfD(1) [OF d1(2)]] by (simp add: upd_tx_def)
  have "dev_rx_pending ?d1 = map PoolSlot posted" "distinct posted" "set posted \<subseteq> frame_pool_used (dev_pool ?d1)"
    "dev_rx_posted ?d1 = int (length posted)" and rx: "dev_rx ?d1 = dev_rx d" and ring: "rc_ring (dev_rx ?d1) \<noteq> None"
    using d1(3) assms(2) base by (auto simp: tx_drained_def rx_slots_posted_def upd_tx_def)
  from stop_rx_ok [OF pool this(1-4) ring] obtain p st
    where R: "tb_ring_stop_rx ?d1 = Some (?d1\<lparr>dev_rx_pending := [], dev_rx_posted := 0, dev_pool := p, dev_stats := st\<rparr>)"
      (is "_ = Some ?d2") "frame_pool_wf p" "frame_pool_used p = frame_pool_used (dev_pool ?d1) - set posted" by blast
  let ?d3 = "upd_rx (\<lambda>c. c\<lparr>rc_started := False, rc_frames_posted := False\<rparr>) ?d2"
  have "rings_stop d = Some ?d3"
    unfolding rings_stop_def using base assms(3,4) d1(1) R(1) rx by simp
  moreover have "streams_wf refs d1"
    using tx_baseD(5) [OF tx_wfD(1) [OF d1(2)]] msgs by (simp add: stream_msgs_def)
  moreover have "stream_num ?d3 = stream_num d1" by (simp add: stream_num_def [abs_def] upd_tx_def upd_rx_def)
  ultimately have "rings_stop d = Some ?d3" "streams_wf refs ?d3"
    using R(2) ring by (auto simp: streams_wf_def rx_base_ok_def upd_tx_def upd_rx_def)
  moreover have "batch_pool_wf (dev_bpool ?d3)" using tx_baseD(2) [OF tx_wfD(1) [OF d1(2)]] by (simp add: upd_tx_def upd_rx_def)
  moreover have "same_ctx ((dev_tx d)\<lparr>rc_started := False, rc_frames_posted := False\<rparr>) (dev_tx ?d3)"
    using d1(3) by (cases "dev_tx d"; cases "dev_tx d1") (simp add: tx_drained_def same_ctx_def upd_tx_def upd_rx_def)
  ultimately show ?thesis
    using d1(3) R(2,3) msgs by (intro exI [of _ ?d3]) (auto simp: tx_drained_def upd_tx_def upd_rx_def)
qed

text \<open>C15: Stopping the rings, \<open>odl_tb5_rings_stop\<close>, cancels and reclaims everything that is in flight. If the two rings run, no send
  call is in progress, and the slots posted for reception are distinct used slots, then the call has no undefined behaviour, and
  afterwards both rings are stopped and empty, every slot of a posted or pending frame is back in the pool and no other slot is,
  no message is left, and every stream's reference count is that of its remaining users.\<close>

theorem rings_stop_reclaims:
  assumes "tx_wf refs {} (\<lambda>_. 0) (\<lambda>_. 0) d" "rx_slots_posted posted d" "rc_started (dev_tx d)" "rc_started (dev_rx d)"
  shows "\<exists>d'. rings_stop d = Some d' \<and> \<not> rc_started (dev_tx d') \<and> \<not> rc_started (dev_rx d') \<and>
    dev_tx_pending d' = [] \<and> dev_rx_pending d' = [] \<and> dev_rx_posted d' = 0 \<and> dev_msgs d' = Map.empty \<and>
    frame_pool_used (dev_pool d') = frame_pool_used (dev_pool d) - (set posted \<union> slots_of (dev_tx_pending d)) \<and>
    streams_wf refs d'"
  using rings_stop_ok [OF assms] by blast

section \<open>Instances\<close>

definition sample_res :: nhi_res where
  "sample_res = \<lparr>nr_rings = {}, nr_hopids = {}, nr_arrays = 0, nr_bufs = 0\<rparr>"

definition bare_ring :: ring_ctx where
  "bare_ring = sample_ring\<lparr>rc_ring := None, rc_started := False, rc_bufs := replicate NUM_BUFFERS \<lparr>db_virt = None, db_size = 0\<rparr>\<rparr>"

definition bare_device :: odl_device where
  "bare_device = set_local_hopid (- 1) (sample_device\<lparr>dev_tx := bare_ring, dev_rx := bare_ring\<rparr>)"

definition sample_ring_env :: ring_env where
  "sample_ring_env = \<lparr>re_tx_frames = True, re_rx_frames = True, re_hopid = Inr 8, re_tx_ring = Some 1, re_rx_ring = Some 2\<rparr>"

lemma bare_device_ok: "holds sample_res bare_device" "unequipped bare_device" "unbuffered bare_device"
  by (simp_all add: holds_def sample_res_def bare_device_def set_local_hopid_def bare_ring_def sample_ring_def unequipped_def
      unbuffered_def bufs_live_def live_def)

lemma sample_ring_env_fresh: "fresh_env sample_ring_env"
  by (simp add: fresh_env_def sample_ring_env_def)

theorem rings_alloc_all_or_nothing_witness:
  "\<exists>res' d'. rings_alloc sample_ring_env 1000 sample_res bare_device = Some (Inr (), res', d') \<and> is_power_of_2 (rc_ring_size (dev_tx d'))"
proof -
  have "\<exists>res' d'. rings_alloc sample_ring_env 1000 sample_res bare_device = Some (Inr (), res', d')"
    by (simp add: rings_alloc_def sample_ring_env_def Let_def)
  then show ?thesis
    using rings_alloc_all_or_nothing [OF bare_device_ok(1,2) sample_ring_env_fresh, of 1000] by (auto simp: Let_def)
qed

definition sample_buf_env :: buf_env where
  "sample_buf_env = \<lparr>be_tx = (\<lambda>_. True), be_rx = (\<lambda>_. True)\<rparr>"

definition full_ring :: "nat \<Rightarrow> nat \<Rightarrow> ring_ctx" where
  "full_ring r n = bare_ring\<lparr>rc_ring := Some r, rc_frames := Some (replicate n zero_frame), rc_ring_size := n,
     rc_bufs := replicate NUM_BUFFERS \<lparr>db_virt = Some (replicate (FRAME_SIZE * n) 0), db_size = FRAME_SIZE * n\<rparr>\<rparr>"

definition full_device :: "nat \<Rightarrow> odl_device" where
  "full_device n = sample_device\<lparr>dev_tx := full_ring 1 n, dev_rx := full_ring 2 n\<rparr>"

definition full_res :: nhi_res where
  "full_res = \<lparr>nr_rings = {1, 2}, nr_hopids = {8}, nr_arrays = 2, nr_bufs = 4\<rparr>"

lemma full_device_ok: "holds full_res (full_device n)" "provisioned n (full_device n)"
  "\<not> rc_started (dev_tx (full_device n))" "\<not> rc_started (dev_rx (full_device n))"
  by (auto simp: holds_def full_res_def full_device_def full_ring_def bare_ring_def sample_ring_def sample_device_def sample_hs_def
      provisioned_def equipped_def buffered_def bufs_live_def live_def NUM_BUFFERS_def)

theorem rings_resize_safe_witness:
  "\<exists>ret res' d'. rings_resize (sample_ring_env, sample_buf_env) (sample_ring_env, sample_buf_env) 100 full_res (full_device 256)
     = Some (ret, res', d') \<and> holds res' d' \<and> (ret = Inr () \<longrightarrow> rc_ring_size (dev_tx d') \<le> 256)"
proof -
  have "is_power_of_2 (2 ^ 8)" by (rule is_power_of_2_exp)
  then have "is_power_of_2 256" "RING_SIZE_MIN \<le> 256" "256 \<le> RING_SIZE_MAX" by (simp_all add: driver_consts)
  from rings_resize_safe [OF full_device_ok(1,2) this, where ?env1.0 = "(sample_ring_env, sample_buf_env)"
      and ?env2.0 = "(sample_ring_env, sample_buf_env)" and new_size = 100] full_device_ok(3,4) sample_ring_env_fresh
  show ?thesis by (fastforce simp: provisioned_def equipped_def split: sum.splits)
qed

text \<open>A running device with a slot posted for reception and a legacy frame on the transmit ring.\<close>

lemma sample_running:
  obtains posted d where "tx_wf (\<lambda>_. 0) {} (\<lambda>_. 0) (\<lambda>_. 0) d" "rx_slots_posted posted d" "posted \<noteq> []"
    "dev_tx_pending d = [LegacyTx 0]" "rc_started (dev_tx d)" "rc_started (dev_rx d)"
proof -
  let ?d = "sample_sender"
  have dev: "dev_pool ?d = sample_pool" "dev_rx_pending ?d = []" "dev_rx_posted ?d = 0" "dev_rx_target ?d = 1"
    "rc_ring (dev_rx ?d) = Some 1" "rc_started (dev_tx ?d)" "rc_started (dev_rx ?d)" "dev_tx_pending ?d = []"
    "dev_msgs ?d = Map.empty"
    by (simp_all add: sample_sender_def with_stream_def add_owned_def sample_device_def sample_ring_def)
  have wf: "frame_pool_wf (dev_pool ?d)" "rc_ring (dev_rx ?d) \<noteq> None" using dev sample_pool_ok(1) by simp_all
  obtain new p st where "rx_repost (\<lambda>_. True) ?d = Some (reposted ?d new p st)"
    and r0: "repost_ok ?d (dev_rx_target ?d - dev_rx_posted ?d) new p"
    and len: "length new = min (nat (dev_rx_target ?d - dev_rx_posted ?d)) (FRAME_POOL_SIZE - card (frame_pool_used (dev_pool ?d)))"
    using wf by (rule rx_repost_spec [where ok = "\<lambda>_. True"]) blast
  have r: "repost_ok ?d 1 new p" "length new = 1"
    using r0 len dev(1,3,4) sample_pool_ok(2) by (simp_all add: driver_consts)
  let ?d' = "(reposted ?d new p st)\<lparr>dev_tx_pending := [LegacyTx 0]\<rparr>"
  have idle: "batch_pool_wf (dev_bpool ?d)" "rc_ring (dev_tx ?d) \<noteq> None" "streams_wf (\<lambda>_. 0) ?d"
    "list_all (\<lambda>b. bb_frames_pending b = 0) (bp_bufs (dev_bpool ?d))" and p: "frame_pool_wf p"
    using sample_sender_idle r(1) by (simp_all add: tx_idle_def repost_ok_def)
  have "streams_wf (\<lambda>_. 0) ?d'" by (rule streams_wf_cong [OF idle(3)]) (simp_all add: reposted_def p)
  then have "tx_wf (\<lambda>_. 0) {} (\<lambda>_. 0) (\<lambda>_. 0) ?d'"
    using idle(1,2,4) p dev(9)
    by (simp add: tx_wf_def tx_base_def reposted_def stream_msgs_def batch_frames_out_def is_batch_frame_def
        frame_owner_def list_all_length batch_pool_wf_def)
  moreover have "rx_slots_posted new ?d'"
    using r(1) dev by (auto simp: rx_slots_posted_def reposted_def repost_ok_def slots_of_def)
  moreover have "new \<noteq> []" "rc_started (dev_tx ?d')" "rc_started (dev_rx ?d')" "dev_tx_pending ?d' = [LegacyTx 0]"
    using r(2) dev by (auto simp: reposted_def)
  ultimately show thesis by (intro that [of ?d' new])
qed

theorem rings_stop_reclaims_witness:
  "\<exists>d d'. dev_tx_pending d = [LegacyTx 0] \<and> 0 < dev_rx_posted d \<and> rings_stop d = Some d' \<and> dev_tx_pending d' = [] \<and> dev_rx_posted d' = 0"
proof -
  obtain posted d where d: "tx_wf (\<lambda>_. 0) {} (\<lambda>_. 0) (\<lambda>_. 0) d" "rx_slots_posted posted d" "posted \<noteq> []"
    "dev_tx_pending d = [LegacyTx 0]" "rc_started (dev_tx d)" "rc_started (dev_rx d)" by (rule sample_running)
  then have "0 < dev_rx_posted d" by (simp add: rx_slots_posted_def)
  with rings_stop_reclaims [OF d(1,2,5,6)] d(4) show ?thesis by blast
qed

end
