(* ===== verification/Legacy_Submit.thy ===== *)
theory Legacy_Submit
  imports Ring_Life
begin

text \<open>
  The transfer calls that do not use the frame pool, \<^verbatim>\<open>driver/odl_tb5_ring_dma.c\<close> lines 813 to 1165: the submission of a
  region of the front buffer (\<open>submit_tx\<close>, \<open>submit_rx\<close>) and of a region of a DMA-BUF, which is walked segment by segment
  (\<open>submit_tx_dmabuf\<close>, \<open>submit_rx_dmabuf\<close>).

  Offsets and lengths are \<open>size_t\<close>: sums are taken modulo \<open>2 ^ 64\<close>. A descriptor whose region leaves the buffer lets
  the NHI read or write foreign memory and has the value \<open>None\<close>. The answers of \<open>tb_ring_tx\<close> and \<open>tb_ring_rx\<close> to
  the \<open>i\<close>th descriptor are \<open>ret i\<close>, with \<open>None\<close> for acceptance.
\<close>

section \<open>Descriptors of the legacy arrays\<close>

definition size_t :: "nat \<Rightarrow> nat" where
  "size_t n = n mod 2 ^ 64"

text \<open>\<open>int nframes = DIV_ROUND_UP(len, 4096)\<close>: the sum wraps at 64 bits, the quotient is cut to a signed 32-bit number.\<close>

definition nframes_of :: "nat \<Rightarrow> int" where
  "nframes_of len = sint (word_of_nat (size_t (len + (FRAME_SIZE - 1)) div FRAME_SIZE) :: 32 word)"

definition set_frame :: "nat \<Rightarrow> ring_frame \<Rightarrow> ring_ctx \<Rightarrow> ring_ctx option" where
  "set_frame i f c =
     do { fs \<leftarrow> rc_frames c; if i < length fs then Some (c\<lparr>rc_frames := Some (fs[i := f])\<rparr>) else None }"

definition get_frame :: "nat \<Rightarrow> ring_ctx \<Rightarrow> ring_frame option" where
  "get_frame i c = do { fs \<leftarrow> rc_frames c; if i < length fs then Some (fs ! i) else None }"

definition legacy_desc :: "nat \<Rightarrow> frame_cb \<Rightarrow> nat \<Rightarrow> nat \<Rightarrow> ring_frame \<Rightarrow> ring_frame" where
  "legacy_desc sz cb sof eof f = f\<lparr>rf_size := sz, rf_callback := cb, rf_sof := sof, rf_eof := eof\<rparr>"

text \<open>Filling the descriptor and handing it to the ring, for each direction.\<close>

definition post_tx :: "bool \<Rightarrow> bool \<Rightarrow> nat \<Rightarrow> byte list \<Rightarrow> odl_device \<Rightarrow> odl_device option" where
  "post_tx ok ctrl i bs d =
     do {
       f \<leftarrow> get_frame i (dev_tx d);
       c \<leftarrow> set_frame i (legacy_desc (length bs) TxCallback (if ctrl then PDF_SOF_CTRL else PDF_SOF_DATA)
              (if ctrl then PDF_EOF_CTRL else PDF_EOF_DATA) f) (dev_tx d);
       tb_ring_tx ok (LegacyTx i) bs (d\<lparr>dev_tx := c\<rparr>)
     }"

definition post_rx :: "bool \<Rightarrow> nat \<Rightarrow> byte list \<Rightarrow> odl_device \<Rightarrow> odl_device option" where
  "post_rx ok i bs d =
     do {
       f \<leftarrow> get_frame i (dev_rx d);
       c \<leftarrow> set_frame i (legacy_desc (length bs) RxCallback PDF_SOF_DATA PDF_EOF_DATA f) (dev_rx d);
       tb_ring_rx ok (LegacyRx i) (d\<lparr>dev_rx := c\<rparr>)
     }"

section \<open>The front buffer\<close>

text \<open>The loop over the frames, \<open>k\<close> of which are left; \<open>mem\<close> is the memory of the buffer.\<close>

fun legacy_frames ::
  "(nat \<Rightarrow> byte list \<Rightarrow> odl_device \<Rightarrow> odl_device option) \<Rightarrow> (nat \<Rightarrow> errno option) \<Rightarrow> byte list \<Rightarrow> nat \<Rightarrow>
    nat \<Rightarrow> nat \<Rightarrow> nat \<Rightarrow> odl_device \<Rightarrow> ((errno + unit) \<times> odl_device) option" where
  "legacy_frames post ret mem offset 0 i remaining d = Some (Inr (), d)"
| "legacy_frames post ret mem offset (Suc k) i remaining d =
     do {
       bs \<leftarrow> mem_read (size_t (offset + i * FRAME_SIZE)) (min FRAME_SIZE remaining) mem;
       d \<leftarrow> post i bs d;
       case ret i of
         Some e \<Rightarrow> Some (Inl e, d)
       | None \<Rightarrow> legacy_frames post ret mem offset k (Suc i) (remaining - min FRAME_SIZE remaining) d
     }"

definition submittable :: "bool \<Rightarrow> odl_device \<Rightarrow> bool" where
  "submittable started d \<longleftrightarrow> dev_state d = CONNECTED \<or> dev_state d = READY \<or> started"

text \<open>\<open>done\<close> are the completions that run while \<open>submit_tx\<close> waits for the previous transfer; if they are not enough, the wait ends by
  its timeout or a signal and the ring is restarted.\<close>

definition submit_tx_drain :: "(frame_ref \<times> bool) list \<Rightarrow> odl_device \<Rightarrow> odl_device option" where
  "submit_tx_drain completions d =
     (if rc_frames_posted (dev_tx d)
      then do {
        let sub = rc_submitted (dev_tx d);
        d \<leftarrow> tx_complete_all completions d;
        d \<leftarrow> (if sub \<le> rc_completed (dev_tx d) then Some d else tb_ring_stop_tx d);
        Some (upd_tx reset_counts d)
      }
      else Some d)"

definition submit_tx ::
  "(frame_ref \<times> bool) list \<Rightarrow> (nat \<Rightarrow> errno option) \<Rightarrow> nat \<Rightarrow> nat \<Rightarrow> bool \<Rightarrow> odl_device
    \<Rightarrow> ((errno + unit) \<times> odl_device) option" where
  "submit_tx completions ret offset len ctrl d =
     (if \<not> submittable (rc_started (dev_tx d)) d then Some (Inl ENOTCONN, d)
      else do {
        d \<leftarrow> submit_tx_drain completions d;
        buf \<leftarrow> (if rc_front (dev_tx d) < length (rc_bufs (dev_tx d)) then Some (rc_bufs (dev_tx d) ! rc_front (dev_tx d)) else None);
        if db_size buf < size_t (offset + len) then Some (Inl EINVAL, d)
        else do {
          mem \<leftarrow> db_virt buf;
          (r, d) \<leftarrow> legacy_frames (\<lambda>i. post_tx (ret i = None) ctrl i) ret mem offset (nat (nframes_of len)) 0 len d;
          case r of
            Inl e \<Rightarrow> Some (Inl e, d)
          | Inr _ \<Rightarrow> Some (Inr (), upd_tx (\<lambda>c. c\<lparr>rc_submitted := rc_submitted c + nframes_of len, rc_frames_posted := True\<rparr>) d)
        }
      })"

definition submit_rx ::
  "(nat \<Rightarrow> errno option) \<Rightarrow> nat \<Rightarrow> nat \<Rightarrow> odl_device \<Rightarrow> ((errno + unit) \<times> odl_device) option" where
  "submit_rx ret offset len d =
     (if \<not> submittable (rc_started (dev_rx d)) d then Some (Inl ENOTCONN, d)
      else if rc_frames_posted (dev_rx d) \<and> \<not> rc_swapped_since_post (dev_rx d) then Some (Inr (), d)
      else do {
        d \<leftarrow> (if rc_frames_posted (dev_rx d) then do { d \<leftarrow> tb_ring_stop_rx d; Some (upd_rx reset_counts d) } else Some d);
        buf \<leftarrow> (if rc_front (dev_rx d) < length (rc_bufs (dev_rx d)) then Some (rc_bufs (dev_rx d) ! rc_front (dev_rx d)) else None);
        if db_size buf < size_t (offset + len) then Some (Inl EINVAL, d)
        else do {
          mem \<leftarrow> db_virt buf;
          (r, d) \<leftarrow> legacy_frames (\<lambda>i. post_rx (ret i = None) i) ret mem offset (nat (nframes_of len)) 0 len d;
          case r of
            Inl e \<Rightarrow> Some (Inl e, d)
          | Inr _ \<Rightarrow> Some (Inr (), upd_rx (\<lambda>c. c\<lparr>rc_submitted := rc_submitted c + nframes_of len, rc_frames_posted := True,
              rc_posted_buf := rc_front c\<rparr>) d)
        }
      })"

section \<open>DMA-BUFs\<close>

text \<open>
  The references the call takes: on the DMA-BUF, its attachment and its mapping. The mapping is a list of segments, here
  with their contents.
\<close>

record dmabuf_res =
  dr_refs :: nat
  dr_attached :: nat
  dr_mapped :: nat

record dmabuf_env =
  de_get :: "errno + nat"
  de_attach :: "errno option"
  de_map :: "errno + byte list list"
  de_ret :: "nat \<Rightarrow> errno option"
  de_done :: "(frame_ref \<times> bool) list"
  de_signal :: bool

text \<open>The inner loop: one segment, in frames of at most 4096 bytes.\<close>

function dmabuf_seg ::
  "nat \<Rightarrow> (nat \<Rightarrow> byte list \<Rightarrow> odl_device \<Rightarrow> odl_device option) \<Rightarrow> (nat \<Rightarrow> errno option) \<Rightarrow> byte list \<Rightarrow> nat \<Rightarrow> nat \<Rightarrow>
    odl_device \<Rightarrow> ((errno + nat \<times> nat) \<times> odl_device) option" where
  "dmabuf_seg ring_size post ret seg total_remaining frame_idx d =
     (if seg = [] \<or> total_remaining = 0 then Some (Inr (total_remaining, frame_idx), d)
      else if ring_size \<le> frame_idx then Some (Inl ENOSPC, d)
      else do {
        let chunk = min FRAME_SIZE (min (length seg) total_remaining);
        d \<leftarrow> post frame_idx (take chunk seg) d;
        case ret frame_idx of
          Some e \<Rightarrow> Some (Inl e, d)
        | None \<Rightarrow> dmabuf_seg ring_size post ret (drop chunk seg) (total_remaining - chunk) (Suc frame_idx) d
      })"
  by pat_completeness auto
termination
  by (relation "measure (\<lambda>(ring_size, post, ret, seg, tot, idx, d). length seg)") (auto simp: FRAME_SIZE_def)

declare dmabuf_seg.simps [simp del]

text \<open>The outer loop over the segments, with the bytes still to skip.\<close>

fun dmabuf_segs ::
  "nat \<Rightarrow> (nat \<Rightarrow> byte list \<Rightarrow> odl_device \<Rightarrow> odl_device option) \<Rightarrow> (nat \<Rightarrow> errno option) \<Rightarrow> byte list list \<Rightarrow> nat \<Rightarrow> nat \<Rightarrow> nat \<Rightarrow>
    odl_device \<Rightarrow> ((errno + nat \<times> nat) \<times> odl_device) option" where
  "dmabuf_segs ring_size post ret [] skip total_remaining frame_idx d = Some (Inr (total_remaining, frame_idx), d)"
| "dmabuf_segs ring_size post ret (seg # segs) skip total_remaining frame_idx d =
     (if 0 < skip \<and> length seg \<le> skip
      then dmabuf_segs ring_size post ret segs (skip - length seg) total_remaining frame_idx d
      else do {
        (r, d) \<leftarrow> dmabuf_seg ring_size post ret (drop skip seg) total_remaining frame_idx d;
        case r of
          Inl e \<Rightarrow> Some (Inl e, d)
        | Inr (total_remaining, frame_idx) \<Rightarrow>
            if total_remaining = 0 then Some (Inr (total_remaining, frame_idx), d)
            else dmabuf_segs ring_size post ret segs 0 total_remaining frame_idx d
      })"

declare dmabuf_segs.simps(2) [simp del]

text \<open>The labels \<open>err_put\<close>, \<open>err_detach\<close> and \<open>err_unmap\<close>; dropping what is not held has the value \<open>None\<close>.\<close>

definition dmabuf_put :: "dmabuf_res \<Rightarrow> dmabuf_res option" where
  "dmabuf_put res = (case dr_refs res of 0 \<Rightarrow> None | Suc n \<Rightarrow> Some (res\<lparr>dr_refs := n\<rparr>))"

definition dmabuf_detach :: "dmabuf_res \<Rightarrow> dmabuf_res option" where
  "dmabuf_detach res = (case dr_attached res of 0 \<Rightarrow> None | Suc n \<Rightarrow> dmabuf_put (res\<lparr>dr_attached := n\<rparr>))"

definition dmabuf_unmap :: "dmabuf_res \<Rightarrow> dmabuf_res option" where
  "dmabuf_unmap res = (case dr_mapped res of 0 \<Rightarrow> None | Suc n \<Rightarrow> dmabuf_detach (res\<lparr>dr_mapped := n\<rparr>))"

text \<open>
  The body of both calls. \<open>count\<close> adds the frames to the ring's \<open>submitted\<close>, \<open>complete\<close> runs the completions that
  arrive during the wait and \<open>drained\<close> is the wait's condition; a signal ends the wait as well.
\<close>

definition submit_dmabuf ::
  "nat \<Rightarrow> (nat \<Rightarrow> byte list \<Rightarrow> odl_device \<Rightarrow> odl_device option) \<Rightarrow> (int \<Rightarrow> odl_device \<Rightarrow> odl_device) \<Rightarrow>
    (odl_device \<Rightarrow> odl_device option) \<Rightarrow> (odl_device \<Rightarrow> bool) \<Rightarrow> dmabuf_env \<Rightarrow> int \<Rightarrow> nat \<Rightarrow> dmabuf_res \<Rightarrow> odl_device
    \<Rightarrow> ((errno + unit) tx_result \<times> dmabuf_res \<times> odl_device) option" where
  "submit_dmabuf ring_size post count complete drained env offset len res d =
     (if dev_state d \<noteq> CONNECTED \<and> dev_state d \<noteq> READY then Some (TxReturned (Inl ENOTCONN), res, d)
      else case de_get env of
        Inl e \<Rightarrow> Some (TxReturned (Inl e), res, d)
      | Inr dsize \<Rightarrow>
          let res = res\<lparr>dr_refs := Suc (dr_refs res)\<rparr>
          in if offset < 0 \<or> len = 0 \<or> dsize < size_t (nat offset + len)
             then do { res \<leftarrow> dmabuf_put res; Some (TxReturned (Inl EINVAL), res, d) }
             else case de_attach env of
               Some e \<Rightarrow> do { res \<leftarrow> dmabuf_put res; Some (TxReturned (Inl e), res, d) }
             | None \<Rightarrow>
                 let res = res\<lparr>dr_attached := Suc (dr_attached res)\<rparr>
                 in case de_map env of
                      Inl e \<Rightarrow> do { res \<leftarrow> dmabuf_detach res; Some (TxReturned (Inl e), res, d) }
                    | Inr segs \<Rightarrow> do {
                        let res = res\<lparr>dr_mapped := Suc (dr_mapped res)\<rparr>;
                        (r, d) \<leftarrow> dmabuf_segs ring_size post (de_ret env) segs (nat offset) len 0 d;
                        case r of
                          Inl e \<Rightarrow> do { res \<leftarrow> dmabuf_unmap res; Some (TxReturned (Inl e), res, d) }
                        | Inr (total_remaining, frame_idx) \<Rightarrow> do {
                            d \<leftarrow> complete (count (int frame_idx) d);
                            if drained d \<or> de_signal env
                            then do { res \<leftarrow> dmabuf_unmap res; Some (TxReturned (Inr ()), res, d) }
                            else Some (TxWaiting, res, d)
                          }
                      })"

definition submit_tx_dmabuf ::
  "dmabuf_env \<Rightarrow> int \<Rightarrow> nat \<Rightarrow> dmabuf_res \<Rightarrow> odl_device \<Rightarrow> ((errno + unit) tx_result \<times> dmabuf_res \<times> odl_device) option" where
  "submit_tx_dmabuf env offset len res d =
     submit_dmabuf (rc_ring_size (dev_tx d)) (\<lambda>i. post_tx (de_ret env i = None) False i)
       (\<lambda>n. upd_tx (\<lambda>c. c\<lparr>rc_submitted := rc_submitted c + n\<rparr>)) (tx_complete_all (de_done env))
       (\<lambda>d. rc_submitted (dev_tx d) \<le> rc_completed (dev_tx d)) env offset len res d"

definition submit_rx_dmabuf ::
  "(nat \<Rightarrow> byte list option) \<Rightarrow> bool \<Rightarrow> (int \<Rightarrow> bool) \<Rightarrow> dmabuf_env \<Rightarrow> int \<Rightarrow> nat \<Rightarrow> dmabuf_res \<Rightarrow> odl_device
    \<Rightarrow> ((errno + unit) tx_result \<times> dmabuf_res \<times> odl_device) option" where
  "submit_rx_dmabuf kmalloc rxm_ok rx_ok env offset len res d =
     submit_dmabuf (rc_ring_size (dev_rx d)) (\<lambda>i. post_rx (de_ret env i = None) i)
       (\<lambda>n. upd_rx (\<lambda>c. c\<lparr>rc_submitted := rc_submitted c + n\<rparr>)) (rx_complete_all kmalloc rxm_ok rx_ok (de_done env))
       (\<lambda>d. rc_submitted (dev_rx d) \<le> rc_completed (dev_rx d)) env offset len res d"

section \<open>Posting frames, for any ring\<close>

text \<open>The frames of a region of a segment list: a frame never spans two segments.\<close>

fun seg_frames :: "byte list list \<Rightarrow> nat \<Rightarrow> nat \<Rightarrow> byte list list" where
  "seg_frames [] skip tot = []"
| "seg_frames (seg # segs) skip tot =
     (if 0 < skip \<and> length seg \<le> skip then seg_frames segs (skip - length seg) tot
      else chunks FRAME_SIZE (take tot (drop skip seg)) @ seg_frames segs 0 (tot - (length seg - skip)))"

lemma concat_seg_frames: "concat (seg_frames segs skip tot) = take tot (drop skip (concat segs))"
  by (induction segs skip tot rule: seg_frames.induct) (auto simp: min_def)

lemma seg_frames_bounded: "f \<in> set (seg_frames segs skip tot) \<Longrightarrow> f \<noteq> [] \<and> length f \<le> FRAME_SIZE"
  by (induction segs skip tot rule: seg_frames.induct) (auto simp: FRAME_SIZE_def dest: chunks_bounded split: if_splits)

lemma seg_frames_0 [simp]: "seg_frames segs skip 0 = []"
  using concat_seg_frames [of segs skip 0] seg_frames_bounded [of _ segs skip 0] by (cases "seg_frames segs skip 0") auto

text \<open>
  What the loops need of a ring: on a device that is \<open>good\<close>, a descriptor of the array can be posted, and an accepted one adds an
  entry to the ring's \<open>log\<close>.
\<close>

locale frame_post =
  fixes post :: "nat \<Rightarrow> byte list \<Rightarrow> odl_device \<Rightarrow> odl_device option"
    and ret :: "nat \<Rightarrow> errno option"
    and n :: nat
    and good :: "odl_device \<Rightarrow> bool"
    and log :: "odl_device \<Rightarrow> 'l list"
    and entry :: "nat \<times> byte list \<Rightarrow> 'l"
  assumes post_ok: "good d \<Longrightarrow> i < n \<Longrightarrow>
    \<exists>d'. post i bs d = Some d' \<and> good d' \<and> log d' = log d @ (if ret i = None then [entry (i, bs)] else [])"
begin

text \<open>What a loop has posted of the frames \<open>fs\<close>, from index \<open>i\<close> on: the first \<open>j\<close>.\<close>

definition posted :: "nat \<Rightarrow> byte list list \<Rightarrow> nat \<Rightarrow> odl_device \<Rightarrow> odl_device \<Rightarrow> bool" where
  "posted i fs j d d' \<longleftrightarrow> good d' \<and> log d' = log d @ map entry (enumerate i (take j fs))"

lemma posted_none [simp]: "posted i fs 0 d d \<longleftrightarrow> good d" "posted i [] j d d \<longleftrightarrow> good d"
  by (simp_all add: posted_def)

lemma posted_Cons: "posted (Suc i) fs j d1 d2 \<Longrightarrow> log d1 = log d @ [entry (i, f)] \<Longrightarrow> posted i (f # fs) (Suc j) d d2"
  by (simp add: posted_def)

lemma legacy_frames_ok:
  assumes "good d" "i + k \<le> n" "k = DIV_ROUND_UP remaining FRAME_SIZE" "remaining = 0 \<or> offset + i * FRAME_SIZE + remaining \<le> length mem"
    "length mem < 2 ^ 64"
  defines "fs \<equiv> chunks FRAME_SIZE (take remaining (drop (offset + i * FRAME_SIZE) mem))"
  shows "\<exists>r j d'. legacy_frames post ret mem offset k i remaining d = Some (r, d') \<and> posted i fs j d d' \<and>
    (case r of Inr _ \<Rightarrow> j = length fs | Inl e \<Rightarrow> j < length fs \<and> ret (i + j) = Some e)"
  using assms(1-5) unfolding fs_def
proof (induction k arbitrary: i remaining d)
  case 0
  then have "remaining = 0" using DIV_ROUND_UP_le_iff [of FRAME_SIZE remaining 0] by (simp add: FRAME_SIZE_def)
  with 0 show ?case by simp
next
  case (Suc k)
  let ?r = "min FRAME_SIZE remaining"
  let ?region = "\<lambda>i remaining. take remaining (drop (offset + i * FRAME_SIZE) mem)"
  have pos: "0 < remaining" "0 < FRAME_SIZE" using Suc.prems(3) by (auto simp: FRAME_SIZE_def DIV_ROUND_UP_def)
  then have mem: "offset + i * FRAME_SIZE + remaining \<le> length mem" using Suc.prems(4) by simp
  have k: "k = DIV_ROUND_UP (remaining - ?r) FRAME_SIZE"
    using pos Suc.prems(3) DIV_ROUND_UP_step [of remaining FRAME_SIZE] by (cases "remaining \<le> FRAME_SIZE") auto
  have read: "mem_read (size_t (offset + i * FRAME_SIZE)) ?r mem = Some (take ?r (drop (offset + i * FRAME_SIZE) mem))"
    using mem Suc.prems(5) by (simp add: mem_read_def size_t_def)
  have fs: "chunks FRAME_SIZE (?region i remaining)
      = take ?r (drop (offset + i * FRAME_SIZE) mem) # chunks FRAME_SIZE (?region (Suc i) (remaining - ?r))"
    using chunks_step [OF pos(2), of "?region i remaining"] pos(1) mem
    by (cases "remaining \<le> FRAME_SIZE") (auto simp: drop_take add.commute add.left_commute min_absorb1 min_absorb2)
  obtain d1 where d1: "post i (take ?r (drop (offset + i * FRAME_SIZE) mem)) d = Some d1" "good d1"
    "log d1 = log d @ (if ret i = None then [entry (i, take ?r (drop (offset + i * FRAME_SIZE) mem))] else [])"
    using post_ok [OF Suc.prems(1), of i] Suc.prems(2) by auto
  show ?case
  proof (cases "ret i")
    case None
    have room: "remaining - ?r = 0 \<or> offset + Suc i * FRAME_SIZE + (remaining - ?r) \<le> length mem"
      using mem by (auto simp: min_def)
    obtain r j d2 where IH: "legacy_frames post ret mem offset k (Suc i) (remaining - ?r) d1 = Some (r, d2)"
      "posted (Suc i) (chunks FRAME_SIZE (?region (Suc i) (remaining - ?r))) j d1 d2"
      "case r of Inr _ \<Rightarrow> j = length (chunks FRAME_SIZE (?region (Suc i) (remaining - ?r)))
       | Inl e \<Rightarrow> j < length (chunks FRAME_SIZE (?region (Suc i) (remaining - ?r))) \<and> ret (Suc i + j) = Some e"
      using Suc.IH [OF d1(2) _ k room Suc.prems(5)] Suc.prems(2) by auto
    have "posted i (chunks FRAME_SIZE (?region i remaining)) (Suc j) d d2"
      unfolding fs by (rule posted_Cons [OF IH(2)]) (use d1(3) None in simp)
    moreover have "legacy_frames post ret mem offset (Suc k) i remaining d = Some (r, d2)"
      using read d1(1) None IH(1) by simp
    ultimately show ?thesis using IH(3) unfolding fs
      by (intro exI [of _ r] exI [of _ "Suc j"] exI [of _ d2]) (cases r; simp)
  next
    case (Some e)
    with d1 read fs show ?thesis
      by (intro exI [of _ "Inl e"] exI [of _ 0] exI [of _ d1]) (simp add: posted_def)
  qed
qed

lemma dmabuf_seg_ok:
  assumes "good d"
  defines "fs \<equiv> \<lambda>seg tot. chunks FRAME_SIZE (take tot seg)"
  shows "\<exists>r j d'. dmabuf_seg n post ret seg tot idx d = Some (r, d') \<and> posted idx (fs seg tot) j d d' \<and>
    (case r of Inr (tot', idx') \<Rightarrow> j = length (fs seg tot) \<and> tot' = tot - length seg \<and> idx' = idx + j \<and> (0 < j \<longrightarrow> idx + j \<le> n)
     | Inl e \<Rightarrow> j < length (fs seg tot) \<and> (if idx + j < n then ret (idx + j) = Some e else e = ENOSPC \<and> j = n - idx))"
  using assms(1) unfolding fs_def
proof (induction "length seg" arbitrary: seg tot idx d rule: less_induct)
  case less
  let ?c = "min FRAME_SIZE (min (length seg) tot)"
  note step = dmabuf_seg.simps [of n post ret seg tot idx d]
  consider (stop) "seg = [] \<or> tot = 0" | (full) "\<not> (seg = [] \<or> tot = 0)" "n \<le> idx"
    | (frame) "\<not> (seg = [] \<or> tot = 0)" "\<not> n \<le> idx" by blast
  then show ?case
  proof cases
    case stop
    then show ?thesis using less.prems by (subst step) auto
  next
    case full
    then show ?thesis using less.prems
      by (subst step) (auto intro!: exI [of _ "Inl ENOSPC"] exI [of _ 0] exI [of _ d])
  next
    case frame
    have fs: "chunks FRAME_SIZE (take tot seg) = take ?c seg # chunks FRAME_SIZE (take (tot - ?c) (drop ?c seg))"
      using frame(1) chunks_step [of FRAME_SIZE "take tot seg"]
      by (cases "tot \<le> FRAME_SIZE"; cases "length seg \<le> FRAME_SIZE") (auto simp: FRAME_SIZE_def drop_take min_def)
    obtain d1 where d1: "post idx (take ?c seg) d = Some d1" "good d1"
      "log d1 = log d @ (if ret idx = None then [entry (idx, take ?c seg)] else [])"
      using post_ok [OF less.prems, of idx] frame(2) by auto
    show ?thesis
    proof (cases "ret idx")
      case (Some e)
      then show ?thesis using frame d1
        by (subst step) (auto simp: fs posted_def Let_def intro!: exI [of _ "Inl e"] exI [of _ 0])
    next
      case None
      have "length (drop ?c seg) < length seg" using frame(1) by (auto simp: FRAME_SIZE_def)
      from less.hyps [OF this d1(2), of "tot - ?c" "Suc idx"] obtain r j d2
        where IH: "dmabuf_seg n post ret (drop ?c seg) (tot - ?c) (Suc idx) d1 = Some (r, d2)"
          "posted (Suc idx) (chunks FRAME_SIZE (take (tot - ?c) (drop ?c seg))) j d1 d2"
          "case r of Inr (tot', idx') \<Rightarrow> j = length (chunks FRAME_SIZE (take (tot - ?c) (drop ?c seg))) \<and>
               tot' = (tot - ?c) - length (drop ?c seg) \<and> idx' = Suc idx + j \<and> (0 < j \<longrightarrow> Suc idx + j \<le> n)
           | Inl e \<Rightarrow> j < length (chunks FRAME_SIZE (take (tot - ?c) (drop ?c seg))) \<and>
               (if Suc idx + j < n then ret (Suc idx + j) = Some e else e = ENOSPC \<and> j = n - Suc idx)" by blast
      have "posted idx (chunks FRAME_SIZE (take tot seg)) (Suc j) d d2"
        unfolding fs by (rule posted_Cons [OF IH(2)]) (use d1(3) None in simp)
      moreover have "dmabuf_seg n post ret seg tot idx d = Some (r, d2)"
        by (subst step) (use frame d1(1) None IH(1) in \<open>simp add: Let_def\<close>)
      moreover have "tot - ?c - length (drop ?c seg) = tot - length seg" by (auto simp: min_def)
      ultimately show ?thesis using IH(3) frame(2) unfolding fs
        by (intro exI [of _ r] exI [of _ "Suc j"] exI [of _ d2]) (cases r; auto)
    qed
  qed
qed

lemma posted_append:
  "posted i fs (length fs) d d1 \<Longrightarrow> posted (i + length fs) gs j d1 d2 \<Longrightarrow> posted i (fs @ gs) (length fs + j) d d2"
  by (simp add: posted_def enumerate_append_eq)

lemma posted_prefix: "posted i fs j d d1 \<Longrightarrow> j \<le> length fs \<Longrightarrow> posted i (fs @ gs) j d d1"
  by (simp add: posted_def)

lemma dmabuf_segs_ok:
  assumes "good d"
  shows "\<exists>r j d'. dmabuf_segs n post ret segs skip tot idx d = Some (r, d') \<and> posted idx (seg_frames segs skip tot) j d d' \<and>
    (case r of Inr (tot', idx') \<Rightarrow> j = length (seg_frames segs skip tot) \<and> idx' = idx + j \<and> (0 < j \<longrightarrow> idx + j \<le> n)
     | Inl e \<Rightarrow> j < length (seg_frames segs skip tot) \<and>
         (if idx + j < n then ret (idx + j) = Some e else e = ENOSPC \<and> j = n - idx))"
  using assms
proof (induction segs arbitrary: skip tot idx d)
  case Nil
  then show ?case by (auto intro!: exI [of _ "Inr (tot, idx)"] exI [of _ 0])
next
  case (Cons seg segs)
  note step = dmabuf_segs.simps(2) [of n post ret seg segs skip tot idx d]
  show ?case
  proof (cases "0 < skip \<and> length seg \<le> skip")
    case True
    have "seg_frames (seg # segs) skip tot = seg_frames segs (skip - length seg) tot" using True by simp
    then show ?thesis unfolding step if_P [OF True] using Cons.IH [OF Cons.prems, of "skip - length seg" tot idx] by (simp only:)
  next
    case False
    let ?fs = "chunks FRAME_SIZE (take tot (drop skip seg))" and ?tot = "tot - (length seg - skip)"
    have fs: "seg_frames (seg # segs) skip tot = ?fs @ seg_frames segs 0 ?tot"
      using False by (subst seg_frames.simps(2)) (simp only: if_False)
    obtain r j d1 where S: "dmabuf_seg n post ret (drop skip seg) tot idx d = Some (r, d1)" "posted idx ?fs j d d1"
      "case r of Inr (tot', idx') \<Rightarrow> j = length ?fs \<and> tot' = ?tot \<and> idx' = idx + j \<and> (0 < j \<longrightarrow> idx + j \<le> n)
       | Inl e \<Rightarrow> j < length ?fs \<and> (if idx + j < n then ret (idx + j) = Some e else e = ENOSPC \<and> j = n - idx)"
      using dmabuf_seg_ok [OF Cons.prems, of "drop skip seg" tot idx] unfolding length_drop by blast
    show ?thesis
    proof (cases r)
      case (Inl e)
      then have "dmabuf_segs n post ret (seg # segs) skip tot idx d = Some (Inl e, d1)"
        using S(1) False unfolding step if_not_P [OF False] by simp
      moreover have "posted idx (?fs @ seg_frames segs 0 ?tot) j d d1"
        using S(2,3) Inl by (intro posted_prefix) auto
      ultimately show ?thesis using S(3) Inl unfolding fs
        by (intro exI [of _ "Inl e"] exI [of _ j] exI [of _ d1]) auto
    next
      case (Inr x)
      with S(3) have x: "x = (?tot, idx + length ?fs)" "j = length ?fs" "0 < length ?fs \<longrightarrow> idx + length ?fs \<le> n" by (auto split: prod.splits)
      have "good d1" using S(2) by (simp add: posted_def)
      show ?thesis
      proof (cases "?tot = 0")
        case True
        then have "dmabuf_segs n post ret (seg # segs) skip tot idx d = Some (Inr (0, idx + length ?fs), d1)"
          unfolding step if_not_P [OF False] S(1) using Inr x(1) by simp
        with S(2) x(2,3) True show ?thesis unfolding fs by simp
      next
        case False': False
        obtain r' j' d2 where IH: "dmabuf_segs n post ret segs 0 ?tot (idx + length ?fs) d1 = Some (r', d2)"
          "posted (idx + length ?fs) (seg_frames segs 0 ?tot) j' d1 d2"
          "case r' of Inr (tot', idx') \<Rightarrow> j' = length (seg_frames segs 0 ?tot) \<and> idx' = idx + length ?fs + j' \<and> (0 < j' \<longrightarrow> idx + length ?fs + j' \<le> n)
           | Inl e \<Rightarrow> j' < length (seg_frames segs 0 ?tot) \<and>
              (if idx + length ?fs + j' < n then ret (idx + length ?fs + j') = Some e else e = ENOSPC \<and> j' = n - (idx + length ?fs))"
          using Cons.IH [OF \<open>good d1\<close>, of 0 ?tot "idx + length ?fs"] by blast
        have "dmabuf_segs n post ret (seg # segs) skip tot idx d = Some (r', d2)"
          unfolding step if_not_P [OF False] S(1) using Inr x(1) False' IH(1) by simp
        moreover have "posted idx (?fs @ seg_frames segs 0 ?tot) (length ?fs + j') d d2"
          using S(2) IH(2) x(2) by (intro posted_append) simp_all
        ultimately show ?thesis using IH(3) x(3) unfolding fs
          by (intro exI [of _ r'] exI [of _ "length ?fs + j'"] exI [of _ d2]) (cases r'; cases "length ?fs = 0"; auto simp: add.assoc)
      qed
    qed
  qed
qed

text \<open>Both DMA-BUF calls, on every path: what was taken is given back when the call returns, and a call that gets through has posted
  the frames of the region.\<close>

lemma submit_dmabuf_ok:
  assumes "good d" "\<And>d k. good d \<Longrightarrow> good (count k d) \<and> log (count k d) = log d"
    "\<And>d. good d \<Longrightarrow> \<exists>d'. complete d = Some d' \<and> log d' = log d" "de_ret env = ret"
  shows "\<exists>r res' d'. submit_dmabuf n post count complete drained env offset len res d = Some (r, res', d') \<and>
    (case r of TxReturned _ \<Rightarrow> res' = res | TxWaiting \<Rightarrow> True) \<and>
    (case r of TxReturned (Inl _) \<Rightarrow> True
     | _ \<Rightarrow> 0 \<le> offset \<and> 0 < len \<and> (\<exists>dsize segs. de_get env = Inr dsize \<and> size_t (nat offset + len) \<le> dsize \<and> de_map env = Inr segs \<and>
         log d' = log d @ map entry (enumerate 0 (seg_frames segs (nat offset) len))))"
proof -
  have held: "dmabuf_put (res\<lparr>dr_refs := Suc (dr_refs res)\<rparr>) = Some res"
    "dmabuf_detach (res\<lparr>dr_refs := Suc (dr_refs res), dr_attached := Suc (dr_attached res)\<rparr>) = Some res"
    "dmabuf_unmap (res\<lparr>dr_refs := Suc (dr_refs res), dr_attached := Suc (dr_attached res), dr_mapped := Suc (dr_mapped res)\<rparr>) = Some res"
    by (simp_all add: dmabuf_put_def dmabuf_detach_def dmabuf_unmap_def)
  note defs = submit_dmabuf_def Let_def held
  show ?thesis
  proof (cases "(dev_state d = CONNECTED \<or> dev_state d = READY) \<and> (\<exists>dsize segs. de_get env = Inr dsize \<and> 0 \<le> offset \<and> 0 < len \<and>
      size_t (nat offset + len) \<le> dsize \<and> de_attach env = None \<and> de_map env = Inr segs)")
    case False
    then show ?thesis
      by (cases "de_get env"; cases "de_attach env"; cases "de_map env") (auto simp: defs)
  next
    case True
    then obtain dsize segs where T: "dev_state d = CONNECTED \<or> dev_state d = READY" "de_get env = Inr dsize" "0 \<le> offset" "0 < len"
      "size_t (nat offset + len) \<le> dsize" "de_attach env = None" "de_map env = Inr segs" by blast
    let ?fs = "seg_frames segs (nat offset) len"
    obtain r j d1 where S: "dmabuf_segs n post ret segs (nat offset) len 0 d = Some (r, d1)" "posted 0 ?fs j d d1"
      "case r of Inr (tot', idx') \<Rightarrow> j = length ?fs | Inl e \<Rightarrow> True"
      using dmabuf_segs_ok [OF assms(1), of segs "nat offset" len 0] by (fastforce split: sum.splits)
    show ?thesis
    proof (cases r)
      case (Inl e)
      then show ?thesis using T S(1) by (auto simp: defs assms(4))
    next
      case (Inr x)
      obtain k l where x: "x = (k, l)" by (cases x)
      have log1: "good d1" "log d1 = log d @ map entry (enumerate 0 ?fs)" using S(2,3) Inr x by (simp_all add: posted_def)
      then obtain d2 where d2: "complete (count (int l) d1) = Some d2" "log d2 = log d @ map entry (enumerate 0 ?fs)"
        using assms(2,3) by metis
      show ?thesis using T S(1) Inr x d2 by (cases "drained d2 \<or> de_signal env") (auto simp: defs assms(4))
    qed
  qed
qed

end

section \<open>The two rings\<close>

definition tx_array :: "nat \<Rightarrow> odl_device \<Rightarrow> bool" where
  "tx_array n d \<longleftrightarrow> rc_ring (dev_tx d) \<noteq> None \<and> map_option length (rc_frames (dev_tx d)) = Some n"

definition rx_array :: "nat \<Rightarrow> odl_device \<Rightarrow> bool" where
  "rx_array n d \<longleftrightarrow> rc_ring (dev_rx d) \<noteq> None \<and> map_option length (rc_frames (dev_rx d)) = Some n"

lemma equipped_arrays: "equipped n d \<Longrightarrow> tx_array n d" "equipped n d \<Longrightarrow> rx_array n d"
  by (simp_all add: equipped_def tx_array_def rx_array_def)

interpretation tx_wire: frame_post "\<lambda>i. post_tx (ret i = None) ctrl i" ret n "tx_array n" dev_wire snd
  for ret ctrl n
  by unfold_locales (auto simp: tx_array_def post_tx_def get_frame_def set_frame_def tb_ring_tx_def)

interpretation tx_ring: frame_post "\<lambda>i. post_tx (ret i = None) ctrl i" ret n "tx_array n" dev_tx_pending "\<lambda>(i, bs). LegacyTx i"
  for ret ctrl n
  by unfold_locales (auto simp: tx_array_def post_tx_def get_frame_def set_frame_def tb_ring_tx_def)

interpretation rx_ring: frame_post "\<lambda>i. post_rx (ret i = None) i" ret n "rx_array n" dev_rx_pending "\<lambda>(i, bs). LegacyRx i"
  for ret n
  by unfold_locales (auto simp: rx_array_def post_rx_def get_frame_def set_frame_def tb_ring_rx_def)

text \<open>The frames a device sends for a region of memory.\<close>

definition region_frames :: "nat \<Rightarrow> nat \<Rightarrow> byte list \<Rightarrow> byte list list" where
  "region_frames offset len mem = chunks FRAME_SIZE (take len (drop offset mem))"

lemma nframes_of_small:
  assumes "len \<le> FRAME_SIZE * RING_SIZE_MAX"
  shows "nframes_of len = int (DIV_ROUND_UP len FRAME_SIZE)"
proof -
  have "DIV_ROUND_UP len FRAME_SIZE \<le> RING_SIZE_MAX"
    using assms DIV_ROUND_UP_le_iff [of FRAME_SIZE len RING_SIZE_MAX] by (simp add: FRAME_SIZE_def mult.commute)
  then have n: "DIV_ROUND_UP len FRAME_SIZE \<le> 16384" by (simp add: RING_SIZE_MAX_def)
  have "size_t (len + (FRAME_SIZE - 1)) div FRAME_SIZE = DIV_ROUND_UP len FRAME_SIZE"
    using assms by (simp add: size_t_def DIV_ROUND_UP_def driver_consts)
  moreover have "sint (word_of_nat k :: 32 word) = int k" if "k \<le> 16384" for k
    using that by (simp add: signed_of_nat signed_take_bit_int_eq_self)
  ultimately show ?thesis using n by (simp add: nframes_of_def)
qed

lemma tx_complete_all_wire:
  "tx_wf refs senders mc bc d \<Longrightarrow> tx_complete_all rcs d = Some d' \<Longrightarrow> tx_wf refs senders mc bc d' \<and> dev_wire d' = dev_wire d"
  using tx_complete_all_wf [of refs senders mc bc d rcs] by (auto simp: undisturbed_def)

text \<open>Waiting for the previous transfer, or restarting the ring, keeps the wire, the arrays and the buffers.\<close>

lemma submit_tx_drain_ok:
  assumes "tx_wf refs senders mc bc d"
  shows "\<exists>d1. submit_tx_drain completions d = Some d1 \<and> dev_wire d1 = dev_wire d \<and> rc_ring (dev_tx d1) = rc_ring (dev_tx d) \<and>
    rc_frames (dev_tx d1) = rc_frames (dev_tx d) \<and> rc_bufs (dev_tx d1) = rc_bufs (dev_tx d) \<and>
    rc_front (dev_tx d1) = rc_front (dev_tx d)"
proof (cases "rc_frames_posted (dev_tx d)")
  case False
  then show ?thesis by (simp add: submit_tx_drain_def)
next
  case True
  obtain d1 where d1: "tx_complete_all completions d = Some d1" using tx_complete_all_wf [OF assms] by blast
  note w1 = tx_complete_all_wire [OF assms d1] and c1 = tx_complete_all_ctx [OF d1]
  obtain r where "rc_ring (dev_tx d1) = Some r" using tx_baseD(3) [OF tx_wfD(1)] w1 by blast
  then have stop: "tb_ring_stop_tx d1 = tx_complete_all (map (\<lambda>r. (r, True)) (dev_tx_pending d1)) d1"
    by (simp add: tb_ring_stop_tx_def)
  obtain d2 where d2: "tx_complete_all (map (\<lambda>r. (r, True)) (dev_tx_pending d1)) d1 = Some d2"
    using tx_complete_all_wf w1 by blast
  have w2: "dev_wire d2 = dev_wire d1" and c2: "same_ctx (dev_tx d1) (dev_tx d2)"
    using tx_complete_all_wire [OF _ d2] w1 tx_complete_all_ctx [OF d2] by blast+
  show ?thesis
    using True d1 d2 w1 w2 same_ctxD [OF c1] same_ctxD [OF c2]
    by (simp add: submit_tx_drain_def Let_def stop upd_tx_def reset_counts_def)
qed

text \<open>C16: \<open>odl_tb5_submit_tx\<close> sends exactly the region it is asked to send. On allocated rings and buffers, whatever completes while it
  waits for the previous transfer, and as long as \<open>offset + len\<close> does not exceed 64 bits: without a connection it fails with ENOTCONN
  and sends nothing; a region that leaves the front buffer fails with EINVAL and sends nothing; otherwise the frames on the wire are the
  4096-byte pieces of \<open>[offset, offset + len)\<close> in order, all of them exactly when the call succeeds, and a prefix when the ring refuses
  a descriptor. No descriptor beyond the array and no byte outside the buffer is touched.\<close>

theorem submit_tx_exact:
  assumes "tx_wf refs senders mc bc d" "provisioned n d" "n \<le> RING_SIZE_MAX"
    "rc_front (dev_tx d) < length (rc_bufs (dev_tx d))" "offset + len < 2 ^ 64"
  defines "fs \<equiv> region_frames offset len (the (db_virt (rc_bufs (dev_tx d) ! rc_front (dev_tx d))))"
  shows "\<exists>r j d'. submit_tx completions ret offset len ctrl d = Some (r, d') \<and> dev_wire d' = dev_wire d @ take j fs \<and>
    (if \<not> submittable (rc_started (dev_tx d)) d then r = Inl ENOTCONN \<and> j = 0
     else if FRAME_SIZE * n < offset + len then r = Inl EINVAL \<and> j = 0
     else (r = Inr () \<longleftrightarrow> length fs \<le> j))"
proof (cases "submittable (rc_started (dev_tx d)) d")
  case False
  then show ?thesis by (auto simp: submit_tx_def intro!: exI [of _ 0])
next
  case True
  let ?buf = "rc_bufs (dev_tx d) ! rc_front (dev_tx d)"
  obtain mem where mem: "db_virt ?buf = Some mem" "length mem = FRAME_SIZE * n" "db_size ?buf = FRAME_SIZE * n"
    using assms(2) nth_mem [OF assms(4)] unfolding provisioned_def buffered_def by (meson UnI1 map_option_eq_Some)
  obtain d1 where d1: "submit_tx_drain completions d = Some d1" "dev_wire d1 = dev_wire d" "rc_ring (dev_tx d1) = rc_ring (dev_tx d)"
    "rc_frames (dev_tx d1) = rc_frames (dev_tx d)" "rc_bufs (dev_tx d1) = rc_bufs (dev_tx d)" "rc_front (dev_tx d1) = rc_front (dev_tx d)"
    using submit_tx_drain_ok [OF assms(1)] by blast
  have size: "size_t (offset + len) = offset + len" using assms(5) by (simp add: size_t_def)
  show ?thesis
  proof (cases "FRAME_SIZE * n < offset + len")
    case small: True
    then show ?thesis using True d1 assms(4) mem size by (auto simp: submit_tx_def intro!: exI [of _ 0])
  next
    case False
    have "len \<le> FRAME_SIZE * RING_SIZE_MAX" using False assms(3) by (auto simp: FRAME_SIZE_def)
    note nf = nframes_of_small [OF this]
    have "tx_array n d1" using assms(2) d1(3,4) by (simp add: provisioned_def equipped_def tx_array_def)
    moreover have "DIV_ROUND_UP len FRAME_SIZE \<le> n"
      using False DIV_ROUND_UP_le_iff [of FRAME_SIZE len n] by (simp add: FRAME_SIZE_def)
    moreover have "length mem < 2 ^ 64" using mem(2) assms(3) by (simp add: driver_consts)
    ultimately obtain r j d2 where F: "legacy_frames (\<lambda>i. post_tx (ret i = None) ctrl i) ret mem offset
        (DIV_ROUND_UP len FRAME_SIZE) 0 len d1 = Some (r, d2)"
      "dev_wire d2 = dev_wire d1 @ take j fs" "case r of Inr _ \<Rightarrow> j = length fs | Inl e \<Rightarrow> j < length fs"
      using tx_wire.legacy_frames_ok [of n d1 0 "DIV_ROUND_UP len FRAME_SIZE" len offset mem ret ctrl] False mem(1,2)
      by (fastforce simp: tx_wire.posted_def fs_def region_frames_def split: sum.splits)
    then show ?thesis using True False d1 assms(4) mem(1,3) size nf
      by (cases r) (auto simp: submit_tx_def upd_tx_def intro!: exI [of _ j])
  qed
qed

definition full_sender :: "nat \<Rightarrow> odl_device" where
  "full_sender n = sample_sender\<lparr>dev_tx := full_ring 1 n, dev_rx := full_ring 2 n\<rparr>"

lemma full_sender_ok: "tx_wf (\<lambda>_. 0) {} (\<lambda>_. 0) (\<lambda>_. 0) (full_sender n)" "provisioned n (full_sender n)"
  "rc_front (dev_tx (full_sender n)) < length (rc_bufs (dev_tx (full_sender n)))" "dev_state (full_sender n) = READY"
  "dev_wire (full_sender n) = []"
proof -
  have "streams_wf (\<lambda>_. 0) sample_sender" using sample_sender_idle by (simp add: tx_idle_def)
  moreover have "stream_num (full_sender n) = stream_num sample_sender" by (simp add: stream_num_def [abs_def] full_sender_def)
  ultimately have "streams_wf (\<lambda>_. 0) (full_sender n)"
    by (auto simp: full_sender_def full_ring_def streams_wf_def rx_base_ok_def)
  then have "tx_idle (\<lambda>_. 0) (full_sender n)"
    using sample_sender_idle by (simp add: tx_idle_def full_sender_def full_ring_def)
  then show "tx_wf (\<lambda>_. 0) {} (\<lambda>_. 0) (\<lambda>_. 0) (full_sender n)" by (rule tx_idle_wf)
  have "dev_hs (full_sender n) = sample_hs"
    by (simp add: full_sender_def sample_sender_def with_stream_def add_owned_def sample_device_def)
  then show "provisioned n (full_sender n)"
    by (auto simp: full_sender_def full_ring_def provisioned_def equipped_def buffered_def sample_hs_def NUM_BUFFERS_def)
  show "rc_front (dev_tx (full_sender n)) < length (rc_bufs (dev_tx (full_sender n)))"
    by (simp add: full_sender_def full_ring_def bare_ring_def sample_ring_def NUM_BUFFERS_def)
  show "dev_state (full_sender n) = READY" "dev_wire (full_sender n) = []"
    using sample_sender_heap(3,6) by (simp_all add: full_sender_def)
qed

theorem submit_tx_exact_witness:
  "\<exists>r j d'. submit_tx [] (\<lambda>_. None) 4096 10 False (full_sender 64) = Some (r, d') \<and>
     dev_wire d' = take j [replicate 10 0] \<and> (r = Inr () \<longleftrightarrow> 1 \<le> j)"
proof -
  let ?d = "full_sender 64"
  have sub: "submittable (rc_started (dev_tx ?d)) ?d" using full_sender_ok(4) by (simp add: submittable_def)
  have small: "\<not> FRAME_SIZE * 64 < 4096 + 10" "(4096::nat) + 10 < 2 ^ 64" "64 \<le> RING_SIZE_MAX" by (simp_all add: driver_consts)
  have buf: "db_virt (rc_bufs (dev_tx ?d) ! rc_front (dev_tx ?d)) = Some (replicate (FRAME_SIZE * 64) 0)"
    by (simp add: full_sender_def full_ring_def bare_ring_def sample_ring_def NUM_BUFFERS_def numeral_2_eq_2)
  have fs: "region_frames 4096 10 (replicate (FRAME_SIZE * 64) 0) = [replicate 10 0]"
    by (simp add: region_frames_def FRAME_SIZE_def chunks_step)
  show ?thesis
    using submit_tx_exact [OF full_sender_ok(1,2) small(3) full_sender_ok(3) small(2), of "[]" "\<lambda>_. None" False]
      sub small(1) buf fs full_sender_ok(5) by auto
qed

text \<open>C18: The range check of \<open>odl_tb5_submit_tx\<close> is taken modulo \<open>2 ^ 64\<close>. When \<open>offset + len\<close> wraps around to a value within the
  buffer's size and at least one frame is due, the first descriptor names memory outside the buffer: the NHI would send foreign memory.\<close>

theorem submit_tx_offset_wraps:
  assumes "submittable (rc_started (dev_tx d)) d" "\<not> rc_frames_posted (dev_tx d)" "provisioned n d" "n \<le> RING_SIZE_MAX"
    "rc_front (dev_tx d) < length (rc_bufs (dev_tx d))" "offset < 2 ^ 64" "len < 2 ^ 64" "2 ^ 64 \<le> offset + len"
    "offset + len - 2 ^ 64 \<le> FRAME_SIZE * n" "FRAME_SIZE * n \<le> offset" "0 < nframes_of len"
  shows "submit_tx completions ret offset len ctrl d = None"
proof -
  let ?buf = "rc_bufs (dev_tx d) ! rc_front (dev_tx d)"
  obtain mem where mem: "db_virt ?buf = Some mem" "length mem = FRAME_SIZE * n" "db_size ?buf = FRAME_SIZE * n"
    using assms(3) nth_mem [OF assms(5)] unfolding provisioned_def buffered_def by (meson UnI1 map_option_eq_Some)
  have size: "size_t (offset + len) = offset + len - 2 ^ 64" "size_t offset = offset"
    using assms(6-8) by (simp_all add: size_t_def mod_if)
  have "0 < len" using assms(6,8) by simp
  then have "\<not> offset + min FRAME_SIZE len \<le> length mem" using mem(2) assms(10) by (simp add: FRAME_SIZE_def)
  moreover obtain k where "nat (nframes_of len) = Suc k" using assms(11) by (cases "nat (nframes_of len)") auto
  ultimately show ?thesis
    using assms(1,2,5,9) mem size by (simp add: submit_tx_def submit_tx_drain_def mem_read_def)
qed

theorem submit_tx_offset_wraps_witness:
  "submit_tx [] (\<lambda>_. None) (2 ^ 64 - 4096) 8192 False (full_sender 64) = None"
proof (rule submit_tx_offset_wraps [OF _ _ full_sender_ok(2) _ full_sender_ok(3)])
  show "submittable (rc_started (dev_tx (full_sender 64))) (full_sender 64)" using full_sender_ok(4) by (simp add: submittable_def)
  show "\<not> rc_frames_posted (dev_tx (full_sender 64))"
    by (simp add: full_sender_def full_ring_def bare_ring_def sample_ring_def)
  show "0 < nframes_of 8192" by (simp add: nframes_of_small driver_consts DIV_ROUND_UP_def)
qed (simp_all add: driver_consts)

section \<open>Transfers of DMA-BUFs\<close>

lemma legacy_completions:
  "\<forall>(r, c) \<in> set rcs. \<exists>i. r = LegacyTx i \<Longrightarrow> \<exists>d'. tx_complete_all rcs d = Some d' \<and> dev_wire d' = dev_wire d"
proof (induction rcs arbitrary: d)
  case (Cons rc rcs)
  then obtain i c where rc: "rc = (LegacyTx i, c)" by (cases rc) auto
  have "\<exists>d1. tx_complete rc d = Some d1 \<and> dev_wire d1 = dev_wire d"
    by (simp add: rc tx_complete_def tx_callback_def Let_def)
  then obtain d1 where d1: "tx_complete rc d = Some d1" "dev_wire d1 = dev_wire d" by blast
  from Cons have "\<forall>(r, c) \<in> set rcs. \<exists>i. r = LegacyTx i" by simp
  from Cons.IH [OF this, of d1] d1 show ?case by simp
qed simp


lemma map_index_enumerate: "map (\<lambda>(i, x). f i) (enumerate k xs) = map f [k..<k + length xs]"
  by (induction xs arbitrary: k) (simp_all add: upt_rec)

definition sample_dmabuf :: "byte list list \<Rightarrow> dmabuf_env" where
  "sample_dmabuf segs = \<lparr>de_get = Inr (length (concat segs)), de_attach = None, de_map = Inr segs, de_ret = (\<lambda>_. None),
     de_done = [(LegacyTx 0, False), (LegacyTx 1, False)], de_signal = False\<rparr>"

lemma full_sender_array: "tx_array (rc_ring_size (dev_tx (full_sender n))) (full_sender n)"
  by (simp add: full_sender_def full_ring_def tx_array_def)


text \<open>C19: A DMA-BUF region longer than the ring is refused in the middle: \<open>odl_tb5_submit_tx_dmabuf\<close> fails with ENOSPC after it has
  handed every descriptor of the array to the NHI, and it unmaps the DMA-BUF and drops its references while all of these descriptors
  are still on the ring.\<close>

theorem submit_tx_dmabuf_overlong:
  assumes "dev_state d = READY" "tx_array (rc_ring_size (dev_tx d)) d" "de_get env = Inr (length (concat segs))" "de_attach env = None"
    "de_map env = Inr segs" "\<And>i. de_ret env i = None" "0 \<le> offset" "nat offset + len \<le> length (concat segs)"
    "length (concat segs) < 2 ^ 64" "FRAME_SIZE * rc_ring_size (dev_tx d) < len"
  shows "\<exists>d'. submit_tx_dmabuf env offset len res d = Some (TxReturned (Inl ENOSPC), res, d') \<and>
    dev_tx_pending d' = dev_tx_pending d @ map LegacyTx [0..<rc_ring_size (dev_tx d)]"
proof -
  let ?n = "rc_ring_size (dev_tx d)" and ?fs = "seg_frames segs (nat offset) len"
  have "len \<le> FRAME_SIZE * length ?fs"
  proof -
    have "len = length (concat ?fs)" using assms(8) by (simp add: concat_seg_frames)
    also have "\<dots> \<le> sum_list (map (\<lambda>_. FRAME_SIZE) ?fs)"
      unfolding length_concat by (rule sum_list_mono) (use seg_frames_bounded in blast)
    finally show ?thesis by (simp add: sum_list_triv mult.commute)
  qed
  then have long: "?n < length ?fs" using assms(10) by (simp add: FRAME_SIZE_def)
  obtain r j d' where S: "dmabuf_segs ?n (\<lambda>i. post_tx (de_ret env i = None) False i) (de_ret env) segs (nat offset) len 0 d = Some (r, d')"
    "tx_ring.posted ?n 0 ?fs j d d'"
    "case r of Inr (tot', idx') \<Rightarrow> j = length ?fs \<and> idx' = 0 + j \<and> (0 < j \<longrightarrow> 0 + j \<le> ?n)
     | Inl e \<Rightarrow> j < length ?fs \<and> (if 0 + j < ?n then de_ret env (0 + j) = Some e else e = ENOSPC \<and> j = ?n - 0)"
    using tx_ring.dmabuf_segs_ok [OF assms(2), of "de_ret env" False segs "nat offset" len 0] by blast
  have r: "r = Inl ENOSPC" "j = ?n" using S(3) assms(6) long by (cases r; auto split: if_splits)+
  have "map (\<lambda>(i, bs). LegacyTx i) (enumerate 0 (take ?n ?fs)) = map LegacyTx [0..<?n]"
    using long by (simp add: map_index_enumerate)
  then have "dev_tx_pending d' = dev_tx_pending d @ map LegacyTx [0..<?n]"
    using S(2) r(2) by (simp add: tx_ring.posted_def)
  moreover have "submit_tx_dmabuf env offset len res d = Some (TxReturned (Inl ENOSPC), res, d')"
    using S(1) r(1) assms
    by (simp add: submit_tx_dmabuf_def submit_dmabuf_def size_t_def Let_def dmabuf_unmap_def dmabuf_detach_def dmabuf_put_def)
  ultimately show ?thesis by blast
qed

theorem submit_tx_dmabuf_overlong_witness:
  "\<exists>d'. submit_tx_dmabuf (sample_dmabuf [replicate 300000 0]) 0 300000 \<lparr>dr_refs = 0, dr_attached = 0, dr_mapped = 0\<rparr> (full_sender 64)
     = Some (TxReturned (Inl ENOSPC), \<lparr>dr_refs = 0, dr_attached = 0, dr_mapped = 0\<rparr>, d') \<and> LegacyTx 63 \<in> set (dev_tx_pending d')"
proof -
  have n: "rc_ring_size (dev_tx (full_sender 64)) = 64" by (simp add: full_sender_def full_ring_def)
  have "\<exists>d'. submit_tx_dmabuf (sample_dmabuf [replicate 300000 0]) 0 300000 \<lparr>dr_refs = 0, dr_attached = 0, dr_mapped = 0\<rparr> (full_sender 64)
     = Some (TxReturned (Inl ENOSPC), \<lparr>dr_refs = 0, dr_attached = 0, dr_mapped = 0\<rparr>, d') \<and>
    dev_tx_pending d' = dev_tx_pending (full_sender 64) @ map LegacyTx [0..<rc_ring_size (dev_tx (full_sender 64))]"
    by (rule submit_tx_dmabuf_overlong [OF full_sender_ok(4) full_sender_array, where segs = "[replicate 300000 0]"])
      (simp_all add: sample_dmabuf_def n FRAME_SIZE_def)
  then show ?thesis unfolding n by fastforce
qed

end
