(* ===== verification/Login_Wire.thy ===== *)
theory Login_Wire
  imports Odl_Prelude
begin

text \<open>
  The messages of the XDomain login protocol, \<^verbatim>\<open>driver/odl_tb5_proto.c\<close> lines 27 to 93: the structures, their byte
  layout on a little-endian machine and the fields that the packet handler takes from a buffer of any size.
\<close>

section \<open>Constants and structures\<close>

definition MSG_LOGIN :: u32 where [driver_consts]: "MSG_LOGIN = 1"
definition MSG_LOGIN_RSP :: u32 where [driver_consts]: "MSG_LOGIN_RSP = 2"
definition MSG_LOGOUT :: u32 where [driver_consts]: "MSG_LOGOUT = 3"

definition LOGIN_TIMEOUT :: nat where [driver_consts]: "LOGIN_TIMEOUT = 500"
definition ENABLE_RETRIES :: nat where [driver_consts]: "ENABLE_RETRIES = 5"

definition PROTOCOL_VER :: u32 where [driver_consts]: "PROTOCOL_VER = 3"
definition LOGIN_STATUS_OK :: u32 where [driver_consts]: "LOGIN_STATUS_OK = 0"
definition LOGIN_STATUS_PROTO_MISMATCH :: u32 where [driver_consts]: "LOGIN_STATUS_PROTO_MISMATCH = 1"
definition LOGIN_STATUS_BAD_RING :: u32 where [driver_consts]: "LOGIN_STATUS_BAD_RING = 2"
definition LOGIN_STATUS_RING_UNAVAILABLE :: u32 where [driver_consts]: "LOGIN_STATUS_RING_UNAVAILABLE = 3"

definition XD_HDR_SIZE_DW :: u32 where [driver_consts]: "XD_HDR_SIZE_DW = 3"
definition XD_SN_MASK :: u32 where [driver_consts]: "XD_SN_MASK = 0x18000000"

text \<open>\<open>odl_tb5_proto_uuid\<close>, a big-endian UUID: the letters \<open>ODLNKTB5ODINLINK\<close>.\<close>

definition proto_uuid :: "byte list" where
  "proto_uuid = [0x4f, 0x44, 0x4c, 0x4e, 0x4b, 0x54, 0x42, 0x35, 0x4f, 0x44, 0x49, 0x4e, 0x4c, 0x49, 0x4e, 0x4b]"

record xd_header =
  xh_route_hi :: u32
  xh_route_lo :: u32
  xh_length_sn :: u32
  xh_uuid :: "byte list"
  xh_type :: u32

text \<open>\<open>struct odl_tb5_login_msg\<close> and \<open>struct odl_tb5_login_response\<close> have the same layout; the first payload word is the
  protocol version in the one and the status in the other.\<close>

record login_msg =
  lm_hdr :: xd_header
  lm_word :: u32
  lm_transmit_path :: u32
  lm_reserved0 :: u32
  lm_reserved1 :: u32

definition XD_HEADER_SIZE :: nat where [driver_consts]: "XD_HEADER_SIZE = 32"
definition LOGIN_MSG_SIZE :: nat where [driver_consts]: "LOGIN_MSG_SIZE = 48"

definition ring_depth_ok :: "u32 \<Rightarrow> bool" where
  "ring_depth_ok n \<longleftrightarrow> n \<noteq> 0 \<and> is_power_of_2 (unat n) \<and> RING_SIZE_MIN \<le> unat n \<and> unat n \<le> RING_SIZE_MAX"

definition xd_header_init :: "u64 \<Rightarrow> u32 \<Rightarrow> nat \<Rightarrow> xd_header" where
  "xd_header_init route ty total_size = \<lparr>xh_route_hi = ucast (drop_bit 32 route), xh_route_lo = ucast route,
     xh_length_sn = of_nat (total_size div 4) - XD_HDR_SIZE_DW, xh_uuid = proto_uuid, xh_type = ty\<rparr>"

section \<open>Layout\<close>

definition xd_header_bytes :: "xd_header \<Rightarrow> byte list" where
  "xd_header_bytes h = le32 (xh_route_hi h) @ le32 (xh_route_lo h) @ le32 (xh_length_sn h) @ xh_uuid h @ le32 (xh_type h)"

definition login_msg_bytes :: "login_msg \<Rightarrow> byte list" where
  "login_msg_bytes m = xd_header_bytes (lm_hdr m) @ le32 (lm_word m) @ le32 (lm_transmit_path m) @
     le32 (lm_reserved0 m) @ le32 (lm_reserved1 m)"

text \<open>Reading a 32-bit field of a buffer; outside the buffer the value is \<open>None\<close>.\<close>

definition get32 :: "nat \<Rightarrow> byte list \<Rightarrow> u32 option" where
  "get32 off buf = map_option le32_to_cpu (mem_read off 4 buf)"

definition xd_header_of :: "byte list \<Rightarrow> xd_header option" where
  "xd_header_of buf =
     do {
       hi \<leftarrow> get32 0 buf;
       lo \<leftarrow> get32 4 buf;
       sn \<leftarrow> get32 8 buf;
       uuid \<leftarrow> mem_read 12 16 buf;
       ty \<leftarrow> get32 28 buf;
       Some \<lparr>xh_route_hi = hi, xh_route_lo = lo, xh_length_sn = sn, xh_uuid = uuid, xh_type = ty\<rparr>
     }"

definition login_msg_of :: "byte list \<Rightarrow> login_msg option" where
  "login_msg_of buf =
     do {
       h \<leftarrow> xd_header_of buf;
       w \<leftarrow> get32 32 buf;
       path \<leftarrow> get32 36 buf;
       r0 \<leftarrow> get32 40 buf;
       r1 \<leftarrow> get32 44 buf;
       Some \<lparr>lm_hdr = h, lm_word = w, lm_transmit_path = path, lm_reserved0 = r0, lm_reserved1 = r1\<rparr>
     }"

text \<open>
  The fields \<open>(transmit_path, version, packet slots)\<close> of a login packet: a full packet has all, a packet with two payload words the
  first two, and a shorter one none; missing fields are 0.
\<close>

definition login_fields :: "byte list \<Rightarrow> (u32 \<times> u32 \<times> u32) option" where
  "login_fields buf =
     (if LOGIN_MSG_SIZE \<le> length buf
      then do { m \<leftarrow> login_msg_of buf; Some (lm_transmit_path m, lm_word m, lm_reserved0 m) }
      else if XD_HEADER_SIZE + 8 \<le> length buf
      then do { path \<leftarrow> get32 (XD_HEADER_SIZE + 4) buf; ver \<leftarrow> get32 XD_HEADER_SIZE buf; Some (path, ver, 0) }
      else Some (0, 0, 0))"

text \<open>The route of a packet, without its topmost bit.\<close>

definition ROUTE_TOP_BIT :: u64 where "ROUTE_TOP_BIT = push_bit 63 1"

definition packet_route :: "xd_header \<Rightarrow> u64" where
  "packet_route h = (push_bit 32 (ucast (xh_route_hi h)) OR ucast (xh_route_lo h)) AND NOT ROUTE_TOP_BIT"

section \<open>Round trips\<close>

definition uuid_ok :: "xd_header \<Rightarrow> bool" where
  "uuid_ok h \<longleftrightarrow> length (xh_uuid h) = 16"

lemma length_proto_uuid [simp]: "length proto_uuid = 16"
  by (simp add: proto_uuid_def)

lemma get32_in: "off + 4 \<le> length buf \<Longrightarrow> \<exists>w. get32 off buf = Some w"
  by (simp add: get32_def mem_read_def)

lemma get32_at: "get32 (length xs) (xs @ le32 w @ ys) = Some w"
  by (simp add: get32_def mem_read_def)

lemma xd_header_roundtrip:
  assumes "uuid_ok h"
  shows "xd_header_of (xd_header_bytes h @ rest) = Some h"
proof -
  let ?a = "le32 (xh_route_hi h)" and ?b = "le32 (xh_route_lo h)" and ?c = "le32 (xh_length_sn h)" and ?u = "xh_uuid h"
    and ?t = "le32 (xh_type h)"
  have len: "length ?u = 16" using assms by (simp add: uuid_ok_def)
  let ?buf = "xd_header_bytes h @ rest"
  have "get32 0 ?buf = Some (xh_route_hi h)" "get32 4 ?buf = Some (xh_route_lo h)" "get32 8 ?buf = Some (xh_length_sn h)"
    "get32 28 ?buf = Some (xh_type h)"
    using get32_at [of "[]" "xh_route_hi h"] get32_at [of ?a "xh_route_lo h"] get32_at [of "?a @ ?b" "xh_length_sn h"]
      get32_at [of "?a @ ?b @ ?c @ ?u" "xh_type h"] len
    by (simp_all add: xd_header_bytes_def)
  moreover have "mem_read 12 16 ?buf = Some ?u" using len by (simp add: mem_read_def xd_header_bytes_def)
  ultimately show ?thesis by (cases h) (simp add: xd_header_of_def)
qed

lemma login_msg_roundtrip:
  assumes "uuid_ok (lm_hdr m)"
  shows "login_msg_of (login_msg_bytes m @ rest) = Some m" "length (login_msg_bytes m) = LOGIN_MSG_SIZE"
proof -
  let ?h = "xd_header_bytes (lm_hdr m)" and ?w = "le32 (lm_word m)" and ?p = "le32 (lm_transmit_path m)"
    and ?r = "le32 (lm_reserved0 m)"
  have h: "length ?h = 32" using assms by (simp add: xd_header_bytes_def uuid_ok_def)
  let ?buf = "login_msg_bytes m @ rest"
  have "get32 32 ?buf = Some (lm_word m)" "get32 36 ?buf = Some (lm_transmit_path m)" "get32 40 ?buf = Some (lm_reserved0 m)"
    "get32 44 ?buf = Some (lm_reserved1 m)"
    using get32_at [of ?h "lm_word m"] get32_at [of "?h @ ?w" "lm_transmit_path m"] get32_at [of "?h @ ?w @ ?p" "lm_reserved0 m"]
      get32_at [of "?h @ ?w @ ?p @ ?r" "lm_reserved1 m"] h
    by (simp_all add: login_msg_bytes_def)
  moreover have "xd_header_of ?buf = Some (lm_hdr m)"
    using xd_header_roundtrip [OF assms] by (simp add: login_msg_bytes_def)
  ultimately show "login_msg_of ?buf = Some m" by (cases m) (simp add: login_msg_of_def)
  show "length (login_msg_bytes m) = LOGIN_MSG_SIZE" using h by (simp add: login_msg_bytes_def driver_consts)
qed

text \<open>Every buffer with a header can be read.\<close>

lemma xd_header_total: "XD_HEADER_SIZE \<le> length buf \<Longrightarrow> \<exists>h. xd_header_of buf = Some h"
  by (simp add: xd_header_of_def get32_def mem_read_def driver_consts)

lemma login_fields_total: "\<exists>x. login_fields buf = Some x"
  by (auto simp: login_fields_def login_msg_of_def xd_header_of_def get32_def mem_read_def driver_consts)

lemma login_fields_msg:
  assumes "uuid_ok (lm_hdr m)"
  shows "login_fields (login_msg_bytes m) = Some (lm_transmit_path m, lm_word m, lm_reserved0 m)"
  using login_msg_roundtrip(1) [OF assms, of "[]"] login_msg_roundtrip(2) [OF assms] by (simp add: login_fields_def)

lemma bit_route_top: "bit ROUTE_TOP_BIT k \<longleftrightarrow> k = 63"
  unfolding ROUTE_TOP_BIT_def bit_push_bit_iff bit_1_iff by auto

lemma packet_route_init:
  assumes "\<not> bit route 63"
  shows "packet_route (xd_header_init route ty n) = route"
proof (rule bit_word_eqI)
  fix k
  assume "k < LENGTH(64)"
  then show "bit (packet_route (xd_header_init route ty n)) k \<longleftrightarrow> bit route k"
    using assms by (cases "k = 63"; cases "32 \<le> k") (auto simp: packet_route_def xd_header_init_def bit_route_top bit_simps)
qed

end
