(* ===== verification/Handshake.thy ===== *)
theory Handshake
  imports Legacy_Submit Login_Wire
begin

text \<open>
  The login handshake of \<^verbatim>\<open>driver/odl_tb5_proto.c\<close>: the packet handler (lines 95 to 269), the login request and its retries (lines
  287 to 369 and 837 to 877), bringing the link up (lines 372 to 579), restarting it (lines 794 to 834), logout, initialisation and exit
  (lines 880 to 944).

  A node is a device with what it holds of the Thunderbolt core: the input HopIDs, the enabled paths, its pending work
  items and its poll timer. The results of the core and of allocations are arguments. Work items and packets are steps; a packet that
  arrives, or a login that is answered, while a connection is brought up takes effect between the bring-up and its final check: the
  bring-up reads none of the fields that they change.
\<close>

section \<open>Nodes\<close>

datatype work = LoginWork | ConnectWork | RestartWork | VerifyWork

record node =
  nd_route :: u64
  nd_dev :: odl_device
  nd_res :: nhi_res
  nd_in_hopids :: "int set"
  nd_paths :: "(int \<times> int) set"
  nd_work :: "work set"
  nd_timer :: bool
  nd_pool_live :: "nat list"
  nd_batch_live :: "nat list"

definition upd_dev :: "(odl_device \<Rightarrow> odl_device) \<Rightarrow> node \<Rightarrow> node" where
  "upd_dev f n = n\<lparr>nd_dev := f (nd_dev n)\<rparr>"

definition upd_hs :: "(handshake \<Rightarrow> handshake) \<Rightarrow> node \<Rightarrow> node" where
  "upd_hs f = upd_dev (\<lambda>d. d\<lparr>dev_hs := f (dev_hs d)\<rparr>)"

definition set_state :: "conn_state \<Rightarrow> node \<Rightarrow> node" where
  "set_state s = upd_dev (\<lambda>d. d\<lparr>dev_state := s\<rparr>)"

definition schedule :: "work \<Rightarrow> node \<Rightarrow> node" where
  "schedule w n = n\<lparr>nd_work := insert w (nd_work n)\<rparr>"

definition cancel :: "work set \<Rightarrow> node \<Rightarrow> node" where
  "cancel ws n = n\<lparr>nd_work := nd_work n - ws\<rparr>"

text \<open>Operations of the Thunderbolt core. Releasing a HopID that is not allocated has the value \<open>None\<close>.\<close>

definition release_in_hopid :: "int \<Rightarrow> node \<Rightarrow> node option" where
  "release_in_hopid h n =
     (if h \<in> nd_in_hopids n then Some (n\<lparr>nd_in_hopids := nd_in_hopids n - {h}\<rparr>) else None)"

definition disable_paths :: "int \<Rightarrow> int \<Rightarrow> node \<Rightarrow> node" where
  "disable_paths local_hop peer_hop n = n\<lparr>nd_paths := nd_paths n - {(local_hop, peer_hop)}\<rparr>"

section \<open>Incoming packets\<close>

definition login_response :: "node \<Rightarrow> xd_header \<Rightarrow> u32 \<Rightarrow> u32 \<Rightarrow> u32 \<Rightarrow> login_msg" where
  "login_response n h status path slots =
     \<lparr>lm_hdr = \<lparr>xh_route_hi = ucast (drop_bit 32 (nd_route n)), xh_route_lo = ucast (nd_route n),
        xh_length_sn = (xh_length_sn h AND XD_SN_MASK) OR (of_nat (LOGIN_MSG_SIZE div 4) - XD_HDR_SIZE_DW),
        xh_uuid = proto_uuid, xh_type = MSG_LOGIN_RSP\<rparr>,
      lm_word = status, lm_transmit_path = path, lm_reserved0 = slots, lm_reserved1 = 0\<rparr>"

text \<open>\<open>mode\<close> is \<open>odl_protocol_mode\<close>; \<open>resp_ok\<close> is the result of \<open>tb_xdomain_response\<close>. The values are whether the packet was
  handled, the responses sent, and the node.\<close>

type_synonym handled = "(bool \<times> login_msg list \<times> node) option"

definition handle_login :: "nat \<Rightarrow> bool \<Rightarrow> byte list \<Rightarrow> xd_header \<Rightarrow> node \<Rightarrow> handled" where
  "handle_login mode resp_ok buf h n =
     do {
       (path, ver, slots) \<leftarrow> login_fields buf;
       let d = nd_dev n;
       if mode = 0 \<and> LOGIN_MSG_SIZE \<le> length buf \<and> ver \<noteq> PROTOCOL_VER
       then Some (True, [login_response n h LOGIN_STATUS_PROTO_MISMATCH 0 0], n)
       else if mode = 0 \<and> (length buf < LOGIN_MSG_SIZE \<or> \<not> ring_depth_ok slots)
       then Some (True, [login_response n h LOGIN_STATUS_BAD_RING 0 0], n)
       else if dev_state d = ERROR
       then Some (True, [login_response n h LOGIN_STATUS_RING_UNAVAILABLE 0 0], n)
       else do {
         let resp = login_response n h LOGIN_STATUS_OK (of_int (hs_local_tx_hopid (dev_hs d))) (of_nat (rc_ring_size (dev_tx d)));
         let n = upd_hs (\<lambda>hs. hs\<lparr>peer_ring_size := unat slots\<rparr>) n;
         if \<not> resp_ok then Some (True, [resp], n)
         else do {
           let n = upd_hs (\<lambda>hs. hs\<lparr>login_generation := login_generation hs + 1\<rparr>) n;
           if dev_state d \<noteq> HANDSHAKE \<or> connecting (dev_hs d)
           then Some (True, [resp], schedule RestartWork
                  (upd_hs (\<lambda>hs. hs\<lparr>stale_remote_tx_hopid := hs_remote_tx_hopid hs, hs_remote_tx_hopid := sint path,
                     login_received := True\<rparr>) n))
           else do {
             let n = upd_hs (\<lambda>hs. hs\<lparr>hs_remote_tx_hopid := sint path, login_received := True\<rparr>) n;
             Some (True, [resp], if login_sent (dev_hs d) then schedule ConnectWork n else n)
           }
         }
       }
     }"

definition handle_logout :: "node \<Rightarrow> node" where
  "handle_logout n = schedule RestartWork
     (upd_hs (\<lambda>hs. hs\<lparr>stale_remote_tx_hopid := hs_remote_tx_hopid hs, login_received := False, login_sent := False,
        login_generation := login_generation hs + 1\<rparr>) n)"

text \<open>The handler after the device has been found.\<close>

definition node_packet :: "nat \<Rightarrow> bool \<Rightarrow> byte list \<Rightarrow> node \<Rightarrow> handled" where
  "node_packet mode resp_ok buf n =
     do {
       h \<leftarrow> xd_header_of buf;
       if xh_type h = MSG_LOGIN then handle_login mode resp_ok buf h n
       else if xh_type h = MSG_LOGOUT then Some (True, [], handle_logout n)
       else Some (False, [], n)
     }"

fun find_device_by_route :: "u64 \<Rightarrow> node list \<Rightarrow> nat option" where
  "find_device_by_route route [] = None"
| "find_device_by_route route (n # ns) =
     (if nd_route n = route then Some 0 else map_option Suc (find_device_by_route route ns))"

definition proto_handle_packet ::
  "nat \<Rightarrow> bool \<Rightarrow> byte list \<Rightarrow> node list \<Rightarrow> (bool \<times> login_msg list \<times> node list) option" where
  "proto_handle_packet mode resp_ok buf ns =
     (if length buf < XD_HEADER_SIZE then Some (False, [], ns)
      else do {
        h \<leftarrow> xd_header_of buf;
        case find_device_by_route (packet_route h) ns of
          None \<Rightarrow> Some (False, [], ns)
        | Some i \<Rightarrow> do { (r, out, n) \<leftarrow> node_packet mode resp_ok buf (ns ! i); Some (r, out, ns[i := n]) }
      })"

section \<open>Login\<close>

text \<open>The request that \<open>odl_tb5_proto_send_login\<close> sends, and what it does with the reply.\<close>

definition login_request :: "node \<Rightarrow> login_msg" where
  "login_request n = \<lparr>lm_hdr = xd_header_init (nd_route n) MSG_LOGIN LOGIN_MSG_SIZE, lm_word = PROTOCOL_VER,
     lm_transmit_path = of_int (hs_local_tx_hopid (dev_hs (nd_dev n))),
     lm_reserved0 = of_nat (rc_ring_size (dev_tx (nd_dev n))), lm_reserved1 = 0\<rparr>"

definition login_ok :: "nat \<Rightarrow> login_msg \<Rightarrow> node \<Rightarrow> node" where
  "login_ok mode resp n =
     (let n = upd_hs (\<lambda>hs. hs\<lparr>login_generation := login_generation hs + 1, hs_remote_tx_hopid := sint (lm_transmit_path resp),
            peer_ring_size := (if mode = 0 then unat (lm_reserved0 resp) else 0), login_sent := True\<rparr>) n
      in if login_received (dev_hs (nd_dev n)) \<and> dev_state (nd_dev n) = HANDSHAKE then schedule ConnectWork n else n)"

definition proto_send_login :: "nat \<Rightarrow> errno + login_msg \<Rightarrow> node \<Rightarrow> (errno + unit) \<times> node" where
  "proto_send_login mode reply n =
     (case reply of
        Inl e \<Rightarrow> (Inl e, n)
      | Inr resp \<Rightarrow>
          if mode = 1 then (Inr (), login_ok mode resp n)
          else if xh_uuid (lm_hdr resp) \<noteq> proto_uuid then (Inl EPROTO, n)
          else if xh_type (lm_hdr resp) \<noteq> MSG_LOGIN_RSP then (Inl EPROTO, n)
          else if lm_word resp \<noteq> LOGIN_STATUS_OK then (Inl ECONNREFUSED, n)
          else if \<not> ring_depth_ok (lm_reserved0 resp) then (Inl EPROTO, n)
          else (Inr (), login_ok mode resp n))"

text \<open>The work item: after a failure it reschedules itself with a growing delay, up to \<open>max_retries\<close> times (0 for ever). The first value
  is the delay in milliseconds.\<close>

definition login_delay :: "nat \<Rightarrow> nat" where
  "login_delay retries = (let ms = push_bit (min retries 4) LOGIN_TIMEOUT in if 5000 < ms then 5000 else ms)"

definition login_work_fn :: "nat \<Rightarrow> int \<Rightarrow> errno + login_msg \<Rightarrow> node \<Rightarrow> nat option \<times> node" where
  "login_work_fn mode max_retries reply n =
     (case proto_send_login mode reply n of
        (Inr _, n) \<Rightarrow> (None, n)
      | (Inl _, n) \<Rightarrow>
          let n = upd_hs (\<lambda>hs. hs\<lparr>login_retries := Suc (login_retries hs)\<rparr>) n;
              retries = login_retries (dev_hs (nd_dev n))
          in if 0 < max_retries \<and> max_retries \<le> int retries then (None, n)
             else (Some (login_delay retries), schedule LoginWork n))"

section \<open>Bringing the link up\<close>

record conn_env =
  ce_resize1 :: "ring_env \<times> buf_env"
  ce_resize2 :: "ring_env \<times> buf_env"
  ce_in_hopid :: "errno + int"
  ce_prime :: "nat \<Rightarrow> errno option"
  ce_enable :: "nat \<Rightarrow> errno option"
  ce_pool_slots :: bool
  ce_pool_bitmap :: bool
  ce_pool_dma :: "nat \<Rightarrow> byte list option"
  ce_batch_dma :: "nat \<Rightarrow> byte list option"

text \<open>The first part, under the state lock: agree on the ring depth. \<open>None\<close> in the result means that the call returns 0; otherwise it goes
  on with the peer's path and the login generation.\<close>

definition complete_begin :: "nat \<Rightarrow> conn_env \<Rightarrow> node \<Rightarrow> ((int \<times> u32) option \<times> node) option" where
  "complete_begin mode env n =
     (let d = nd_dev n; hs = dev_hs d in
      if dev_state d \<noteq> HANDSHAKE \<or> connecting hs \<or> \<not> login_sent hs \<or> \<not> login_received hs then Some (None, n)
      else
        let local_ring = rc_ring_size (dev_tx d); peer_ring = peer_ring_size hs;
            negotiate = (mode = 0 \<and> ring_depth_ok (of_nat peer_ring));
            agreed = min local_ring peer_ring
        in do {
             (ret, n) \<leftarrow> (if negotiate \<and> agreed < local_ring
                         then do { (ret, res, d) \<leftarrow> rings_resize (ce_resize1 env) (ce_resize2 env) agreed (nd_res n) d;
                                   Some (ret, n\<lparr>nd_res := res, nd_dev := d\<rparr>) }
                         else Some (Inr (), n));
             case ret of
               Inl _ \<Rightarrow> Some (None, set_state ERROR n)
             | Inr _ \<Rightarrow>
                 if negotiate \<and> (agreed < local_ring \<or> agreed < peer_ring)
                 then Some (None, schedule LoginWork (upd_hs (\<lambda>hs. hs\<lparr>login_sent := False\<rparr>) n))
                 else Some (Some (hs_remote_tx_hopid hs, login_generation hs), upd_hs (\<lambda>hs. hs\<lparr>connecting := True\<rparr>) n)
           })"

definition drop_in_hopid :: "node \<Rightarrow> node option" where
  "drop_in_hopid n =
     do {
       n \<leftarrow> release_in_hopid (in_hopid (dev_hs (nd_dev n))) n;
       Some (upd_hs (\<lambda>hs. hs\<lparr>in_hopid_valid := False\<rparr>) n)
     }"

text \<open>The loop around \<open>tb_xdomain_enable_paths\<close>: at most five attempts.\<close>

fun enable_loop :: "(nat \<Rightarrow> errno option) \<Rightarrow> nat \<Rightarrow> nat \<Rightarrow> errno option" where
  "enable_loop enable i 0 = None"
| "enable_loop enable i (Suc k) =
     (case enable i of None \<Rightarrow> None | Some e \<Rightarrow> if k = 0 then Some e else enable_loop enable (Suc i) k)"

definition node_stop :: "node \<Rightarrow> node option" where
  "node_stop n = do { d \<leftarrow> rings_stop (nd_dev n); Some (n\<lparr>nd_dev := d\<rparr>) }"

definition complete_bringup :: "conn_env \<Rightarrow> int \<Rightarrow> node \<Rightarrow> ((errno + unit) \<times> node) option" where
  "complete_bringup env peer_path n =
     do {
       n \<leftarrow> (if in_hopid_valid (dev_hs (nd_dev n))
             then drop_in_hopid (if rc_started (dev_tx (nd_dev n))
                    then disable_paths (hs_local_tx_hopid (dev_hs (nd_dev n))) (in_hopid (dev_hs (nd_dev n))) n else n)
             else Some n);
       case ce_in_hopid env of
         Inl e \<Rightarrow> Some (Inl e, n)
       | Inr h \<Rightarrow> do {
           let n = upd_hs (\<lambda>hs. hs\<lparr>in_hopid := peer_path, in_hopid_valid := True\<rparr>) (n\<lparr>nd_in_hopids := insert h (nd_in_hopids n)\<rparr>);
           d \<leftarrow> rings_start (nd_dev n);
           (r, d) \<leftarrow> submit_rx (ce_prime env) 0 (FRAME_SIZE * 16) d;
           let n = n\<lparr>nd_dev := d\<rparr>;
           case r of
             Inl e \<Rightarrow> do { n \<leftarrow> node_stop n; n \<leftarrow> drop_in_hopid n; Some (Inl e, n) }
           | Inr _ \<Rightarrow>
               (case enable_loop (ce_enable env) 0 ENABLE_RETRIES of
                  Some e \<Rightarrow> do { n \<leftarrow> node_stop n; n \<leftarrow> drop_in_hopid n; Some (Inl e, n) }
                | None \<Rightarrow> Some (Inr (), n\<lparr>nd_paths := insert (hs_local_tx_hopid (dev_hs (nd_dev n)), peer_path) (nd_paths n)\<rparr>))
         }
     }"

text \<open>The last part: nothing may have changed since the first part. Then the connection is up, the pools are allocated if they are not
  there, and the link is verified.\<close>

definition pools_alloc :: "conn_env \<Rightarrow> node \<Rightarrow> node" where
  "pools_alloc env n =
     (let n = (if fp_slots (dev_pool (nd_dev n)) = None
               then case frame_pool_alloc (ce_pool_slots env) (ce_pool_bitmap env) (ce_pool_dma env) (dev_pool (nd_dev n)) (nd_pool_live n) of
                      (_, p, blocks) \<Rightarrow> upd_dev (\<lambda>d. d\<lparr>dev_pool := p\<rparr>) (n\<lparr>nd_pool_live := blocks\<rparr>)
               else n)
      in if bb_virt (bp_bufs (dev_bpool (nd_dev n)) ! 0) = None
         then case batch_pool_alloc (ce_batch_dma env) (dev_bpool (nd_dev n)) (nd_batch_live n) of
                (_, p, blocks) \<Rightarrow> upd_dev (\<lambda>d. d\<lparr>dev_bpool := p\<rparr>) (n\<lparr>nd_batch_live := blocks\<rparr>)
         else n)"

definition login_stale :: "u32 \<Rightarrow> node \<Rightarrow> bool" where
  "login_stale generation n \<longleftrightarrow> (let d = nd_dev n; hs = dev_hs d in
     dev_state d \<noteq> HANDSHAKE \<or> \<not> connecting hs \<or> \<not> login_sent hs \<or> \<not> login_received hs \<or> login_generation hs \<noteq> generation)"

definition complete_commit :: "conn_env \<Rightarrow> int \<Rightarrow> u32 \<Rightarrow> node \<Rightarrow> ((errno + unit) \<times> node) option" where
  "complete_commit env peer_path generation n =
     (if login_stale generation n
      then do {
        n \<leftarrow> node_stop (disable_paths (hs_local_tx_hopid (dev_hs (nd_dev n))) peer_path n);
        n \<leftarrow> drop_in_hopid n;
        Some (Inl EAGAIN, n)
      }
      else Some (Inr (), schedule VerifyWork
             ((pools_alloc env (set_state CONNECTED (upd_hs (\<lambda>hs. hs\<lparr>connecting := False\<rparr>) n)))\<lparr>nd_timer := True\<rparr>)))"

text \<open>What else may run during the bring-up: a packet, with the result of sending a response to it, and the login work item, with the
  retry limit and the peer's reply.\<close>

datatype event = Packet bool "byte list" | LoginRun int "errno + login_msg"

fun node_event :: "nat \<Rightarrow> event \<Rightarrow> node \<Rightarrow> node option" where
  "node_event mode (Packet resp_ok buf) n = do { (_, _, n) \<leftarrow> node_packet mode resp_ok buf n; Some n }"
| "node_event mode (LoginRun max_retries reply) n = Some (snd (login_work_fn mode max_retries reply n))"

fun node_events :: "nat \<Rightarrow> event list \<Rightarrow> node \<Rightarrow> node option" where
  "node_events mode [] n = Some n"
| "node_events mode (e # es) n = do { n \<leftarrow> node_event mode e n; node_events mode es n }"

definition complete_connection ::
  "nat \<Rightarrow> conn_env \<Rightarrow> event list \<Rightarrow> node \<Rightarrow> ((errno + unit) \<times> node) option" where
  "complete_connection mode env es n =
     do {
       (go, n) \<leftarrow> complete_begin mode env n;
       case go of
         None \<Rightarrow> Some (Inr (), n)
       | Some (peer_path, generation) \<Rightarrow> do {
           (r, n) \<leftarrow> complete_bringup env peer_path n;
           n \<leftarrow> node_events mode es n;
           case r of
             Inl e \<Rightarrow> Some (Inl e, n)
           | Inr _ \<Rightarrow> complete_commit env peer_path generation n
         }
     }"

definition connect_work_fn :: "nat \<Rightarrow> conn_env \<Rightarrow> event list \<Rightarrow> node \<Rightarrow> node option" where
  "connect_work_fn mode env es n =
     do {
       (ret, n) \<leftarrow> complete_connection mode env es n;
       case ret of
         Inr _ \<Rightarrow> Some n
       | Inl _ \<Rightarrow> Some (schedule LoginWork
           (upd_hs (\<lambda>hs. hs\<lparr>connecting := False, login_sent := False, login_received := False\<rparr>) n))
     }"

section \<open>Restart, logout, initialisation\<close>

definition cancel_ctrl_reply :: "node \<Rightarrow> node" where
  "cancel_ctrl_reply = upd_dev (\<lambda>d. d\<lparr>dev_ctrl_reply := False\<rparr>)"

definition restart_work_fn :: "node \<Rightarrow> node option" where
  "restart_work_fn n =
     do {
       let n = upd_hs (\<lambda>hs. hs\<lparr>pong_received := False\<rparr>)
                 (cancel_ctrl_reply (cancel {VerifyWork, ConnectWork, LoginWork} (n\<lparr>nd_timer := False\<rparr>)));
       let hs = dev_hs (nd_dev n);
       n \<leftarrow> (if rc_started (dev_tx (nd_dev n))
             then do {
               n \<leftarrow> node_stop (if in_hopid_valid hs then disable_paths (hs_local_tx_hopid hs) (in_hopid hs) n else n);
               if in_hopid_valid (dev_hs (nd_dev n)) then drop_in_hopid n else Some n
             }
             else Some n);
       Some (schedule LoginWork (upd_hs (\<lambda>hs. hs\<lparr>login_sent := False, login_retries := 0, peer_ring_size := 0, connecting := False\<rparr>)
              (set_state HANDSHAKE n)))
     }"

text \<open>The result of the logout request is ignored.\<close>

definition proto_send_logout :: "node \<Rightarrow> node" where
  "proto_send_logout n = set_state DISCONNECTED n"

definition proto_init :: "node \<Rightarrow> node" where
  "proto_init n = schedule LoginWork (set_state HANDSHAKE
     (upd_hs (\<lambda>hs. hs\<lparr>login_retries := 0, login_sent := False, login_received := False, connecting := False, login_generation := 0,
        peer_ring_size := 0, pong_received := False, peer_ping_answered := False\<rparr>) n))"

definition proto_exit :: "node \<Rightarrow> node" where
  "proto_exit n = cancel_ctrl_reply (cancel {VerifyWork, RestartWork, ConnectWork, LoginWork} (n\<lparr>nd_timer := False\<rparr>))"

section \<open>What the data path leaves alone\<close>

text \<open>The part of a device that the handshake is responsible for: everything but the marks that control frames set.\<close>

definition hs_core :: "handshake \<Rightarrow> handshake" where
  "hs_core hs = hs\<lparr>pong_received := False, verify_rx_type := 0\<rparr>"

definition ctl :: "odl_device \<Rightarrow> conn_state \<times> handshake \<times> bool \<times> nat option" where
  "ctl d = (dev_state d, hs_core (dev_hs d), rc_started (dev_tx d), rc_ring (dev_tx d))"

lemma hs_coreD:
  assumes "hs_core hs = hs_core hs'"
  shows "in_hopid_valid hs = in_hopid_valid hs'" "in_hopid hs = in_hopid hs'" "hs_local_tx_hopid hs = hs_local_tx_hopid hs'"
    "login_generation hs = login_generation hs'" "connecting hs = connecting hs'" "login_sent hs = login_sent hs'"
    "login_received hs = login_received hs'" "peer_ping_answered hs = peer_ping_answered hs'"
    "hs_remote_tx_hopid hs = hs_remote_tx_hopid hs'" "peer_ring_size hs = peer_ring_size hs'"
  using assms by (cases hs; cases hs'; simp add: hs_core_def)+

lemma ctl_upd [simp]:
  "ctl (d\<lparr>dev_heap := a\<rparr>) = ctl d" "ctl (d\<lparr>dev_pool := b\<rparr>) = ctl d" "ctl (d\<lparr>dev_stats := c\<rparr>) = ctl d"
  "ctl (d\<lparr>dev_rx_posted := e\<rparr>) = ctl d" "ctl (d\<lparr>dev_rx_pending := f\<rparr>) = ctl d" "ctl (d\<lparr>dev_rx := g\<rparr>) = ctl d"
  "ctl (d\<lparr>dev_ctrl_reply := h\<rparr>) = ctl d" "ctl (d\<lparr>dev_bpool := i\<rparr>) = ctl d" "ctl (d\<lparr>dev_rx_target := j\<rparr>) = ctl d"
  "ctl (d\<lparr>dev_tx_pending := k\<rparr>) = ctl d" "ctl (d\<lparr>dev_wire := l\<rparr>) = ctl d"
  by (simp_all add: ctl_def)

text \<open>Sending, posting and stopping leave the marks of control frames alone as well; only an arriving frame sets them.\<close>

definition steady :: "odl_device \<Rightarrow> conn_state \<times> handshake \<times> bool \<times> bool \<times> nat option" where
  "steady d = (dev_state d, dev_hs d, dev_ctrl_reply d, rc_started (dev_tx d), rc_ring (dev_tx d))"

lemma steady_ctl: "steady d' = steady d \<Longrightarrow> ctl d' = ctl d"
  by (simp add: steady_def ctl_def)

lemma steady_upd [simp]:
  "steady (d\<lparr>dev_pool := b\<rparr>) = steady d" "steady (d\<lparr>dev_stats := c\<rparr>) = steady d" "steady (d\<lparr>dev_rx_posted := e\<rparr>) = steady d"
  "steady (d\<lparr>dev_rx_pending := f\<rparr>) = steady d" "steady (d\<lparr>dev_rx := g\<rparr>) = steady d" "steady (d\<lparr>dev_rx_target := j\<rparr>) = steady d"
  "steady (d\<lparr>dev_tx_pending := k\<rparr>) = steady d" "steady (d\<lparr>dev_wire := l\<rparr>) = steady d"
  by (simp_all add: steady_def)

lemma tx_complete_steady: "tx_complete rc d = Some d' \<Longrightarrow> steady d' = steady d"
  using tx_complete_rings [of "fst rc" "snd rc" d d']
  by (cases "fst rc \<in> set (dev_tx_pending d)")
    (auto simp: same_rings_def steady_def tx_complete_def dest: same_ctxD split: prod.splits)

lemma tx_complete_all_steady: "tx_complete_all rcs d = Some d' \<Longrightarrow> steady d' = steady d"
  by (induction rcs arbitrary: d) (auto simp: bind_eq_Some_conv dest!: tx_complete_steady)

lemma pool_put_steady: "pool_put i d = Some d' \<Longrightarrow> steady d' = steady d"
  by (auto simp: pool_put_def steady_def bind_eq_Some_conv)

lemma rx_repost_loop_steady: "rx_repost_loop ok target k d = Some (k', d') \<Longrightarrow> steady d' = steady d"
proof (induction ok target k d rule: rx_repost_loop.induct)
  case (1 ok target k d)
  show ?case
  proof (cases "target \<le> k")
    case True
    with "1.prems" show ?thesis by (simp add: rx_repost_loop.simps [of ok target k d])
  next
    case False
    then obtain r p where rp: "frame_pool_get (dev_pool d) = Some (r, p)"
      using "1.prems" by (auto simp: rx_repost_loop.simps [of ok target k d] bind_eq_Some_conv)
    show ?thesis
    proof (cases r)
      case None
      with rp False "1.prems" show ?thesis by (auto simp: rx_repost_loop.simps [of ok target k d] Let_def steady_def)
    next
      case (Some i)
      with rp False "1.prems" obtain d1 d2 where d: "upd_slot i rx_desc (d\<lparr>dev_pool := p\<rparr>) = Some d1"
        "tb_ring_rx (ok k) (PoolSlot i) d1 = Some d2"
        by (auto simp: rx_repost_loop.simps [of ok target k d] bind_eq_Some_conv)
      then have c: "steady d2 = steady d"
        by (auto simp: upd_slot_def tb_ring_rx_def steady_def bind_eq_Some_conv split: if_splits option.splits)
      show ?thesis
      proof (cases "ok k")
        case True
        have "steady d' = steady (d2\<lparr>dev_rx_posted := dev_rx_posted d2 + 1\<rparr>)"
          using "1.IH" [OF False rp _ Some] d True "1.prems" rp False Some
          by (auto simp: rx_repost_loop.simps [of ok target k d])
        with c show ?thesis by (simp add: steady_def)
      next
        case no: False
        with rp Some d False "1.prems" c show ?thesis
          by (auto simp: rx_repost_loop.simps [of ok target k d] bind_eq_Some_conv steady_def)
      qed
    qed
  qed
qed

lemma rx_repost_steady: "rx_repost ok d = Some d' \<Longrightarrow> steady d' = steady d"
  by (auto simp: rx_repost_def bind_eq_Some_conv dest!: rx_repost_loop_steady split: if_splits)

lemma rx_cancel_steady:
  "rx_complete_all kmalloc rxm_ok rx_ok (map (\<lambda>r. (r, True)) rs) d = Some d' \<Longrightarrow> steady d' = steady d"
proof (induction rs arbitrary: d)
  case (Cons r rs)
  then obtain d1 where d1: "rx_complete kmalloc rxm_ok rx_ok (r, True) d = Some d1"
    "rx_complete_all kmalloc rxm_ok rx_ok (map (\<lambda>r. (r, True)) rs) d1 = Some d'" by (auto simp: bind_eq_Some_conv)
  have "steady d1 = steady d"
    using d1(1) by (auto simp: rx_complete_def rx_callback_def rx_legacy_frame_def rx_pool_frame_def Let_def bind_eq_Some_conv
        split: if_splits frame_ref.splits dest!: pool_put_steady)
  with Cons.IH [OF d1(2)] show ?case by simp
qed simp

lemma stop_rings_steady:
  "tb_ring_stop_tx d = Some d' \<Longrightarrow> steady d' = steady d" "tb_ring_stop_rx d = Some d' \<Longrightarrow> steady d' = steady d"
  by (auto simp: tb_ring_stop_tx_def tb_ring_stop_rx_def bind_eq_Some_conv dest: tx_complete_all_steady rx_cancel_steady)

lemma post_steady:
  "post_rx ok i bs d = Some d' \<Longrightarrow> steady d' = steady d" "post_tx ok ctrl i bs d = Some d' \<Longrightarrow> steady d' = steady d"
  by (auto simp: post_rx_def post_tx_def tb_ring_rx_def tb_ring_tx_def set_frame_def steady_def bind_eq_Some_conv split: option.splits if_splits)

lemma legacy_frames_steady:
  assumes "\<And>i bs d d'. post i bs d = Some d' \<Longrightarrow> steady d' = steady d"
  shows "legacy_frames post ret mem offset k i remaining d = Some (r, d') \<Longrightarrow> steady d' = steady d"
proof (induction k arbitrary: i remaining d)
  case (Suc k)
  then obtain bs d1 where d1: "post i bs d = Some d1"
    "(case ret i of Some e \<Rightarrow> Some (Inl e, d1) | None \<Rightarrow> legacy_frames post ret mem offset k (Suc i)
       (remaining - min FRAME_SIZE remaining) d1) = Some (r, d')"
    unfolding legacy_frames.simps bind_eq_Some_conv by blast
  with Suc.IH [of "Suc i" "remaining - min FRAME_SIZE remaining" d1] assms [OF d1(1)] show ?case
    by (cases "ret i") auto
qed simp

lemma submit_rx_steady:
  assumes "submit_rx ret offset len d = Some (r, d')"
  shows "steady d' = steady d"
proof (cases "\<not> submittable (rc_started (dev_rx d)) d \<or> rc_frames_posted (dev_rx d) \<and> \<not> rc_swapped_since_post (dev_rx d)")
  case True
  with assms show ?thesis by (auto simp: submit_rx_def split: if_splits)
next
  case False
  then have f: "\<not> \<not> submittable (rc_started (dev_rx d)) d" "\<not> (rc_frames_posted (dev_rx d) \<and> \<not> rc_swapped_since_post (dev_rx d))"
    by auto
  obtain d1 and buf :: dma_buf where d1: "(if rc_frames_posted (dev_rx d) then do { d \<leftarrow> tb_ring_stop_rx d; Some (upd_rx reset_counts d) } else Some d)
      = Some d1"
    "(if db_size buf < size_t (offset + len) then Some (Inl EINVAL, d1)
      else do { mem \<leftarrow> db_virt buf;
        (r, d) \<leftarrow> legacy_frames (\<lambda>i. post_rx (ret i = None) i) ret mem offset (nat (nframes_of len)) 0 len d1;
        case r of Inl e \<Rightarrow> Some (Inl e, d)
        | Inr _ \<Rightarrow> Some (Inr (), upd_rx (\<lambda>c. c\<lparr>rc_submitted := rc_submitted c + nframes_of len, rc_frames_posted := True,
            rc_posted_buf := rc_front c\<rparr>) d) }) = Some (r, d')"
    using assms unfolding submit_rx_def if_not_P [OF f(1)] if_not_P [OF f(2)] bind_eq_Some_conv by blast
  have "steady d1 = steady d" using d1(1) stop_rings_steady(2) by (auto simp: upd_rx_def bind_eq_Some_conv split: if_splits)
  moreover have "steady d' = steady d1"
  proof (cases "db_size buf < size_t (offset + len)")
    case False
    obtain mem x where L: "legacy_frames (\<lambda>i. post_rx (ret i = None) i) ret mem offset (nat (nframes_of len)) 0 len d1 = Some x"
      "(case x of (r, d) \<Rightarrow> case r of Inl e \<Rightarrow> Some (Inl e, d)
        | Inr _ \<Rightarrow> Some (Inr (), upd_rx (\<lambda>c. c\<lparr>rc_submitted := rc_submitted c + nframes_of len, rc_frames_posted := True,
            rc_posted_buf := rc_front c\<rparr>) d)) = Some (r, d')"
      using d1(2) unfolding if_not_P [OF False] bind_eq_Some_conv by blast
    obtain r1 d2 where x: "x = (r1, d2)" by (cases x)
    show ?thesis using L(2) x legacy_frames_steady [OF post_steady(1) L(1) [unfolded x]] by (cases r1) (auto simp: upd_rx_def)
  qed (use d1(2) in simp)
  ultimately show ?thesis by simp
qed

lemma upd_tx_steady [simp]:
  "steady (upd_tx reset_counts d) = steady d" "steady (upd_tx (\<lambda>c. c\<lparr>rc_submitted := a c, rc_frames_posted := b\<rparr>) d) = steady d"
  "steady (upd_tx (set_buf i buf) d) = steady d"
  by (simp_all add: steady_def upd_tx_def reset_counts_def set_buf_def)

lemma submit_tx_drain_steady: "submit_tx_drain completions d = Some d' \<Longrightarrow> steady d' = steady d"
  by (auto simp: submit_tx_drain_def Let_def bind_eq_Some_conv split: if_splits
      dest!: tx_complete_all_steady stop_rings_steady(1))

lemma submit_tx_steady:
  assumes "submit_tx completions ret offset len ctrl d = Some (r, d')"
  shows "steady d' = steady d"
proof (cases "\<not> submittable (rc_started (dev_tx d)) d")
  case True
  with assms show ?thesis by (simp add: submit_tx_def)
next
  case False
  obtain d1 and buf :: dma_buf where d1: "submit_tx_drain completions d = Some d1"
    "(if db_size buf < size_t (offset + len) then Some (Inl EINVAL, d1)
      else do { mem \<leftarrow> db_virt buf;
        (r, d) \<leftarrow> legacy_frames (\<lambda>i. post_tx (ret i = None) ctrl i) ret mem offset (nat (nframes_of len)) 0 len d1;
        case r of Inl e \<Rightarrow> Some (Inl e, d)
        | Inr _ \<Rightarrow> Some (Inr (), upd_tx (\<lambda>c. c\<lparr>rc_submitted := rc_submitted c + nframes_of len, rc_frames_posted := True\<rparr>) d) }) = Some (r, d')"
    using assms unfolding submit_tx_def if_not_P [OF False] bind_eq_Some_conv by blast
  have "steady d' = steady d1"
  proof (cases "db_size buf < size_t (offset + len)")
    case False
    obtain mem x where L: "legacy_frames (\<lambda>i. post_tx (ret i = None) ctrl i) ret mem offset (nat (nframes_of len)) 0 len d1 = Some x"
      "(case x of (r, d) \<Rightarrow> case r of Inl e \<Rightarrow> Some (Inl e, d)
        | Inr _ \<Rightarrow> Some (Inr (), upd_tx (\<lambda>c. c\<lparr>rc_submitted := rc_submitted c + nframes_of len, rc_frames_posted := True\<rparr>) d)) = Some (r, d')"
      using d1(2) unfolding if_not_P [OF False] bind_eq_Some_conv by blast
    obtain r1 d2 where x: "x = (r1, d2)" by (cases x)
    show ?thesis using L(2) x legacy_frames_steady [OF post_steady(2) L(1) [unfolded x]] by (cases r1) auto
  qed (use d1(2) in simp)
  with submit_tx_drain_steady [OF d1(1)] show ?thesis by simp
qed

lemma lookup_chain_ctl: "lookup_chain i as d = Some (r, d') \<Longrightarrow> ctl d' = ctl d"
  by (induction i as d rule: lookup_chain.induct) (auto simp: ctl_def bind_eq_Some_conv split: if_splits)

lemma stream_put_ctl: "stream_put a d = Some d' \<Longrightarrow> ctl d' = ctl d"
  by (drule stream_put_same_rings) (auto simp: same_rings_def ctl_def dest: same_ctxD)

lemma rx_stream_frame_ctl: "rx_stream_frame kmalloc rxm_ok mem d = Some d' \<Longrightarrow> ctl d' = ctl d"
  unfolding rx_stream_frame_def stream_lookup_def
  by (fastforce simp: bind_eq_Some_conv split: if_splits option.splits prod.splits dest!: lookup_chain_ctl stream_put_ctl)

lemma rx_control_ctl: "ctl (rx_control ty d) = ctl d"
  by (simp add: rx_control_def ctl_def hs_core_def)

lemma rx_pool_frame_ctl:
  assumes "rx_pool_frame kmalloc rxm_ok rx_ok i c d = Some d'"
  shows "ctl d' = ctl d"
proof -
  obtain slot where slot: "get_slot i d = Some slot" using assms by (auto simp: rx_pool_frame_def bind_eq_Some_conv)
  let ?bad = "c \<or> rf_flags (fs_frame slot) AND RING_DESC_CRC_ERROR \<noteq> 0 \<or> rf_flags (fs_frame slot) AND RING_DESC_BUFFER_OVERRUN \<noteq> 0"
  let ?d = "\<lambda>st. d\<lparr>dev_rx_posted := dev_rx_posted d - 1, dev_stats := st\<rparr>"
  show ?thesis
  proof (cases ?bad)
    case True
    then have "\<exists>st. pool_put i (?d st) = Some d'"
      using assms slot by (auto simp: rx_pool_frame_def Let_def split: if_splits)
    then show ?thesis by (auto dest: pool_put_steady [THEN steady_ctl])
  next
    case False
    let ?st = "(dev_stats d)\<lparr>rx_frames_ok := rx_frames_ok (dev_stats d) + 1\<rparr>"
    have eq: "rx_pool_frame kmalloc rxm_ok rx_ok i c d = do { mem \<leftarrow> fs_virt slot;
        d1 \<leftarrow> (if DMA_HDR_SIZE \<le> rf_size (fs_frame slot) \<and> dma_hdr_magic mem = DMA_MAGIC
          then Some (rx_control (dma_hdr_type mem) (?d ?st))
          else if STREAM_HDR_SIZE \<le> rf_size (fs_frame slot) then rx_stream_frame kmalloc rxm_ok mem (?d ?st) else Some (?d ?st));
        d2 \<leftarrow> pool_put i d1; rx_repost rx_ok d2 }"
      using slot False by (simp add: rx_pool_frame_def Let_def)
    obtain mem d1 d2 where D: "(if DMA_HDR_SIZE \<le> rf_size (fs_frame slot) \<and> dma_hdr_magic mem = DMA_MAGIC
        then Some (rx_control (dma_hdr_type mem) (?d ?st))
        else if STREAM_HDR_SIZE \<le> rf_size (fs_frame slot) then rx_stream_frame kmalloc rxm_ok mem (?d ?st) else Some (?d ?st)) = Some d1"
      "pool_put i d1 = Some d2" "rx_repost rx_ok d2 = Some d'"
      using assms unfolding eq bind_eq_Some_conv by blast
    have "ctl d1 = ctl (?d ?st)" using D(1) by (auto split: if_splits dest: rx_stream_frame_ctl simp: rx_control_ctl)
    with D(2,3) show ?thesis by (auto dest!: pool_put_steady [THEN steady_ctl] rx_repost_steady [THEN steady_ctl])
  qed
qed

lemma rx_callback_ctl: "rx_callback kmalloc rxm_ok rx_ok known r c d = Some d' \<Longrightarrow> ctl d' = ctl d"
  by (auto simp: rx_callback_def rx_legacy_frame_def Let_def bind_eq_Some_conv rx_control_ctl
      split: if_splits frame_ref.splits option.splits dest: rx_pool_frame_ctl)

lemma rings_stop_ctl:
  assumes "rings_stop d = Some d'"
  shows "ctl d' = (dev_state d, hs_core (dev_hs d),
    rc_started (dev_tx d) \<and> rc_ring (dev_tx d) = None, rc_ring (dev_tx d))"
proof -
  obtain d1 where d1: "(if rc_ring (dev_tx d) \<noteq> None \<and> rc_started (dev_tx d)
      then do { d \<leftarrow> tb_ring_stop_tx d; Some (upd_tx (\<lambda>c. c\<lparr>rc_started := False, rc_frames_posted := False\<rparr>) d) } else Some d) = Some d1"
    "(if rc_ring (dev_rx d1) \<noteq> None \<and> rc_started (dev_rx d1)
      then do { d \<leftarrow> tb_ring_stop_rx d1; Some (upd_rx (\<lambda>c. c\<lparr>rc_started := False, rc_frames_posted := False\<rparr>) d) } else Some d1) = Some d'"
    using assms unfolding rings_stop_def bind_eq_Some_conv by blast
  have "ctl d' = ctl d1" using d1(2) stop_rings_steady(2) [THEN steady_ctl] by (auto simp: upd_rx_def bind_eq_Some_conv split: if_splits)
  moreover have "ctl d1 = (dev_state d, hs_core (dev_hs d),
    rc_started (dev_tx d) \<and> rc_ring (dev_tx d) = None, rc_ring (dev_tx d))"
    using d1(1) by (auto simp: upd_tx_def bind_eq_Some_conv ctl_def split: if_splits dest!: stop_rings_steady(1) [THEN steady_ctl])
  ultimately show ?thesis by simp
qed



text \<open>Allocating and freeing the rings may change the local HopID and the rings, nothing else of it.\<close>

definition keeps_link :: "odl_device \<Rightarrow> odl_device \<Rightarrow> bool" where
  "keeps_link d d' \<longleftrightarrow> dev_state d' = dev_state d \<and> in_hopid_valid (dev_hs d') = in_hopid_valid (dev_hs d) \<and>
     in_hopid (dev_hs d') = in_hopid (dev_hs d) \<and> rc_started (dev_tx d') = rc_started (dev_tx d)"

lemma keeps_link_refl [simp]: "keeps_link d d"
  by (simp add: keeps_link_def)

lemma keeps_link_trans: "keeps_link d d' \<Longrightarrow> keeps_link d' d'' \<Longrightarrow> keeps_link d d''"
  by (simp add: keeps_link_def)

lemma rings_free_keeps:
  assumes "rings_free res d = Some (res', d')"
  shows "keeps_link d d'"
proof -
  obtain res2 res3 res4 res5 d1 where R: "(if 0 \<le> hs_local_tx_hopid (dev_hs d)
      then do { res \<leftarrow> release_out_hopid (hs_local_tx_hopid (dev_hs d)) res2; Some (res, set_local_hopid (- 1) d) }
      else Some (res2, d)) = Some (res3, d1)"
    "kvfree (rc_frames (dev_tx d1)) res3 = Some res4" "kvfree (rc_frames (dev_rx d1)) res4 = Some res5"
    "Some (res5, upd_rx (\<lambda>c. c\<lparr>rc_ring := None, rc_frames := None\<rparr>) (upd_tx (\<lambda>c. c\<lparr>rc_ring := None, rc_frames := None\<rparr>) d1))
      = Some (res', d')"
    using assms unfolding rings_free_def bind_eq_Some_conv split_paired_Ex prod.case by blast
  have "keeps_link d d1" using R(1) by (auto simp: keeps_link_def set_local_hopid_def bind_eq_Some_conv split: if_splits)
  with R(4) show ?thesis by (auto simp: keeps_link_def upd_tx_def upd_rx_def)
qed

lemma dma_bufs_free_keeps: "dma_bufs_free res d = Some (res', d') \<Longrightarrow> keeps_link d d'"
proof -
  have "keeps_link d d'" if "dma_free_bufs js res d = Some (res', d')" for js res d
    using that
  proof (induction js arbitrary: res d)
    case (Cons i js)
    then obtain res1 tx res2 rx where S: "free_buf i res (dev_tx d) = Some (res1, tx)" "free_buf i res1 (dev_rx d) = Some (res2, rx)"
      "dma_free_bufs js res2 (d\<lparr>dev_tx := tx, dev_rx := rx\<rparr>) = Some (res', d')" by (auto simp: bind_eq_Some_conv)
    have "rc_started tx = rc_started (dev_tx d)"
      using S(1) by (auto simp: free_buf_def set_buf_def bind_eq_Some_conv split: if_splits option.splits)
    with Cons.IH [OF S(3)] show ?case by (simp add: keeps_link_def)
  qed simp
  then show "dma_bufs_free res d = Some (res', d') \<Longrightarrow> keeps_link d d'" by (auto simp: dma_bufs_free_def split: if_splits)
qed

lemma rings_alloc_keeps: "rings_alloc env m res d = Some (r, res', d') \<Longrightarrow> keeps_link d d'"
  by (auto simp: rings_alloc_def ring_error_defs ring_upd_defs update_tx_watermarks_def Let_def keeps_link_def bind_eq_Some_conv
      split: if_splits sum.splits option.splits)

lemma dma_bufs_alloc_keeps:
  assumes "dma_bufs_alloc env res d = Some (r, res', d')"
  shows "keeps_link d d'"
proof -
  have alloc: "keeps_link d d1" if "dma_alloc_bufs env sz js res d = (ok, res1, d1)" for sz js res d ok res1 d1
    using that
  proof (induction js arbitrary: res d)
    case (Cons i js)
    then show ?case
      by (auto simp: alloc_buf_eq Let_def keeps_link_def split: if_splits)
  qed simp
  obtain ok res1 d1 where A: "dma_alloc_bufs env (FRAME_SIZE * rc_ring_size (dev_tx d)) [0..<NUM_BUFFERS] res d = (ok, res1, d1)"
    using prod_cases3 by blast
  show ?thesis
  proof (cases ok)
    case True
    with assms A have "d' = upd_rx reset_swap (upd_tx reset_swap d1)"
      by (auto simp: dma_bufs_alloc_def bind_eq_Some_conv)
    with alloc [OF A] show ?thesis by (simp add: keeps_link_def ring_upd_defs reset_swap_def)
  next
    case False
    with assms A obtain res2 where "dma_bufs_free res1 d1 = Some (res2, d')"
      by (auto simp: dma_bufs_alloc_def bind_eq_Some_conv)
    with alloc [OF A] dma_bufs_free_keeps show ?thesis by (blast intro: keeps_link_trans)
  qed
qed

lemma rings_bufs_alloc_keeps:
  assumes "rings_bufs_alloc renv benv m res d = Some (r, res', d')"
  shows "keeps_link d d'"
proof -
  obtain ret res1 d1 where S: "rings_alloc renv m res d = Some (ret, res1, d1)"
    "(case ret of Inl e \<Rightarrow> Some (Inl e, res1, d1) | Inr _ \<Rightarrow> dma_bufs_alloc benv res1 d1) = Some (r, res', d')"
    using assms unfolding rings_bufs_alloc_def bind_eq_Some_conv split_paired_Ex prod.case by blast
  then show ?thesis
    by (cases ret) (auto dest: rings_alloc_keeps dma_bufs_alloc_keeps intro: keeps_link_trans)
qed

lemma rings_teardown_keeps:
  "(do { (res, d) \<leftarrow> dma_bufs_free res d; rings_free res d }) = Some (res', d') \<Longrightarrow> keeps_link d d'"
  unfolding bind_eq_Some_conv split_paired_Ex prod.case by (blast dest: dma_bufs_free_keeps rings_free_keeps intro: keeps_link_trans)

lemma rings_resize_keeps:
  assumes "rings_resize env1 env2 m res d = Some (r, res', d')"
  shows "keeps_link d d'" "rc_started (dev_tx d) \<Longrightarrow> d' = d"
proof -
  show "rc_started (dev_tx d) \<Longrightarrow> d' = d" using assms by (simp add: rings_resize_def Let_def)
  let ?old = "rc_ring_size (dev_tx d)"
  show "keeps_link d d'"
  proof (cases "rc_started (dev_tx d) \<or> rc_started (dev_rx d) \<or> rc_ring_size (dev_tx d) \<le> m")
    case True
    with assms show ?thesis by (auto simp: rings_resize_def Let_def split: if_splits)
  next
    case False
    then have f: "\<not> (rc_started (dev_tx d) \<or> rc_started (dev_rx d))" "\<not> rc_ring_size (dev_tx d) \<le> m" by auto
    obtain resa da res1 d1 ret res2 d2 where S: "dma_bufs_free res d = Some (resa, da)" "rings_free resa da = Some (res1, d1)"
      "rings_bufs_alloc (fst env1) (snd env1) m res1 d1 = Some (ret, res2, d2)"
      "(case ret of Inr _ \<Rightarrow> Some (Inr (), res2, d2)
        | Inl _ \<Rightarrow> do { (res, d) \<leftarrow> dma_bufs_free res2 d2; (res, d) \<leftarrow> rings_free res d;
            (ret, res, da) \<leftarrow> rings_bufs_alloc (fst env2) (snd env2) ?old res d;
            Some (case ret of Inl e \<Rightarrow> Inl e | Inr _ \<Rightarrow> Inl ENOMEM, res, da) }) = Some (r, res', d')"
      using assms unfolding rings_resize_def Let_def if_not_P [OF f(1)] if_not_P [OF f(2)] bind_eq_Some_conv split_paired_Ex prod.case
      by blast
    have "keeps_link d d2" using S(1-3) by (blast dest: dma_bufs_free_keeps rings_free_keeps rings_bufs_alloc_keeps intro: keeps_link_trans)
    moreover have "keeps_link d2 d'"
    proof (cases ret)
      case (Inl e)
      then obtain resb db resc dc ret2 resd where "dma_bufs_free res2 d2 = Some (resb, db)" "rings_free resb db = Some (resc, dc)"
        "rings_bufs_alloc (fst env2) (snd env2) ?old resc dc = Some (ret2, resd, d')"
        using S(4) unfolding Inl sum.case by (auto simp: bind_eq_Some_conv)
      then show ?thesis
        by (blast dest: dma_bufs_free_keeps rings_free_keeps rings_bufs_alloc_keeps intro: keeps_link_trans)
    qed (use S(4) in simp)
    ultimately show ?thesis by (rule keeps_link_trans)
  qed
qed

end
