(* ===== verification/Link_Inv.thy ===== *)
theory Link_Inv
  imports Handshake
begin

text \<open>
  The accounting of input HopIDs and paths over the life of a link: every step of the handshake, packets and frames that arrive in
  between included, keeps it.
\<close>

section \<open>HopIDs and paths\<close>

text \<open>
  The accounting of the link: the input HopID that is allocated is the one recorded in the device, an enabled path belongs to this
  HopID and to running rings, and a connected device has its path.
\<close>

definition link :: "odl_device \<Rightarrow> conn_state \<times> (bool \<times> int \<times> int) \<times> bool \<times> nat option" where
  "link d = (dev_state d, (in_hopid_valid (dev_hs d), in_hopid (dev_hs d), hs_local_tx_hopid (dev_hs d)),
     rc_started (dev_tx d), rc_ring (dev_tx d))"

lemma ctl_link: "ctl d' = ctl d \<Longrightarrow> link d' = link d"
  unfolding ctl_def link_def prod.inject by (elim conjE) (simp add: hs_coreD [of "dev_hs d'" "dev_hs d"])

definition hop_ok :: "node \<Rightarrow> bool" where
  "hop_ok n \<longleftrightarrow> (case link (nd_dev n) of (s, (v, h, l), started, ring) \<Rightarrow>
     nd_in_hopids n = (if v then {h} else {}) \<and> nd_paths n \<subseteq> (if v \<and> started then {(l, h)} else {}) \<and>
     (started \<longrightarrow> ring \<noteq> None) \<and> (s = CONNECTED \<or> s = READY \<longrightarrow> v \<and> started \<and> nd_paths n \<noteq> {}))"

lemmas node_defs = upd_hs_def upd_dev_def set_state_def schedule_def cancel_def disable_paths_def cancel_ctrl_reply_def

lemma upd_hs_sel [simp]:
  "nd_dev (upd_hs f n) = (nd_dev n)\<lparr>dev_hs := f (dev_hs (nd_dev n))\<rparr>" "nd_in_hopids (upd_hs f n) = nd_in_hopids n"
  "nd_paths (upd_hs f n) = nd_paths n" "nd_res (upd_hs f n) = nd_res n" "nd_work (upd_hs f n) = nd_work n" "nd_route (upd_hs f n) = nd_route n"
  by (simp_all add: upd_hs_def upd_dev_def)

lemma set_state_sel [simp]:
  "nd_dev (set_state s n) = (nd_dev n)\<lparr>dev_state := s\<rparr>" "nd_in_hopids (set_state s n) = nd_in_hopids n"
  "nd_paths (set_state s n) = nd_paths n" "nd_res (set_state s n) = nd_res n" "nd_work (set_state s n) = nd_work n"
  by (simp_all add: set_state_def upd_dev_def)

lemma schedule_sel [simp]:
  "nd_dev (schedule w n) = nd_dev n" "nd_in_hopids (schedule w n) = nd_in_hopids n" "nd_paths (schedule w n) = nd_paths n"
  "nd_res (schedule w n) = nd_res n" "nd_work (schedule w n) = insert w (nd_work n)"
  by (simp_all add: schedule_def)

definition same_link :: "node \<Rightarrow> node \<Rightarrow> bool" where
  "same_link n n' \<longleftrightarrow> link (nd_dev n') = link (nd_dev n) \<and> nd_in_hopids n' = nd_in_hopids n \<and> nd_paths n' = nd_paths n"

lemma same_link_ok: "same_link n n' \<Longrightarrow> hop_ok n' = hop_ok n"
  by (simp add: same_link_def hop_ok_def)

lemma same_link_refl [simp]: "same_link n n"
  by (simp add: same_link_def)

lemma link_upd:
  "same_link n (upd_hs f n') \<longleftrightarrow> same_link n n'"
  if "\<And>hs. in_hopid_valid (f hs) = in_hopid_valid hs \<and> in_hopid (f hs) = in_hopid hs \<and> hs_local_tx_hopid (f hs) = hs_local_tx_hopid hs"
  using that by (simp add: same_link_def node_defs link_def)

lemma link_schedule [simp]: "same_link n (schedule w n') \<longleftrightarrow> same_link n n'"
  by (simp add: same_link_def schedule_def)

lemma handle_login_link:
  assumes "handle_login mode resp_ok buf h n = Some (r, out, n')"
  shows "same_link n n'"
proof -
  obtain path ver slots where "login_fields buf = Some (path, ver, slots)" using login_fields_total prod_cases3 by metis
  with assms show ?thesis by (auto simp: handle_login_def Let_def link_upd split: if_splits)
qed

lemma node_packet_link: "node_packet mode resp_ok buf n = Some (r, out, n') \<Longrightarrow> same_link n n'"
  by (auto simp: node_packet_def handle_logout_def link_upd bind_eq_Some_conv split: if_splits dest: handle_login_link)

lemma same_link_trans: "same_link n n' \<Longrightarrow> same_link n' n'' \<Longrightarrow> same_link n n''"
  by (simp add: same_link_def)

lemma login_work_link: "login_work_fn mode mx reply n = (delay, n') \<Longrightarrow> same_link n n'"
  by (auto simp: login_work_fn_def proto_send_login_def login_ok_def link_upd Let_def split: sum.splits if_splits prod.splits)

lemma node_event_link: "node_event mode e n = Some n' \<Longrightarrow> same_link n n'"
  by (cases e) (auto simp: bind_eq_Some_conv dest: node_packet_link intro: login_work_link [OF prod.collapse [symmetric]])

lemma node_events_link: "node_events mode es n = Some n' \<Longrightarrow> same_link n n'"
  by (induction es arbitrary: n) (auto simp: bind_eq_Some_conv intro: same_link_trans dest!: node_event_link)

lemma hop_okD:
  assumes "hop_ok n"
  defines "d \<equiv> nd_dev n" and "hs \<equiv> dev_hs (nd_dev n)"
  shows "nd_in_hopids n = (if in_hopid_valid hs then {in_hopid hs} else {})"
    "nd_paths n \<subseteq> (if in_hopid_valid hs \<and> rc_started (dev_tx d) then {(hs_local_tx_hopid hs, in_hopid hs)} else {})"
    "rc_started (dev_tx d) \<Longrightarrow> rc_ring (dev_tx d) \<noteq> None"
    "dev_state d = CONNECTED \<or> dev_state d = READY \<Longrightarrow> in_hopid_valid hs \<and> rc_started (dev_tx d) \<and> nd_paths n \<noteq> {}"
  using assms(1) unfolding hop_ok_def link_def d_def hs_def prod.case by blast+

lemma hop_ok_resized:
  assumes "hop_ok n" "dev_state (nd_dev n) = HANDSHAKE" "keeps_link (nd_dev n) d" "rc_started (dev_tx (nd_dev n)) \<Longrightarrow> d = nd_dev n"
  shows "hop_ok (n\<lparr>nd_res := res, nd_dev := d\<rparr>)"
proof (cases "rc_started (dev_tx (nd_dev n))")
  case True
  with assms(1,4) show ?thesis by (simp add: hop_ok_def)
next
  case False
  with assms(1-3) show ?thesis by (auto simp: hop_ok_def link_def keeps_link_def)
qed

lemma hop_ok_upd:
  "hop_ok (upd_hs f n) = hop_ok n"
  if "\<And>hs. in_hopid_valid (f hs) = in_hopid_valid hs \<and> in_hopid (f hs) = in_hopid hs \<and> hs_local_tx_hopid (f hs) = hs_local_tx_hopid hs"
  using same_link_ok [of n "upd_hs f n"] that by (simp add: link_upd)

lemma hop_ok_schedule [simp]: "hop_ok (schedule w n) = hop_ok n"
  by (rule same_link_ok) simp

lemma hop_ok_down: "hop_ok n \<Longrightarrow> s \<noteq> CONNECTED \<Longrightarrow> s \<noteq> READY \<Longrightarrow> hop_ok (set_state s n)"
  by (auto simp: hop_ok_def link_def set_state_def upd_dev_def)

lemma complete_begin_ok:
  assumes "hop_ok n" "complete_begin mode env n = Some (go, n')"
  shows "hop_ok n'"
proof -
  let ?d = "nd_dev n" and ?hs = "dev_hs (nd_dev n)"
  let ?idle = "dev_state ?d \<noteq> HANDSHAKE \<or> connecting ?hs \<or> \<not> login_sent ?hs \<or> \<not> login_received ?hs"
  show ?thesis
  proof (cases ?idle)
    case True
    with assms show ?thesis by (simp add: complete_begin_def Let_def)
  next
    case False
    let ?l = "rc_ring_size (dev_tx ?d)" and ?p = "peer_ring_size ?hs"
    let ?neg = "mode = 0 \<and> ring_depth_ok (of_nat ?p)"
    obtain ret n1 where R: "(if ?neg \<and> min ?l ?p < ?l
        then do { (ret, res, d) \<leftarrow> rings_resize (ce_resize1 env) (ce_resize2 env) (min ?l ?p) (nd_res n) ?d; Some (ret, n\<lparr>nd_res := res, nd_dev := d\<rparr>) }
        else Some (Inr (), n)) = Some (ret, n1)"
      "(case ret of Inl _ \<Rightarrow> Some (None, set_state ERROR n1)
        | Inr _ \<Rightarrow> if ?neg \<and> (min ?l ?p < ?l \<or> min ?l ?p < ?p)
            then Some (None, schedule LoginWork (upd_hs (\<lambda>hs. hs\<lparr>login_sent := False\<rparr>) n1))
            else Some (Some (hs_remote_tx_hopid ?hs, login_generation ?hs), upd_hs (\<lambda>hs. hs\<lparr>connecting := True\<rparr>) n1)) = Some (go, n')"
      using assms(2) unfolding complete_begin_def Let_def if_not_P [OF False] bind_eq_Some_conv split_paired_Ex prod.case by blast
    have n1: "hop_ok n1" "dev_state (nd_dev n1) = HANDSHAKE"
    proof -
      have "hop_ok n1 \<and> dev_state (nd_dev n1) = HANDSHAKE"
      proof (cases "?neg \<and> min ?l ?p < ?l")
        case no: False
        with R(1) assms(1) False show ?thesis unfolding if_not_P [OF no] by simp
      next
        case yes: True
        obtain ret' res d where S: "rings_resize (ce_resize1 env) (ce_resize2 env) (min ?l ?p) (nd_res n) ?d = Some (ret', res, d)"
          "Some (ret', n\<lparr>nd_res := res, nd_dev := d\<rparr>) = Some (ret, n1)"
          using R(1) unfolding if_P [OF yes] bind_eq_Some_conv split_paired_Ex prod.case by blast
        then have n1: "n1 = n\<lparr>nd_res := res, nd_dev := d\<rparr>" by simp
        note k = rings_resize_keeps [OF S(1)]
        have "hop_ok n1" unfolding n1 using False by (intro hop_ok_resized [OF assms(1) _ k]) auto
        with k(1) n1 False show ?thesis by (simp add: keeps_link_def)
      qed
      then show "hop_ok n1" "dev_state (nd_dev n1) = HANDSHAKE" by blast+
    qed
    show ?thesis
      using R(2) n1 by (cases ret) (auto simp: hop_ok_upd hop_ok_down split: if_splits)
  qed
qed

lemma complete_begin_idle: "complete_begin mode env n = Some (None, n') \<Longrightarrow> dev_state (nd_dev n) = HANDSHAKE \<Longrightarrow> dev_state (nd_dev n') \<noteq> CONNECTED"
  by (auto simp: complete_begin_def Let_def bind_eq_Some_conv keeps_link_def split: if_splits sum.splits dest!: rings_resize_keeps(1))

lemma complete_begin_go:
  assumes "complete_begin mode env n = Some (Some g, n')"
  shows "dev_state (nd_dev n) = HANDSHAKE" "n' = upd_hs (\<lambda>hs. hs\<lparr>connecting := True\<rparr>) n"
    "g = (hs_remote_tx_hopid (dev_hs (nd_dev n)), login_generation (dev_hs (nd_dev n)))"
    "login_sent (dev_hs (nd_dev n))" "login_received (dev_hs (nd_dev n))"
  using assms
  by (auto simp: complete_begin_def Let_def bind_eq_Some_conv split: if_splits sum.splits)

text \<open>Bringing the link up takes one HopID and one path or nothing. The allocator must return the HopID that was asked for.\<close>

lemma drop_in_hopid_ok:
  assumes "nd_in_hopids n = {in_hopid (dev_hs (nd_dev n))}"
  shows "\<exists>n'. drop_in_hopid n = Some n' \<and> nd_in_hopids n' = {} \<and> nd_paths n' = nd_paths n \<and>
    nd_dev n' = (nd_dev n)\<lparr>dev_hs := (dev_hs (nd_dev n))\<lparr>in_hopid_valid := False\<rparr>\<rparr> \<and> nd_work n' = nd_work n"
  using assms by (simp add: drop_in_hopid_def release_in_hopid_def node_defs)

lemma stop_drop_ok:
  assumes "node_stop n = Some n1" "nd_in_hopids n = {in_hopid (dev_hs (nd_dev n))}" "nd_paths n = {}"
    "rc_started (dev_tx (nd_dev n)) \<Longrightarrow> rc_ring (dev_tx (nd_dev n)) \<noteq> None" "dev_state (nd_dev n) \<noteq> CONNECTED" "dev_state (nd_dev n) \<noteq> READY"
  shows "\<exists>n2. drop_in_hopid n1 = Some n2 \<and> hop_ok n2 \<and> nd_in_hopids n2 = {} \<and> nd_paths n2 = {}"
proof -
  obtain d where d: "rings_stop (nd_dev n) = Some d" "n1 = n\<lparr>nd_dev := d\<rparr>" using assms(1) by (auto simp: node_stop_def bind_eq_Some_conv)
  have c: "link d = (dev_state (nd_dev n), (in_hopid_valid (dev_hs (nd_dev n)), in_hopid (dev_hs (nd_dev n)),
      hs_local_tx_hopid (dev_hs (nd_dev n))), rc_started (dev_tx (nd_dev n)) \<and> rc_ring (dev_tx (nd_dev n)) = None, rc_ring (dev_tx (nd_dev n)))"
    using rings_stop_ctl [OF d(1)] hs_coreD(1-3) [of "dev_hs d" "dev_hs (nd_dev n)"] unfolding ctl_def link_def prod.inject by simp
  have "nd_in_hopids n1 = {in_hopid (dev_hs (nd_dev n1))}" using c assms(2) d(2) by (simp add: link_def)
  then obtain n2 where n2: "drop_in_hopid n1 = Some n2" "nd_in_hopids n2 = {}" "nd_paths n2 = nd_paths n1"
    "nd_dev n2 = (nd_dev n1)\<lparr>dev_hs := (dev_hs (nd_dev n1))\<lparr>in_hopid_valid := False\<rparr>\<rparr>"
    using drop_in_hopid_ok by blast
  have "hop_ok n2" using n2(2-4) c d(2) assms(3-6) by (auto simp: hop_ok_def link_def)
  with n2 d(2) assms(3) show ?thesis by auto
qed

definition logins :: "handshake \<Rightarrow> u32 \<times> bool \<times> bool \<times> bool" where
  "logins hs = (login_generation hs, connecting hs, login_sent hs, login_received hs)"

lemma bringup_release:
  assumes "hop_ok n" "dev_state (nd_dev n) = HANDSHAKE"
  shows "\<exists>n1. (if in_hopid_valid (dev_hs (nd_dev n))
             then drop_in_hopid (if rc_started (dev_tx (nd_dev n))
                    then disable_paths (hs_local_tx_hopid (dev_hs (nd_dev n))) (in_hopid (dev_hs (nd_dev n))) n else n)
             else Some n) = Some n1 \<and> nd_in_hopids n1 = {} \<and> nd_paths n1 = {} \<and>
    nd_dev n1 = (nd_dev n)\<lparr>dev_hs := (dev_hs (nd_dev n))\<lparr>in_hopid_valid := False\<rparr>\<rparr>"
proof (cases "in_hopid_valid (dev_hs (nd_dev n))")
  case False
  have "(dev_hs (nd_dev n))\<lparr>in_hopid_valid := False\<rparr> = dev_hs (nd_dev n)" using False by (cases "dev_hs (nd_dev n)") simp
  then have "nd_dev n = (nd_dev n)\<lparr>dev_hs := (dev_hs (nd_dev n))\<lparr>in_hopid_valid := False\<rparr>\<rparr>" by simp
  with False hop_okD(1,2) [OF assms(1)] show ?thesis by simp
next
  case True
  let ?n = "if rc_started (dev_tx (nd_dev n)) then disable_paths (hs_local_tx_hopid (dev_hs (nd_dev n))) (in_hopid (dev_hs (nd_dev n))) n else n"
  have n: "nd_in_hopids ?n = {in_hopid (dev_hs (nd_dev ?n))}" "nd_paths ?n = {}" "nd_dev ?n = nd_dev n"
    using True hop_okD(1,2) [OF assms(1)] by (auto simp: disable_paths_def split: if_splits)
  from drop_in_hopid_ok [OF n(1)] n(2,3) show ?thesis unfolding if_P [OF True] by auto
qed

text \<open>The bring-up from a node that holds no HopID and no path.\<close>

lemma bringup_fresh:
  assumes "nd_in_hopids n = {p}" "nd_paths n = {}" "in_hopid (dev_hs (nd_dev n)) = p" "in_hopid_valid (dev_hs (nd_dev n))"
    "dev_state (nd_dev n) = HANDSHAKE" "rings_start (nd_dev n) = Some d3" "submit_rx prime 0 len d3 = Some (r4, d4)"
  shows "ctl d4 = (HANDSHAKE, hs_core (dev_hs (nd_dev n)), True, rc_ring (dev_tx (nd_dev n)))" "rc_ring (dev_tx (nd_dev n)) \<noteq> None"
    "do { n \<leftarrow> node_stop (n\<lparr>nd_dev := d4\<rparr>); n \<leftarrow> drop_in_hopid n; Some (Inl e, n) } = Some (r, n') \<Longrightarrow> hop_ok n' \<and> r \<noteq> Inr () \<and> nd_in_hopids n' = {}"
proof -
  have d3: "ctl d3 = (HANDSHAKE, hs_core (dev_hs (nd_dev n)), True, rc_ring (dev_tx (nd_dev n)))" "rc_ring (dev_tx (nd_dev n)) \<noteq> None"
    using assms(5,6) by (auto simp: rings_start_def ctl_def upd_rx_def upd_tx_def bind_eq_Some_conv)
  then show "rc_ring (dev_tx (nd_dev n)) \<noteq> None" by blast
  show c: "ctl d4 = (HANDSHAKE, hs_core (dev_hs (nd_dev n)), True, rc_ring (dev_tx (nd_dev n)))"
    using steady_ctl [OF submit_rx_steady [OF assms(7)]] d3 by simp
  have l: "dev_state d4 = HANDSHAKE" "in_hopid (dev_hs d4) = p" "rc_ring (dev_tx d4) \<noteq> None"
    using c d3 hs_coreD(2) [of "dev_hs d4" "dev_hs (nd_dev n)"] assms(3) by (simp_all add: ctl_def)
  assume E: "do { n \<leftarrow> node_stop (n\<lparr>nd_dev := d4\<rparr>); n \<leftarrow> drop_in_hopid n; Some (Inl e, n) } = Some (r, n')"
  then obtain n1 where n1: "node_stop (n\<lparr>nd_dev := d4\<rparr>) = Some n1" by (auto simp: bind_eq_Some_conv)
  have "\<exists>n2. drop_in_hopid n1 = Some n2 \<and> hop_ok n2 \<and> nd_in_hopids n2 = {} \<and> nd_paths n2 = {}"
    using l assms(1,2) by (intro stop_drop_ok [OF n1]) simp_all
  with E n1 show "hop_ok n' \<and> r \<noteq> Inr () \<and> nd_in_hopids n' = {}" by auto
qed

lemma complete_bringup_ok:
  assumes "hop_ok n" "dev_state (nd_dev n) = HANDSHAKE" "\<And>h. ce_in_hopid env = Inr h \<Longrightarrow> h = p"
    "complete_bringup env p n = Some (r, n')"
  shows "hop_ok n' \<and> (r \<noteq> Inr () \<longrightarrow> nd_in_hopids n' = {}) \<and> (r = Inr () \<longrightarrow> nd_paths n' \<noteq> {} \<and> rc_started (dev_tx (nd_dev n')) \<and>
    in_hopid_valid (dev_hs (nd_dev n')) \<and> in_hopid (dev_hs (nd_dev n')) = p \<and> dev_state (nd_dev n') = HANDSHAKE \<and>
    logins (dev_hs (nd_dev n')) = logins (dev_hs (nd_dev n)) \<and>
    hs_remote_tx_hopid (dev_hs (nd_dev n')) = hs_remote_tx_hopid (dev_hs (nd_dev n)))"
proof -
  obtain n1 where n1: "(if in_hopid_valid (dev_hs (nd_dev n))
             then drop_in_hopid (if rc_started (dev_tx (nd_dev n))
                    then disable_paths (hs_local_tx_hopid (dev_hs (nd_dev n))) (in_hopid (dev_hs (nd_dev n))) n else n)
             else Some n) = Some n1" "nd_in_hopids n1 = {}" "nd_paths n1 = {}"
    "nd_dev n1 = (nd_dev n)\<lparr>dev_hs := (dev_hs (nd_dev n))\<lparr>in_hopid_valid := False\<rparr>\<rparr>"
    using bringup_release [OF assms(1,2)] by blast
  show ?thesis
  proof (cases "ce_in_hopid env")
    case (Inl e)
    then have "n' = n1" "r = Inl e" using assms(4) n1(1) unfolding complete_bringup_def by simp_all
    with n1(2-4) assms(2) hop_okD(3) [OF assms(1)] show ?thesis by (auto simp: hop_ok_def link_def)
  next
    case (Inr h)
    then have h: "h = p" using assms(3) by blast
    define n2 where "n2 = upd_hs (\<lambda>hs. hs\<lparr>in_hopid := p, in_hopid_valid := True\<rparr>) (n1\<lparr>nd_in_hopids := insert p (nd_in_hopids n1)\<rparr>)"
    let ?fail = "\<lambda>e d. do { n \<leftarrow> node_stop (n2\<lparr>nd_dev := d\<rparr>); n \<leftarrow> drop_in_hopid n; Some (Inl e, n) }"
    obtain d3 r4 d4 where S: "rings_start (nd_dev n2) = Some d3" "submit_rx (ce_prime env) 0 (FRAME_SIZE * 16) d3 = Some (r4, d4)"
      "(case r4 of Inl e \<Rightarrow> ?fail e d4
        | Inr _ \<Rightarrow> (case enable_loop (ce_enable env) 0 ENABLE_RETRIES of Some e \<Rightarrow> ?fail e d4
          | None \<Rightarrow> Some (Inr (), n2\<lparr>nd_dev := d4, nd_paths := insert (hs_local_tx_hopid (dev_hs d4), p) (nd_paths n2)\<rparr>))) = Some (r, n')"
      using assms(4) unfolding complete_bringup_def n1(1) Inr h n2_def [symmetric] Let_def sum.case Option.bind.simps bind_eq_Some_conv split_paired_Ex prod.case
      by (auto cong: sum.case_cong option.case_cong)
    have n2: "nd_in_hopids n2 = {p}" "nd_paths n2 = {}" "in_hopid (dev_hs (nd_dev n2)) = p" "in_hopid_valid (dev_hs (nd_dev n2))"
      "dev_state (nd_dev n2) = HANDSHAKE" "logins (dev_hs (nd_dev n2)) = logins (dev_hs (nd_dev n))"
      "hs_remote_tx_hopid (dev_hs (nd_dev n2)) = hs_remote_tx_hopid (dev_hs (nd_dev n))"
      using n1 assms(2) by (simp_all add: n2_def logins_def)
    note F = bringup_fresh [OF n2(1-5) S(1,2)]
    have ok: ?thesis if "n' = n2\<lparr>nd_dev := d4, nd_paths := insert (hs_local_tx_hopid (dev_hs d4), p) (nd_paths n2)\<rparr>" "r = Inr ()"
      using that F(1,2) hs_coreD(1-7,9) [of "dev_hs d4" "dev_hs (nd_dev n2)"] n2 by (simp add: hop_ok_def link_def ctl_def logins_def)
    show ?thesis
    proof (cases r4)
      case (Inl e)
      with S(3) have "?fail e d4 = Some (r, n')" by simp
      from F(3) [OF this] show ?thesis by simp
    next
      case (Inr u)
      show ?thesis
      proof (cases "enable_loop (ce_enable env) 0 ENABLE_RETRIES")
        case None
        with Inr S(3) ok show ?thesis by simp
      next
        case (Some e)
        with Inr S(3) have "?fail e d4 = Some (r, n')" by simp
        from F(3) [OF this] show ?thesis by simp
      qed
    qed
  qed
qed

lemma node_stop_link:
  assumes "node_stop n = Some n'"
  shows "link (nd_dev n') = (case link (nd_dev n) of (s, hs, started, ring) \<Rightarrow> (s, hs, started \<and> ring = None, ring))"
    "nd_in_hopids n' = nd_in_hopids n" "nd_paths n' = nd_paths n"
proof -
  obtain d where d: "rings_stop (nd_dev n) = Some d" "n' = n\<lparr>nd_dev := d\<rparr>" using assms by (auto simp: node_stop_def bind_eq_Some_conv)
  show "link (nd_dev n') = (case link (nd_dev n) of (s, hs, started, ring) \<Rightarrow> (s, hs, started \<and> ring = None, ring))"
    using rings_stop_ctl [OF d(1)] hs_coreD(1-3) [of "dev_hs d" "dev_hs (nd_dev n)"] d(2) unfolding ctl_def link_def prod.inject by simp
qed (use assms in \<open>auto simp: node_stop_def bind_eq_Some_conv\<close>)

lemma pools_alloc_link: "same_link n (pools_alloc env n)"
  by (auto simp: pools_alloc_def Let_def same_link_def link_def upd_dev_def split: prod.split)

lemma pools_alloc_hs: "dev_hs (nd_dev (pools_alloc env n)) = dev_hs (nd_dev n)"
  by (auto simp: pools_alloc_def Let_def upd_dev_def split: prod.split)

lemma complete_commit_stale:
  assumes "hop_ok n" "rc_started (dev_tx (nd_dev n))" "in_hopid_valid (dev_hs (nd_dev n))" "in_hopid (dev_hs (nd_dev n)) = p"
    "dev_state (nd_dev n) = HANDSHAKE" "complete_commit env p gen n = Some (r, n')" "login_stale gen n"
  shows "hop_ok n' \<and> r = Inl EAGAIN \<and> nd_in_hopids n' = {}"
proof -
  let ?n = "disable_paths (hs_local_tx_hopid (dev_hs (nd_dev n))) p n"
  obtain n1 where n1: "node_stop ?n = Some n1" "do { n \<leftarrow> drop_in_hopid n1; Some (Inl EAGAIN, n) } = Some (r, n')"
    using assms(6) unfolding complete_commit_def if_P [OF assms(7)] bind_eq_Some_conv [of "node_stop _"] by blast
  have "\<exists>n2. drop_in_hopid n1 = Some n2 \<and> hop_ok n2 \<and> nd_in_hopids n2 = {} \<and> nd_paths n2 = {}"
    using hop_okD(1-3) [OF assms(1)] assms(2-5) by (intro stop_drop_ok [OF n1(1)]) (auto simp: disable_paths_def)
  with n1(2) show ?thesis by auto
qed

lemma complete_commit_fresh:
  assumes "hop_ok n" "nd_paths n \<noteq> {}" "rc_started (dev_tx (nd_dev n))" "in_hopid_valid (dev_hs (nd_dev n))"
    "complete_commit env p gen n = Some (r, n')" "\<not> login_stale gen n"
  shows "hop_ok n' \<and> r = Inr () \<and> dev_state (nd_dev n') = CONNECTED \<and> nd_in_hopids n' = nd_in_hopids n \<and> nd_paths n' = nd_paths n \<and>
    dev_hs (nd_dev n') = (dev_hs (nd_dev n))\<lparr>connecting := False\<rparr>"
proof -
  let ?n = "set_state CONNECTED (upd_hs (\<lambda>hs. hs\<lparr>connecting := False\<rparr>) n)"
  have n': "n' = schedule VerifyWork ((pools_alloc env ?n)\<lparr>nd_timer := True\<rparr>)" "r = Inr ()"
    using assms(5,6) by (simp_all add: complete_commit_def)
  have ok: "hop_ok ?n" using assms(1-4) by (auto simp: hop_ok_def link_def)
  have l: "same_link ?n n'" using pools_alloc_link [of ?n env] by (simp add: n'(1) same_link_def)
  have "hop_ok n'" using same_link_ok [OF l] ok by simp
  moreover have "dev_state (nd_dev n') = CONNECTED" "nd_in_hopids n' = nd_in_hopids n" "nd_paths n' = nd_paths n"
    using l by (auto simp: same_link_def link_def)
  moreover have "dev_hs (nd_dev n') = (dev_hs (nd_dev n))\<lparr>connecting := False\<rparr>" by (simp add: n'(1) pools_alloc_hs)
  ultimately show ?thesis using n'(2) by blast
qed

text \<open>An event during the bring-up counts a new login generation, or changes nothing of what the peers agreed on.\<close>

definition agreed :: "node \<Rightarrow> int \<times> bool \<times> bool" where
  "agreed n = (hs_remote_tx_hopid (dev_hs (nd_dev n)), login_sent (dev_hs (nd_dev n)), login_received (dev_hs (nd_dev n)))"

definition relogin :: "node \<Rightarrow> node \<Rightarrow> bool" where
  "relogin n n' \<longleftrightarrow> login_generation (dev_hs (nd_dev n')) = login_generation (dev_hs (nd_dev n)) + 1 \<or>
    login_generation (dev_hs (nd_dev n')) = login_generation (dev_hs (nd_dev n)) \<and> agreed n' = agreed n"

lemma relogin_schedule [simp]: "relogin n (schedule w n') = relogin n n'"
  by (simp add: relogin_def agreed_def)

lemma handle_login_relogin:
  assumes "handle_login mode resp_ok buf h n = Some (r, out, n')"
  shows "relogin n n'"
proof -
  obtain path ver slots where "login_fields buf = Some (path, ver, slots)" using login_fields_total prod_cases3 by metis
  with assms show ?thesis
    by (auto simp: handle_login_def Let_def split: if_splits) (simp_all add: relogin_def agreed_def)
qed

lemma node_event_relogin:
  assumes "node_event mode e n = Some n'"
  shows "relogin n n'"
proof (cases e)
  case (Packet resp_ok buf)
  have "relogin n (handle_logout n)" "relogin n n" by (simp_all add: handle_logout_def relogin_def agreed_def)
  with assms Packet show ?thesis
    by (auto simp: node_packet_def bind_eq_Some_conv split: if_splits dest: handle_login_relogin)
next
  case (LoginRun mx reply)
  with assms show ?thesis
    by (auto simp: login_work_fn_def proto_send_login_def login_ok_def Let_def split: sum.splits if_splits prod.splits)
      (simp_all add: relogin_def agreed_def)
qed

lemma node_events_generation:
  assumes "node_events mode es n = Some n'"
  shows "\<exists>k \<le> length es. login_generation (dev_hs (nd_dev n')) = login_generation (dev_hs (nd_dev n)) + of_nat k \<and>
    (k = 0 \<longrightarrow> agreed n' = agreed n)"
  using assms
proof (induction es arbitrary: n)
  case (Cons e es)
  then obtain n1 where n1: "node_event mode e n = Some n1" "node_events mode es n1 = Some n'" by (auto simp: bind_eq_Some_conv)
  obtain k where k: "k \<le> length es" "login_generation (dev_hs (nd_dev n')) = login_generation (dev_hs (nd_dev n1)) + of_nat k"
    "k = 0 \<longrightarrow> agreed n' = agreed n1" using Cons.IH [OF n1(2)] by blast
  from node_event_relogin [OF n1(1)] show ?case unfolding relogin_def
  proof
    assume "login_generation (dev_hs (nd_dev n1)) = login_generation (dev_hs (nd_dev n)) + 1"
    with k show ?thesis by (intro exI [of _ "Suc k"]) simp
  next
    assume "login_generation (dev_hs (nd_dev n1)) = login_generation (dev_hs (nd_dev n)) \<and> agreed n1 = agreed n"
    with k show ?thesis by (intro exI [of _ k]) simp
  qed
qed simp

lemma same_generation:
  assumes "node_events mode es n = Some n'" "length es < 2 ^ 32"
    "login_generation (dev_hs (nd_dev n')) = login_generation (dev_hs (nd_dev n))"
  shows "agreed n' = agreed n"
proof -
  obtain k where k: "k \<le> length es" "login_generation (dev_hs (nd_dev n')) = login_generation (dev_hs (nd_dev n)) + of_nat k"
    "k = 0 \<longrightarrow> agreed n' = agreed n" using node_events_generation [OF assms(1)] by blast
  have "(of_nat k :: u32) = 0" using k(2) assms(3) by simp
  then have "2 ^ 32 dvd k" by (simp add: word_of_nat_eq_0_iff)
  with k(1,3) assms(2) show ?thesis by (auto dest: dvd_imp_le)
qed

lemma complete_connection_ok:
  assumes "hop_ok n" "\<And>h. ce_in_hopid env = Inr h \<Longrightarrow> h = hs_remote_tx_hopid (dev_hs (nd_dev n))" "length es < 2 ^ 32"
    "complete_connection mode env es n = Some (r, n')" "dev_state (nd_dev n) = HANDSHAKE"
  shows "hop_ok n' \<and> (r \<noteq> Inr () \<longrightarrow> nd_in_hopids n' = {}) \<and>
    (dev_state (nd_dev n') = CONNECTED \<longrightarrow> agreed n' = agreed n \<and> login_sent (dev_hs (nd_dev n)) \<and> login_received (dev_hs (nd_dev n)) \<and>
       in_hopid (dev_hs (nd_dev n')) = hs_remote_tx_hopid (dev_hs (nd_dev n)))"
proof -
  let ?p = "hs_remote_tx_hopid (dev_hs (nd_dev n))" and ?g = "login_generation (dev_hs (nd_dev n))"
  obtain go n1 where B: "complete_begin mode env n = Some (go, n1)"
    using assms(4) unfolding complete_connection_def bind_eq_Some_conv split_paired_Ex by blast
  show ?thesis
  proof (cases go)
    case None
    with assms(4) B have "n' = n1" "r = Inr ()" by (simp_all add: complete_connection_def)
    with None B show ?thesis using complete_begin_ok [OF assms(1) B] complete_begin_idle [of mode env n n1] assms(5) by auto
  next
    case (Some g)
    note b = complete_begin_go [OF B [unfolded Some]]
    obtain r2 n2 n3 where S: "complete_bringup env ?p n1 = Some (r2, n2)" "node_events mode es n2 = Some n3"
      "(case r2 of Inl e \<Rightarrow> Some (Inl e, n3) | Inr _ \<Rightarrow> complete_commit env ?p ?g n3) = Some (r, n')"
      using assms(4) unfolding complete_connection_def B Some b(3) Option.bind.simps option.case prod.case bind_eq_Some_conv split_paired_Ex by blast
    have n1: "hop_ok n1" "dev_state (nd_dev n1) = HANDSHAKE" using complete_begin_ok [OF assms(1) B] b(1,2) by simp_all
    note u = complete_bringup_ok [OF n1 assms(2) S(1)]
    have l: "same_link n2 n3" by (rule node_events_link [OF S(2)])
    then have n3: "hop_ok n3" using u same_link_ok by blast
    show ?thesis
    proof (cases r2)
      case (Inl e)
      with S(3) have n': "n' = n3" "r = Inl e" by simp_all
      have none: "nd_in_hopids n3 = {}" using u Inl l by (simp add: same_link_def)
      then have "dev_state (nd_dev n3) \<noteq> CONNECTED" using hop_okD(1,4) [OF n3] by (auto split: if_splits)
      with n' n3 none show ?thesis by simp
    next
      case (Inr x)
      then have c: "complete_commit env ?p ?g n3 = Some (r, n')" and r2: "r2 = Inr ()" using S(3) by simp_all
      have t: "nd_paths n3 \<noteq> {}" "rc_started (dev_tx (nd_dev n3))" "in_hopid_valid (dev_hs (nd_dev n3))" "in_hopid (dev_hs (nd_dev n3)) = ?p"
        "dev_state (nd_dev n3) = HANDSHAKE" using u r2 l by (simp_all add: same_link_def link_def)
      show ?thesis
      proof (cases "login_stale ?g n3")
        case True
        with complete_commit_stale [OF n3 t(2-5) c] hop_okD(1,4) [of n'] show ?thesis by (auto split: if_splits)
      next
        case False
        then have "agreed n3 = agreed n2"
          using u r2 b(2) by (intro same_generation [OF S(2) assms(3)]) (simp add: login_stale_def Let_def logins_def)
        moreover have "agreed n2 = agreed n" using u r2 b(2) by (simp add: agreed_def logins_def)
        moreover note complete_commit_fresh [OF n3 t(1-3) c False]
        ultimately show ?thesis using t(4) b(4,5) by (simp add: agreed_def)
      qed
    qed
  qed
qed

lemma restart_work_ok:
  assumes "hop_ok n" "restart_work_fn n = Some n'"
  shows "hop_ok n'" "rc_started (dev_tx (nd_dev n)) \<Longrightarrow> nd_in_hopids n' = {}" "nd_paths n' = {}"
proof -
  define n0 where "n0 = upd_hs (\<lambda>hs. hs\<lparr>pong_received := False\<rparr>)
                 (cancel_ctrl_reply (cancel {VerifyWork, ConnectWork, LoginWork} (n\<lparr>nd_timer := False\<rparr>)))"
  have l: "same_link n n0" by (simp add: n0_def same_link_def node_defs link_def)
  have ok: "hop_ok n0" using same_link_ok [OF l] assms(1) by simp
  let ?hs = "dev_hs (nd_dev n0)"
  obtain n1 where n1: "(if rc_started (dev_tx (nd_dev n0))
             then do {
               n \<leftarrow> node_stop (if in_hopid_valid ?hs then disable_paths (hs_local_tx_hopid ?hs) (in_hopid ?hs) n0 else n0);
               if in_hopid_valid (dev_hs (nd_dev n)) then drop_in_hopid n else Some n
             }
             else Some n0) = Some n1"
    "n' = schedule LoginWork (upd_hs (\<lambda>hs. hs\<lparr>login_sent := False, login_retries := 0, peer_ring_size := 0, connecting := False\<rparr>)
              (set_state HANDSHAKE n1))"
    using assms(2) unfolding restart_work_fn_def n0_def [symmetric] Let_def bind_eq_Some_conv by auto
  have "hop_ok (set_state HANDSHAKE n1) \<and> (rc_started (dev_tx (nd_dev n0)) \<longrightarrow> nd_in_hopids n1 = {}) \<and> nd_paths n1 = {}"
  proof (cases "rc_started (dev_tx (nd_dev n0))")
    case False
    with n1(1) ok hop_okD(2) [OF ok] show ?thesis by (auto simp: hop_ok_down)
  next
    case True
    let ?m = "if in_hopid_valid ?hs then disable_paths (hs_local_tx_hopid ?hs) (in_hopid ?hs) n0 else n0"
    have m: "nd_paths ?m = {}" "nd_dev ?m = nd_dev n0" "nd_in_hopids ?m = nd_in_hopids n0"
      using hop_okD(2) [OF ok] by (auto simp: disable_paths_def split: if_splits)
    obtain n2 where n2: "node_stop ?m = Some n2" "(if in_hopid_valid (dev_hs (nd_dev n2)) then drop_in_hopid n2 else Some n2) = Some n1"
      using n1(1) unfolding if_P [OF True] bind_eq_Some_conv by blast
    note st = node_stop_link [OF n2(1), unfolded m]
    have v: "in_hopid_valid (dev_hs (nd_dev n2)) = in_hopid_valid ?hs" "in_hopid (dev_hs (nd_dev n2)) = in_hopid ?hs"
      "\<not> rc_started (dev_tx (nd_dev n2))"
      using st(1) hop_okD(3) [OF ok True] by (simp_all add: link_def)
    show ?thesis
    proof (cases "in_hopid_valid ?hs")
      case vv: True
      have "nd_in_hopids n2 = {in_hopid (dev_hs (nd_dev n2))}" using st(2) v hop_okD(1) [OF ok] vv by simp
      from drop_in_hopid_ok [OF this] st(3) v n2(2) vv show ?thesis by (auto simp: hop_ok_def link_def)
    next
      case False
      with n2(2) v st hop_okD(1) [OF ok] show ?thesis by (auto simp: hop_ok_def link_def)
    qed
  qed
  then show "hop_ok n'" "rc_started (dev_tx (nd_dev n)) \<Longrightarrow> nd_in_hopids n' = {}" "nd_paths n' = {}"
    using l n1(2) by (auto simp: hop_ok_upd hop_ok_down same_link_def link_def)
qed

end
