(* ===== verification/Verify.thy ===== *)
theory Verify
  imports Link_Inv
begin

text \<open>
  Verifying the DMA path with pings and pongs, \<^verbatim>\<open>driver/odl_tb5_proto.c\<close> lines 582 to 791. What happens while the verifier waits is a
  list of events: frames that arrive, descriptors that complete, the reply work item, and the packets and logins of the handshake.
\<close>

section \<open>Control messages\<close>

text \<open>\<open>me_tx\<close> is the result of \<open>tb_ring_tx\<close> for a frame of the pool; the other two fields are those of \<open>submit_tx\<close>.\<close>

record msg_env =
  me_tx :: "errno option"
  me_drained :: "(frame_ref \<times> bool) list"
  me_ret :: "nat \<Rightarrow> errno option"

definition ctrl_desc :: "frame_slot \<Rightarrow> frame_slot" where
  "ctrl_desc slot = slot\<lparr>fs_frame := (fs_frame slot)\<lparr>rf_size := DMA_HDR_SIZE, rf_sof := PDF_SOF_CTRL, rf_eof := PDF_EOF_CTRL,
     rf_callback := TxCallback\<rparr>, fs_tx_msg := None\<rparr>"

definition send_dma_msg :: "msg_env \<Rightarrow> u32 \<Rightarrow> odl_device \<Rightarrow> ((errno + unit) \<times> odl_device) option" where
  "send_dma_msg e ty d =
     (if fp_slots (dev_pool d) \<noteq> None
      then do {
        (r, p) \<leftarrow> frame_pool_get (dev_pool d);
        let d = d\<lparr>dev_pool := p\<rparr>;
        case r of
          None \<Rightarrow> Some (Inl ENOMEM, d)
        | Some i \<Rightarrow> do {
            slot \<leftarrow> get_slot i d;
            mem \<leftarrow> fs_virt slot;
            mem \<leftarrow> mem_write 0 (dma_hdr_bytes ty) mem;
            let slot = ctrl_desc (slot\<lparr>fs_virt := Some mem\<rparr>);
            d \<leftarrow> upd_slot i (\<lambda>_. slot) d;
            d \<leftarrow> tb_ring_tx (me_tx e = None) (PoolSlot i) (slot_bytes slot) d;
            case me_tx e of
              None \<Rightarrow> Some (Inr (), d)
            | Some err \<Rightarrow> do { d \<leftarrow> pool_put i d; Some (Inl err, d) }
          }
      }
      else do {
        let c = dev_tx d;
        buf \<leftarrow> (if rc_front c < length (rc_bufs c) then Some (rc_bufs c ! rc_front c) else None);
        mem \<leftarrow> db_virt buf;
        mem \<leftarrow> mem_write 0 (dma_hdr_bytes ty) mem;
        submit_tx (me_drained e) (me_ret e) 0 DMA_HDR_SIZE True (upd_tx (set_buf (rc_front c) (buf\<lparr>db_virt := Some mem\<rparr>)) d)
      })"

definition ctrl_reply_work_fn :: "msg_env \<Rightarrow> odl_device \<Rightarrow> odl_device option" where
  "ctrl_reply_work_fn e d =
     (if verify_rx_type (dev_hs d) = DMA_PING
      then do {
        (r, d) \<leftarrow> send_dma_msg e DMA_PONG d;
        case r of
          Inr _ \<Rightarrow> Some (d\<lparr>dev_hs := (dev_hs d)\<lparr>peer_ping_answered := True, pong_received := True\<rparr>\<rparr>)
        | Inl _ \<Rightarrow> Some d
      }
      else Some d)"

text \<open>The work item runs if it is pending, be it by itself or from \<open>flush_work\<close>.\<close>

definition run_ctrl_reply :: "msg_env \<Rightarrow> odl_device \<Rightarrow> odl_device option" where
  "run_ctrl_reply e d = (if dev_ctrl_reply d then ctrl_reply_work_fn e (d\<lparr>dev_ctrl_reply := False\<rparr>) else Some d)"

section \<open>Arriving frames\<close>

text \<open>An arriving frame takes the first posted descriptor. The memory of a legacy descriptor is a frame of the posted buffer.\<close>

definition legacy_receive :: "nat \<Rightarrow> byte list \<Rightarrow> odl_device \<Rightarrow> odl_device option" where
  "legacy_receive i bs d =
     do {
       let c = dev_rx d;
       buf \<leftarrow> (if rc_posted_buf c < length (rc_bufs c) then Some (rc_bufs c ! rc_posted_buf c) else None);
       mem \<leftarrow> db_virt buf;
       mem \<leftarrow> mem_write (i * FRAME_SIZE) bs mem;
       Some (upd_rx (set_buf (rc_posted_buf c) (buf\<lparr>db_virt := Some mem\<rparr>)) d)
     }"

definition frame_arrive :: "(nat \<Rightarrow> byte list option) \<Rightarrow> (int \<Rightarrow> bool) \<Rightarrow> byte list \<Rightarrow> odl_device \<Rightarrow> odl_device option" where
  "frame_arrive kmalloc rx_ok bs d =
     (case dev_rx_pending d of
        LegacyRx i # rest \<Rightarrow> do {
          d \<leftarrow> legacy_receive i bs (d\<lparr>dev_rx_pending := rest\<rparr>);
          rx_callback kmalloc True rx_ok True (LegacyRx i) False d
        }
      | _ \<Rightarrow> rx_arrive kmalloc rx_ok bs d)"

datatype wait_event =
    TxDone frame_ref bool
  | RxFrame "nat \<Rightarrow> byte list option" "int \<Rightarrow> bool" "byte list"
  | Reply msg_env
  | Control event

fun wait_step :: "nat \<Rightarrow> wait_event \<Rightarrow> node \<Rightarrow> node option" where
  "wait_step mode (TxDone r canceled) n = map_option (\<lambda>d. n\<lparr>nd_dev := d\<rparr>) (tx_complete (r, canceled) (nd_dev n))"
| "wait_step mode (RxFrame kmalloc rx_ok bs) n = map_option (\<lambda>d. n\<lparr>nd_dev := d\<rparr>) (frame_arrive kmalloc rx_ok bs (nd_dev n))"
| "wait_step mode (Reply e) n = map_option (\<lambda>d. n\<lparr>nd_dev := d\<rparr>) (run_ctrl_reply e (nd_dev n))"
| "wait_step mode (Control e) n = node_event mode e n"

fun wait_steps :: "nat \<Rightarrow> wait_event list \<Rightarrow> node \<Rightarrow> node option" where
  "wait_steps mode [] n = Some n"
| "wait_steps mode (e # es) n = do { n \<leftarrow> wait_step mode e n; wait_steps mode es n }"

section \<open>The verifier\<close>

text \<open>Per attempt: the pending reply that is flushed, the ping that is sent, what happens during the wait, and whether a signal ends it.\<close>

record verify_env =
  ve_repost :: "int \<Rightarrow> bool"
  ve_post :: "nat \<Rightarrow> errno option"
  ve_reply :: "nat \<Rightarrow> msg_env"
  ve_ping :: "nat \<Rightarrow> msg_env"
  ve_wait :: "nat \<Rightarrow> wait_event list"
  ve_signal :: "nat \<Rightarrow> bool"
  ve_last_reply :: msg_env

definition verified :: "node \<Rightarrow> bool" where
  "verified n \<longleftrightarrow> pong_received (dev_hs (nd_dev n)) \<or> peer_ping_answered (dev_hs (nd_dev n))"

definition VERIFY_ATTEMPTS :: nat where "VERIFY_ATTEMPTS = 300"

text \<open>The loop with \<open>k\<close> attempts left: \<open>False\<close> when it leaves for \<open>out_reset\<close>.\<close>

fun verify_loop :: "nat \<Rightarrow> verify_env \<Rightarrow> nat \<Rightarrow> nat \<Rightarrow> node \<Rightarrow> (bool \<times> node) option" where
  "verify_loop mode env attempt 0 n = Some (True, n)"
| "verify_loop mode env attempt (Suc k) n =
     (if dev_state (nd_dev n) \<noteq> CONNECTED then Some (False, n)
      else if peer_ping_answered (dev_hs (nd_dev n)) then Some (True, n)
      else do {
        d \<leftarrow> run_ctrl_reply (ve_reply env attempt) (nd_dev n);
        (r, d) \<leftarrow> send_dma_msg (ve_ping env attempt) DMA_PING d;
        let n = n\<lparr>nd_dev := d\<rparr>;
        case r of
          Inl _ \<Rightarrow> Some (False, n)
        | Inr _ \<Rightarrow> do {
            n \<leftarrow> wait_steps mode (ve_wait env attempt) n;
            if verified n then Some (True, n)
            else if ve_signal env attempt then Some (False, n)
            else verify_loop mode env (Suc attempt) k n
          }
      })"

definition verify_post :: "verify_env \<Rightarrow> odl_device \<Rightarrow> (bool \<times> odl_device) option" where
  "verify_post env d =
     (if fp_slots (dev_pool d) \<noteq> None
      then do { d \<leftarrow> rx_repost (ve_repost env) (d\<lparr>dev_rx_target := int (fp_size (dev_pool d)) div 2\<rparr>); Some (True, d) }
      else do {
        (r, d) \<leftarrow> submit_rx (ve_post env) 0 (FRAME_SIZE * 16) d;
        Some (case r of Inl _ \<Rightarrow> False | Inr _ \<Rightarrow> True, d)
      })"

definition verify_failed :: "node \<Rightarrow> node" where
  "verify_failed n =
     (let n = n\<lparr>nd_timer := False\<rparr>
      in if \<not> dev_removing (nd_dev n) \<and> dev_state (nd_dev n) = CONNECTED then schedule RestartWork n else n)"

definition verify_done :: "verify_env \<Rightarrow> node \<Rightarrow> node option" where
  "verify_done env n =
     do {
       d \<leftarrow> run_ctrl_reply (ve_last_reply env) (nd_dev n);
       d \<leftarrow> rings_reset d;
       Some (n\<lparr>nd_dev := d\<lparr>dev_state := READY, dev_rx_target := 0, dev_rx_posted := 0\<rparr>, nd_timer := True\<rparr>)
     }"

definition verify_work_fn :: "nat \<Rightarrow> verify_env \<Rightarrow> node \<Rightarrow> node option" where
  "verify_work_fn mode env n =
     do {
       let n = upd_hs (\<lambda>hs. hs\<lparr>pong_received := False\<rparr>) n;
       (ok, d) \<leftarrow> verify_post env (nd_dev n);
       let n = n\<lparr>nd_dev := d\<rparr>;
       if \<not> ok then Some (verify_failed n)
       else do {
         (go, n) \<leftarrow> verify_loop mode env 0 VERIFY_ATTEMPTS n;
         if \<not> go \<or> \<not> verified n then Some (verify_failed n) else verify_done env n
       }
     }"

section \<open>What the verifier leaves alone\<close>

lemma upd_slot_steady: "upd_slot i f d = Some d' \<Longrightarrow> steady d' = steady d"
  by (auto simp: upd_slot_def steady_def bind_eq_Some_conv split: if_splits)

lemma tb_ring_tx_steady: "tb_ring_tx ok r bs d = Some d' \<Longrightarrow> steady d' = steady d"
  by (auto simp: tb_ring_tx_def split: option.splits if_splits)

lemma send_dma_msg_steady:
  assumes "send_dma_msg e ty d = Some (r, d')"
  shows "steady d' = steady d"
proof (cases "fp_slots (dev_pool d) \<noteq> None")
  case True
  obtain q p where P: "frame_pool_get (dev_pool d) = Some (q, p)"
    using assms unfolding send_dma_msg_def if_P [OF True] bind_eq_Some_conv split_paired_Ex by blast
  show ?thesis
  proof (cases q)
    case None
    with assms True P show ?thesis by (auto simp: send_dma_msg_def)
  next
    case (Some i)
    obtain slot d1 d2 where D: "upd_slot i (\<lambda>_. slot) (d\<lparr>dev_pool := p\<rparr>) = Some d1"
      "tb_ring_tx (me_tx e = None) (PoolSlot i) (slot_bytes slot) d1 = Some d2"
      "(case me_tx e of None \<Rightarrow> Some (Inr (), d2) | Some err \<Rightarrow> do { d \<leftarrow> pool_put i d2; Some (Inl err, d) }) = Some (r, d')"
      using assms P Some unfolding send_dma_msg_def if_P [OF True] Let_def by (auto simp: bind_eq_Some_conv)
    then have "steady d2 = steady d" by (auto dest!: upd_slot_steady tb_ring_tx_steady)
    with D(3) show ?thesis by (auto simp: bind_eq_Some_conv split: option.splits dest!: pool_put_steady)
  qed
next
  case False
  with assms show ?thesis
    by (auto simp: send_dma_msg_def Let_def bind_eq_Some_conv split: if_splits dest!: submit_tx_steady)
qed

lemma steady_link: "steady d' = steady d \<Longrightarrow> link d' = link d"
  by (rule ctl_link [OF steady_ctl])

lemma run_ctrl_reply_cases:
  assumes "run_ctrl_reply e d = Some d'"
  obtains "d' = d" "\<not> dev_ctrl_reply d"
  | d1 where "dev_ctrl_reply d" "steady d1 = steady (d\<lparr>dev_ctrl_reply := False\<rparr>)"
      "d' = d1 \<or> d' = d1\<lparr>dev_hs := (dev_hs d1)\<lparr>peer_ping_answered := True, pong_received := True\<rparr>\<rparr>"
proof (cases "dev_ctrl_reply d")
  case True
  let ?d = "d\<lparr>dev_ctrl_reply := False\<rparr>"
  show ?thesis
  proof (cases "verify_rx_type (dev_hs ?d) = DMA_PING")
    case ping: True
    obtain r d1 where D: "send_dma_msg e DMA_PONG ?d = Some (r, d1)"
      "(case r of Inr _ \<Rightarrow> Some (d1\<lparr>dev_hs := (dev_hs d1)\<lparr>peer_ping_answered := True, pong_received := True\<rparr>\<rparr>) | Inl _ \<Rightarrow> Some d1) = Some d'"
      using assms unfolding run_ctrl_reply_def if_P [OF True] ctrl_reply_work_fn_def if_P [OF ping] bind_eq_Some_conv split_paired_Ex prod.case
      by blast
    show ?thesis using D(2) send_dma_msg_steady [OF D(1)] True by (intro that(2) [of d1]) (auto split: sum.splits)
  next
    case False
    with assms True show ?thesis by (intro that(2) [of ?d]) (simp_all add: run_ctrl_reply_def ctrl_reply_work_fn_def)
  qed
qed (use assms that in \<open>simp add: run_ctrl_reply_def\<close>)

lemma ctrl_reply_link:
  assumes "run_ctrl_reply e d = Some d'"
  shows "link d' = link d" "peer_ping_answered (dev_hs d) \<Longrightarrow> peer_ping_answered (dev_hs d')"
  using assms by (auto elim!: run_ctrl_reply_cases simp: link_def steady_def)

lemma rx_arrive_ctl:
  assumes "rx_arrive kmalloc rx_ok bs d = Some d'"
  shows "ctl d' = ctl d"
proof -
  consider "d' = d" | i rest d1 where "upd_slot i (nhi_receive bs 0) (d\<lparr>dev_rx_pending := rest\<rparr>) = Some d1"
    "rx_callback kmalloc True rx_ok True (PoolSlot i) False d1 = Some d'"
    using assms by (auto simp: rx_arrive_def bind_eq_Some_conv split: list.splits frame_ref.splits)
  then show ?thesis by cases (auto dest!: upd_slot_steady [THEN steady_ctl] rx_callback_ctl)
qed

lemma frame_arrive_ctl:
  assumes "frame_arrive kmalloc rx_ok bs d = Some d'"
  shows "ctl d' = ctl d"
proof -
  consider "rx_arrive kmalloc rx_ok bs d = Some d'" | i rest d1 where "legacy_receive i bs (d\<lparr>dev_rx_pending := rest\<rparr>) = Some d1"
    "rx_callback kmalloc True rx_ok True (LegacyRx i) False d1 = Some d'"
    using assms by (auto simp: frame_arrive_def bind_eq_Some_conv split: list.splits frame_ref.splits)
  then show ?thesis
  proof cases
    case 2
    have "ctl d1 = ctl d" using 2(1) by (auto simp: legacy_receive_def Let_def upd_rx_def bind_eq_Some_conv split: if_splits)
    with rx_callback_ctl [OF 2(2)] show ?thesis by simp
  qed (rule rx_arrive_ctl)
qed

lemma wait_step_link: "wait_step mode e n = Some n' \<Longrightarrow> same_link n n'"
  by (cases e) (auto simp: same_link_def dest: ctrl_reply_link(1) tx_complete_steady [THEN steady_link] frame_arrive_ctl [THEN ctl_link]
      node_event_link [unfolded same_link_def])

lemma wait_steps_link: "wait_steps mode es n = Some n' \<Longrightarrow> same_link n n'"
  by (induction es arbitrary: n) (auto simp: bind_eq_Some_conv intro: same_link_trans dest!: wait_step_link)

lemma verify_loop_link: "verify_loop mode env attempt k n = Some (go, n') \<Longrightarrow> same_link n n'"
proof (induction k arbitrary: attempt n)
  case (Suc k)
  show ?case
  proof (cases "dev_state (nd_dev n) \<noteq> CONNECTED \<or> peer_ping_answered (dev_hs (nd_dev n))")
    case True
    with Suc.prems show ?thesis by (auto split: if_splits)
  next
    case False
    then have f: "\<not> dev_state (nd_dev n) \<noteq> CONNECTED" "\<not> peer_ping_answered (dev_hs (nd_dev n))" by auto
    obtain d1 r d2 where D: "run_ctrl_reply (ve_reply env attempt) (nd_dev n) = Some d1"
      "send_dma_msg (ve_ping env attempt) DMA_PING d1 = Some (r, d2)"
      "(case r of Inl _ \<Rightarrow> Some (False, n\<lparr>nd_dev := d2\<rparr>)
        | Inr _ \<Rightarrow> do {
            n \<leftarrow> wait_steps mode (ve_wait env attempt) (n\<lparr>nd_dev := d2\<rparr>);
            if verified n then Some (True, n) else if ve_signal env attempt then Some (False, n)
            else verify_loop mode env (Suc attempt) k n }) = Some (go, n')"
      using Suc.prems unfolding verify_loop.simps if_not_P [OF f(1)] if_not_P [OF f(2)] Let_def bind_eq_Some_conv split_paired_Ex prod.case by blast
    have l: "same_link n (n\<lparr>nd_dev := d2\<rparr>)"
      using ctrl_reply_link(1) [OF D(1)] steady_link [OF send_dma_msg_steady [OF D(2)]] by (simp add: same_link_def)
    show ?thesis
    proof (cases r)
      case (Inr u)
      with D(3) obtain n2 where n2: "wait_steps mode (ve_wait env attempt) (n\<lparr>nd_dev := d2\<rparr>) = Some n2"
        "n' = n2 \<or> verify_loop mode env (Suc attempt) k n2 = Some (go, n')"
        by (auto simp: bind_eq_Some_conv split: if_splits)
      with l show ?thesis by (blast intro: same_link_trans Suc.IH wait_steps_link)
    qed (use D(3) l in simp)
  qed
qed simp

lemma verify_post_steady: "verify_post env d = Some (ok, d') \<Longrightarrow> steady d' = steady d"
  by (auto simp: verify_post_def bind_eq_Some_conv split: if_splits dest!: rx_repost_steady submit_rx_steady)

lemma rings_reset_steady: "rings_reset d = Some d' \<Longrightarrow> steady d' = steady d"
  by (auto simp: rings_reset_def bind_eq_Some_conv upd_rx_def split: if_splits dest!: stop_rings_steady)

lemma verify_failed_link [simp]: "same_link n (verify_failed n)"
  by (simp add: verify_failed_def Let_def same_link_def)

lemma verify_loop_connected: "verify_loop mode env attempt k n = Some (True, n') \<Longrightarrow> 0 < k \<Longrightarrow> dev_state (nd_dev n) = CONNECTED"
  by (cases k) (simp_all split: if_splits)

lemma verify_work_cases:
  assumes "verify_work_fn mode env n = Some n'"
  obtains n1 where "same_link n n1" "n' = verify_failed n1"
  | n1 where "same_link n n1" "dev_state (nd_dev n) = CONNECTED" "verified n1" "verify_done env n1 = Some n'"
proof -
  define n0 where "n0 = upd_hs (\<lambda>hs. hs\<lparr>pong_received := False\<rparr>) n"
  have l0: "same_link n n0" by (simp add: n0_def link_upd)
  obtain ok d where P: "verify_post env (nd_dev n0) = Some (ok, d)"
    "(if \<not> ok then Some (verify_failed (n0\<lparr>nd_dev := d\<rparr>))
      else do { (go, n) \<leftarrow> verify_loop mode env 0 VERIFY_ATTEMPTS (n0\<lparr>nd_dev := d\<rparr>);
        if \<not> go \<or> \<not> verified n then Some (verify_failed n) else verify_done env n }) = Some n'"
    using assms unfolding verify_work_fn_def n0_def [symmetric] Let_def bind_eq_Some_conv split_paired_Ex prod.case by blast
  have l1: "same_link n (n0\<lparr>nd_dev := d\<rparr>)" using l0 steady_link [OF verify_post_steady [OF P(1)]] by (simp add: same_link_def)
  show thesis
  proof (cases ok)
    case True
    then obtain go n2 where L: "verify_loop mode env 0 VERIFY_ATTEMPTS (n0\<lparr>nd_dev := d\<rparr>) = Some (go, n2)"
      "(if \<not> go \<or> \<not> verified n2 then Some (verify_failed n2) else verify_done env n2) = Some n'"
      using P(2) by (auto simp: bind_eq_Some_conv)
    have l2: "same_link n n2" using l1 verify_loop_link [OF L(1)] by (rule same_link_trans)
    show thesis
    proof (cases "\<not> go \<or> \<not> verified n2")
      case True
      with L(2) l2 that(1) show thesis by auto
    next
      case False
      have "dev_state (nd_dev (n0\<lparr>nd_dev := d\<rparr>)) = CONNECTED"
        using L(1) False by (intro verify_loop_connected [of mode env 0 VERIFY_ATTEMPTS _ n2]) (simp_all add: VERIFY_ATTEMPTS_def)
      then have "dev_state (nd_dev n) = CONNECTED" using l1 by (simp add: same_link_def link_def)
      with L(2) l2 False that(2) show thesis by auto
    qed
  qed (use P(2) l1 that(1) in simp)
qed

lemma verify_done_link:
  assumes "verify_done env n = Some n'"
  shows "link (nd_dev n') = (READY, snd (link (nd_dev n)))" "nd_in_hopids n' = nd_in_hopids n" "nd_paths n' = nd_paths n"
    "dev_rx_target (nd_dev n') = 0" "dev_rx_posted (nd_dev n') = 0" "nd_timer n'"
proof -
  obtain d1 d2 where D: "run_ctrl_reply (ve_last_reply env) (nd_dev n) = Some d1" "rings_reset d1 = Some d2"
    "n' = n\<lparr>nd_dev := d2\<lparr>dev_state := READY, dev_rx_target := 0, dev_rx_posted := 0\<rparr>, nd_timer := True\<rparr>"
    using assms by (auto simp: verify_done_def bind_eq_Some_conv)
  with ctrl_reply_link(1) [OF D(1)] steady_link [OF rings_reset_steady [OF D(2)]]
  show "link (nd_dev n') = (READY, snd (link (nd_dev n)))" by (simp add: link_def)
qed (use assms in \<open>auto simp: verify_done_def bind_eq_Some_conv\<close>)

lemma verify_work_ok:
  assumes "hop_ok n" "verify_work_fn mode env n = Some n'"
  shows "hop_ok n'"
  using assms(2)
proof (cases rule: verify_work_cases)
  case (1 n1)
  then show ?thesis using assms(1) same_link_ok [OF 1(1)] same_link_ok [OF verify_failed_link [of n1]] by simp
next
  case (2 n1)
  have "hop_ok n1" using same_link_ok [OF 2(1)] assms(1) by simp
  moreover have "dev_state (nd_dev n1) = CONNECTED" using 2(1,2) by (simp add: same_link_def link_def)
  ultimately show ?thesis using verify_done_link(1-3) [OF 2(4)] by (auto simp: hop_ok_def link_def)
qed

section \<open>A silent link\<close>

text \<open>While no frame arrives, no proof that the path works appears.\<close>

definition silent :: "wait_event \<Rightarrow> bool" where
  "silent e \<longleftrightarrow> (case e of RxFrame _ _ _ \<Rightarrow> False | _ \<Rightarrow> True)"

definition unproven :: "node \<Rightarrow> bool" where
  "unproven n \<longleftrightarrow> \<not> verified n \<and> \<not> dev_ctrl_reply (nd_dev n)"

lemma steady_unproven: "steady d = steady (nd_dev n) \<Longrightarrow> unproven (n\<lparr>nd_dev := d\<rparr>) = unproven n"
  by (simp add: unproven_def verified_def steady_def)

lemma run_ctrl_reply_unproven [simp]: "unproven n \<Longrightarrow> run_ctrl_reply e (nd_dev n) = Some (nd_dev n)"
  by (simp add: unproven_def run_ctrl_reply_def)

lemma handle_login_unproven:
  assumes "handle_login mode resp_ok buf h n = Some (r, out, n')"
  shows "unproven n' = unproven n"
proof -
  obtain path ver slots where "login_fields buf = Some (path, ver, slots)" using login_fields_total prod_cases3 by metis
  with assms show ?thesis
    by (auto simp: handle_login_def Let_def split: if_splits) (simp_all add: unproven_def verified_def)
qed

lemma node_event_unproven: "node_event mode e n = Some n' \<Longrightarrow> unproven n' = unproven n"
proof (cases e)
  case (Packet resp_ok buf)
  assume "node_event mode e n = Some n'"
  moreover have "unproven (handle_logout n) = unproven n" by (simp add: handle_logout_def unproven_def verified_def)
  ultimately show ?thesis
    using Packet by (auto simp: node_packet_def bind_eq_Some_conv split: if_splits dest: handle_login_unproven)
next
  case (LoginRun mx reply)
  assume "node_event mode e n = Some n'"
  with LoginRun show ?thesis
    by (auto simp: login_work_fn_def proto_send_login_def login_ok_def Let_def split: sum.splits if_splits prod.splits)
      (simp_all add: unproven_def verified_def)
qed

lemma wait_steps_unproven:
  "wait_steps mode es n = Some n' \<Longrightarrow> unproven n \<Longrightarrow> list_all silent es \<Longrightarrow> unproven n'"
proof (induction es arbitrary: n)
  case (Cons e es)
  then obtain n1 where n1: "wait_step mode e n = Some n1" "wait_steps mode es n1 = Some n'" by (auto simp: bind_eq_Some_conv)
  have "unproven n1"
    using n1(1) Cons.prems(2,3)
    by (cases e) (auto simp: silent_def steady_unproven dest: tx_complete_steady node_event_unproven)
  with Cons.IH [OF n1(2)] Cons.prems(3) show ?case by simp
qed simp

lemma verify_loop_unproven:
  assumes "\<And>i. list_all silent (ve_wait env i)"
  shows "verify_loop mode env attempt k n = Some (go, n') \<Longrightarrow> unproven n \<Longrightarrow> unproven n'"
proof (induction k arbitrary: attempt n)
  case (Suc k)
  show ?case
  proof (cases "dev_state (nd_dev n) \<noteq> CONNECTED")
    case True
    with Suc.prems show ?thesis by auto
  next
    case False
    have f: "\<not> peer_ping_answered (dev_hs (nd_dev n))" using Suc.prems(2) by (simp add: unproven_def verified_def)
    obtain r d2 where D: "send_dma_msg (ve_ping env attempt) DMA_PING (nd_dev n) = Some (r, d2)"
      "(case r of Inl _ \<Rightarrow> Some (False, n\<lparr>nd_dev := d2\<rparr>)
        | Inr _ \<Rightarrow> do {
            n \<leftarrow> wait_steps mode (ve_wait env attempt) (n\<lparr>nd_dev := d2\<rparr>);
            if verified n then Some (True, n) else if ve_signal env attempt then Some (False, n)
            else verify_loop mode env (Suc attempt) k n }) = Some (go, n')"
      using Suc.prems(1) unfolding verify_loop.simps if_not_P [OF False] if_not_P [OF f] run_ctrl_reply_unproven [OF Suc.prems(2)]
        Option.bind.simps Let_def bind_eq_Some_conv split_paired_Ex prod.case by blast
    have u: "unproven (n\<lparr>nd_dev := d2\<rparr>)" using steady_unproven [OF send_dma_msg_steady [OF D(1)]] Suc.prems(2) by simp
    show ?thesis
    proof (cases r)
      case (Inr x)
      with D(2) obtain n2 where "wait_steps mode (ve_wait env attempt) (n\<lparr>nd_dev := d2\<rparr>) = Some n2"
        "n' = n2 \<or> verify_loop mode env (Suc attempt) k n2 = Some (go, n')"
        by (auto simp: bind_eq_Some_conv split: if_splits)
      with u Suc.IH wait_steps_unproven assms show ?thesis by blast
    qed (use D(2) u in simp)
  qed
qed simp

definition link_ring :: "nat \<Rightarrow> ring_ctx" where
  "link_ring r = sample_ring\<lparr>rc_ring := Some r, rc_frames := Some [zero_frame], rc_frames_posted := (r = 2),
     rc_bufs := replicate NUM_BUFFERS \<lparr>db_virt = Some (replicate 32 0), db_size = 32\<rparr>\<rparr>"

definition link_device :: odl_device where
  "link_device = sample_device\<lparr>dev_state := CONNECTED, dev_tx := link_ring 1, dev_rx := link_ring 2, dev_pool := sample_pool\<lparr>fp_slots := None\<rparr>\<rparr>"

definition link_node :: node where
  "link_node = \<lparr>nd_route = 1, nd_dev = link_device, nd_res = full_res, nd_in_hopids = {8}, nd_paths = {(8, 8)}, nd_work = {},
     nd_timer = True, nd_pool_live = [], nd_batch_live = []\<rparr>"

definition sample_msg :: msg_env where
  "sample_msg = \<lparr>me_tx = None, me_drained = [], me_ret = (\<lambda>_. None)\<rparr>"

definition silent_env :: verify_env where
  "silent_env = \<lparr>ve_repost = (\<lambda>_. True), ve_post = (\<lambda>_. None), ve_reply = (\<lambda>_. sample_msg), ve_ping = (\<lambda>_. sample_msg), ve_wait = (\<lambda>_. []),
     ve_signal = (\<lambda>_. True), ve_last_reply = sample_msg\<rparr>"

lemmas link_samples = link_node_def link_device_def link_ring_def sample_device_def sample_ring_def sample_hs_def sample_msg_def silent_env_def NUM_BUFFERS_def

lemma link_node_ping:
  "\<exists>d'. send_dma_msg sample_msg DMA_PING (nd_dev (upd_hs (\<lambda>hs. hs\<lparr>pong_received := False\<rparr>) link_node)) = Some (Inr (), d')"
proof -
  have "nframes_of 16 = 1" by (simp add: nframes_of_def size_t_def driver_consts)
  then show ?thesis
    by (simp add: send_dma_msg_def link_samples Let_def mem_write_def mem_read_def driver_consts dma_hdr_bytes_def submit_tx_def
        submit_tx_drain_def upd_tx_def set_buf_def submittable_def size_t_def post_tx_def get_frame_def set_frame_def tb_ring_tx_def)
qed

lemma link_node_verify:
  "verify_work_fn 0 silent_env link_node \<noteq> None"
  "verify_work_fn 0 silent_env (upd_hs (\<lambda>hs. hs\<lparr>peer_ping_answered := True\<rparr>) link_node) \<noteq> None"
proof -
  let ?n = "upd_hs (\<lambda>hs. hs\<lparr>pong_received := False\<rparr>) link_node"
  let ?m = "upd_hs (\<lambda>hs. hs\<lparr>pong_received := False\<rparr>) (upd_hs (\<lambda>hs. hs\<lparr>peer_ping_answered := True\<rparr>) link_node)"
  have same: "n\<lparr>nd_dev := nd_dev n\<rparr> = n" for n :: node by simp
  obtain k where k: "VERIFY_ATTEMPTS = Suc k" by (simp add: VERIFY_ATTEMPTS_def numeral_eq_Suc)
  obtain d where d: "send_dma_msg sample_msg DMA_PING (nd_dev ?n) = Some (Inr (), d)" using link_node_ping by blast
  have post: "verify_post silent_env (nd_dev ?n) = Some (True, nd_dev ?n)" "verify_post silent_env (nd_dev ?m) = Some (True, nd_dev ?m)"
    by (simp_all add: verify_post_def submit_rx_def submittable_def link_samples)
  have env: "ve_ping silent_env = (\<lambda>_. sample_msg)" "ve_wait silent_env = (\<lambda>_. [])" "ve_signal silent_env = (\<lambda>_. True)"
    by (simp_all add: silent_env_def)
  have u: "unproven ?n" "dev_state (nd_dev ?n) = CONNECTED" "dev_state (nd_dev ?m) = CONNECTED" "peer_ping_answered (dev_hs (nd_dev ?m))"
    by (simp_all add: unproven_def verified_def link_samples)
  have "verified (?n\<lparr>nd_dev := d\<rparr>) = verified ?n"
    using steady_unproven [OF send_dma_msg_steady [OF d]] send_dma_msg_steady [OF d] by (simp add: verified_def steady_def)
  then have "verify_loop 0 silent_env 0 VERIFY_ATTEMPTS ?n = Some (False, ?n\<lparr>nd_dev := d\<rparr>)"
    unfolding k verify_loop.simps using u(1,2) d env by (simp add: unproven_def verified_def run_ctrl_reply_def)
  then show "verify_work_fn 0 silent_env link_node \<noteq> None"
    unfolding verify_work_fn_def Let_def post(1) Option.bind.simps prod.case same by simp
  have "verify_loop 0 silent_env 0 VERIFY_ATTEMPTS ?m = Some (True, ?m)" unfolding k verify_loop.simps using u(3,4) by simp
  moreover have "verify_done silent_env ?m \<noteq> None"
    by (simp add: verify_done_def run_ctrl_reply_def rings_reset_def tb_ring_stop_tx_def tb_ring_stop_rx_def link_samples upd_tx_def reset_counts_def)
  ultimately show "verify_work_fn 0 silent_env (upd_hs (\<lambda>hs. hs\<lparr>peer_ping_answered := True\<rparr>) link_node) \<noteq> None"
    using u(4) unfolding verify_work_fn_def Let_def post(2) Option.bind.simps prod.case same by (simp add: verified_def)
qed

text \<open>C26: The verifier decides. When it returns on a connected device, either the device is ready, with no receive frames posted and the
  poll timer running, or the timer is stopped and the connection is restarted, unless the device is being removed.\<close>

theorem verify_decides:
  assumes "dev_state (nd_dev n) = CONNECTED" "verify_work_fn mode env n = Some n'"
  shows "dev_state (nd_dev n') = READY \<and> dev_rx_target (nd_dev n') = 0 \<and> dev_rx_posted (nd_dev n') = 0 \<and> nd_timer n' \<or>
    dev_state (nd_dev n') = CONNECTED \<and> \<not> nd_timer n' \<and> (RestartWork \<in> nd_work n' \<or> dev_removing (nd_dev n'))"
  using assms(2)
proof (cases rule: verify_work_cases)
  case (1 n1)
  then have "dev_state (nd_dev n1) = CONNECTED" using assms(1) by (simp add: same_link_def link_def)
  with 1(2) show ?thesis by (simp add: verify_failed_def Let_def schedule_def)
next
  case (2 n1)
  then show ?thesis using verify_done_link [OF 2(4)] by (simp add: link_def)
qed

theorem verify_decides_witness:
  "\<exists>n'. verify_work_fn 0 silent_env link_node = Some n' \<and>
    (dev_state (nd_dev n') = READY \<and> dev_rx_target (nd_dev n') = 0 \<and> dev_rx_posted (nd_dev n') = 0 \<and> nd_timer n' \<or>
    dev_state (nd_dev n') = CONNECTED \<and> \<not> nd_timer n' \<and> (RestartWork \<in> nd_work n' \<or> dev_removing (nd_dev n')))"
proof -
  obtain n' where n': "verify_work_fn 0 silent_env link_node = Some n'" using link_node_verify(1) by blast
  show ?thesis using verify_decides [OF _ n'] n' by (simp add: link_node_def link_device_def)
qed

text \<open>C27: A link that delivers nothing is never declared ready: if no frame arrives, no reply is pending and the device has not answered a
  ping before, the verifier gives up, whatever else happens while it waits.\<close>

theorem verify_needs_frame:
  assumes "dev_state (nd_dev n) = CONNECTED" "\<not> peer_ping_answered (dev_hs (nd_dev n))" "\<not> dev_ctrl_reply (nd_dev n)"
    "\<And>i. list_all silent (ve_wait env i)" "verify_work_fn mode env n = Some n'"
  shows "dev_state (nd_dev n') = CONNECTED \<and> \<not> verified n'"
proof -
  define n0 where "n0 = upd_hs (\<lambda>hs. hs\<lparr>pong_received := False\<rparr>) n"
  have n0: "unproven n0" "dev_state (nd_dev n0) = CONNECTED" using assms(1-3) by (simp_all add: n0_def unproven_def verified_def)
  obtain ok d where P: "verify_post env (nd_dev n0) = Some (ok, d)"
    "(if \<not> ok then Some (verify_failed (n0\<lparr>nd_dev := d\<rparr>))
      else do { (go, n) \<leftarrow> verify_loop mode env 0 VERIFY_ATTEMPTS (n0\<lparr>nd_dev := d\<rparr>);
        if \<not> go \<or> \<not> verified n then Some (verify_failed n) else verify_done env n }) = Some n'"
    using assms(5) unfolding verify_work_fn_def n0_def [symmetric] Let_def bind_eq_Some_conv split_paired_Ex prod.case by blast
  have u: "unproven (n0\<lparr>nd_dev := d\<rparr>)" "dev_state d = CONNECTED"
    using n0 verify_post_steady [OF P(1)] by (simp_all add: steady_unproven) (simp add: steady_def)
  obtain n2 where n2: "n' = verify_failed n2" "unproven n2" "dev_state (nd_dev n2) = CONNECTED"
  proof (cases ok)
    case True
    then obtain go n2 where L: "verify_loop mode env 0 VERIFY_ATTEMPTS (n0\<lparr>nd_dev := d\<rparr>) = Some (go, n2)"
      "(if \<not> go \<or> \<not> verified n2 then Some (verify_failed n2) else verify_done env n2) = Some n'"
      using P(2) by (auto simp: bind_eq_Some_conv)
    have "unproven n2" by (rule verify_loop_unproven [OF assms(4) L(1) u(1)])
    moreover have "dev_state (nd_dev n2) = CONNECTED" using verify_loop_link [OF L(1)] u(2) by (simp add: same_link_def link_def)
    ultimately show thesis using L(2) by (intro that [of n2]) (simp_all add: unproven_def)
  next
    case False
    with P(2) u show thesis by (intro that [of "n0\<lparr>nd_dev := d\<rparr>"]) simp_all
  qed
  then show ?thesis by (simp add: verify_failed_def Let_def unproven_def verified_def)
qed


theorem verify_needs_frame_witness:
  "\<exists>n'. verify_work_fn 0 silent_env link_node = Some n' \<and> dev_state (nd_dev n') = CONNECTED \<and> \<not> verified n'"
proof -
  obtain n' where n': "verify_work_fn 0 silent_env link_node = Some n'" using link_node_verify(1) by blast
  show ?thesis
    using verify_needs_frame [OF _ _ _ _ n'] n'
    by (simp add: silent_env_def link_node_def link_device_def sample_device_def sample_hs_def)
qed

section \<open>The proof outlives the connection\<close>

lemma drop_in_hopid_answered: "drop_in_hopid n = Some n' \<Longrightarrow> peer_ping_answered (dev_hs (nd_dev n')) = peer_ping_answered (dev_hs (nd_dev n))"
  by (auto simp: drop_in_hopid_def release_in_hopid_def bind_eq_Some_conv split: if_splits)

lemma node_stop_answered:
  assumes "node_stop n = Some n'"
  shows "peer_ping_answered (dev_hs (nd_dev n')) = peer_ping_answered (dev_hs (nd_dev n))"
proof -
  obtain d where d: "rings_stop (nd_dev n) = Some d" "n' = n\<lparr>nd_dev := d\<rparr>" using assms by (auto simp: node_stop_def bind_eq_Some_conv)
  with rings_stop_ctl [OF d(1)] hs_coreD(8) [of "dev_hs d" "dev_hs (nd_dev n)"] show ?thesis by (simp add: ctl_def)
qed

lemma restart_work_answered:
  assumes "restart_work_fn n = Some n'"
  shows "peer_ping_answered (dev_hs (nd_dev n')) = peer_ping_answered (dev_hs (nd_dev n))"
  using assms
  by (auto simp: restart_work_fn_def Let_def bind_eq_Some_conv cancel_ctrl_reply_def cancel_def disable_paths_def upd_dev_def
      split: if_splits dest!: node_stop_answered drop_in_hopid_answered)

text \<open>C28: Restarting a connection does not forget that a ping was answered on the old one, and a device that has ever answered a ping passes
  the next verification at once: whatever the new path does, the loop ends in its first round, with no ping sent and no frame received.\<close>

theorem old_ping_verifies:
  assumes "peer_ping_answered (dev_hs (nd_dev n))" "restart_work_fn n = Some n1"
    "peer_ping_answered (dev_hs (nd_dev m)) = peer_ping_answered (dev_hs (nd_dev n1))" "dev_state (nd_dev m) = CONNECTED"
  shows "verify_loop mode env 0 VERIFY_ATTEMPTS m = Some (True, m) \<and> verified m"
proof -
  have "peer_ping_answered (dev_hs (nd_dev m))" using restart_work_answered [OF assms(2)] assms(1,3) by simp
  moreover obtain k where k: "VERIFY_ATTEMPTS = Suc k" by (simp add: VERIFY_ATTEMPTS_def numeral_eq_Suc)
  ultimately show ?thesis unfolding k verify_loop.simps using assms(4) by (simp add: verified_def)
qed

theorem old_ping_verifies_witness:
  "\<exists>n1. restart_work_fn (upd_hs (\<lambda>hs. hs\<lparr>peer_ping_answered := True\<rparr>) link_node) = Some n1 \<and>
     verify_loop 0 silent_env 0 VERIFY_ATTEMPTS (set_state CONNECTED n1) = Some (True, set_state CONNECTED n1) \<and> verified (set_state CONNECTED n1)"
proof -
  let ?n = "upd_hs (\<lambda>hs. hs\<lparr>peer_ping_answered := True\<rparr>) link_node"
  have "restart_work_fn ?n \<noteq> None"
    by (simp add: restart_work_fn_def node_stop_def rings_stop_def tb_ring_stop_tx_def tb_ring_stop_rx_def link_samples upd_tx_def upd_rx_def
        drop_in_hopid_def release_in_hopid_def node_defs)
  then obtain n1 where n1: "restart_work_fn ?n = Some n1" by blast
  show ?thesis
    using old_ping_verifies [OF _ n1, where m = "set_state CONNECTED n1" and mode = 0 and env = silent_env] n1 by simp
qed

end
