(* ===== verification/Link_Life.thy ===== *)
theory Link_Life
  imports Verify
begin

text \<open>
  The life of a link: the steps of the handshake, the verifier and the data path in any order, what two hosts learn of each other by a
  login, how they agree on a ring depth, and how often a login is tried.
\<close>

section \<open>Steps\<close>

text \<open>\<open>tb_xdomain_alloc_in_hopid\<close> returns the HopID it is asked for when this one is free.\<close>

definition hopid_granted :: "conn_env \<Rightarrow> node \<Rightarrow> bool" where
  "hopid_granted env n \<longleftrightarrow> (case ce_in_hopid env of Inl _ \<Rightarrow> True | Inr h \<Rightarrow> h = hs_remote_tx_hopid (dev_hs (nd_dev n)))"

text \<open>An event, a work item that is pending, or anything the data path does: sending, receiving, opening and closing streams.\<close>

inductive link_step :: "nat \<Rightarrow> node \<Rightarrow> node \<Rightarrow> bool" for mode where
  event: "wait_step mode e n = Some n' \<Longrightarrow> link_step mode n n'"
| connect: "ConnectWork \<in> nd_work n \<Longrightarrow> hopid_granted env n \<Longrightarrow> length es < 2 ^ 32 \<Longrightarrow>
    connect_work_fn mode env es (cancel {ConnectWork} n) = Some n' \<Longrightarrow> link_step mode n n'"
| verify: "VerifyWork \<in> nd_work n \<Longrightarrow> verify_work_fn mode env (cancel {VerifyWork} n) = Some n' \<Longrightarrow> link_step mode n n'"
| restart: "RestartWork \<in> nd_work n \<Longrightarrow> restart_work_fn (cancel {RestartWork} n) = Some n' \<Longrightarrow> link_step mode n n'"
| io: "ctl d = ctl (nd_dev n) \<Longrightarrow> link_step mode n (n\<lparr>nd_dev := d\<rparr>)"

lemma cancel_same [simp]: "nd_dev (cancel ws n) = nd_dev n" "nd_in_hopids (cancel ws n) = nd_in_hopids n" "nd_paths (cancel ws n) = nd_paths n"
  by (simp_all add: cancel_def)

lemma cancel_ok [simp]: "hop_ok (cancel ws n) = hop_ok n"
  by (rule same_link_ok) (simp add: same_link_def)

lemma cancel_granted [simp]: "hopid_granted env (cancel ws n) = hopid_granted env n"
  by (simp add: hopid_granted_def split: sum.split)

lemma complete_connection_idle:
  assumes "complete_connection mode env es n = Some (r, n')" "dev_state (nd_dev n) \<noteq> HANDSHAKE"
  shows "r = Inr () \<and> n' = n"
proof -
  have "complete_begin mode env n = Some (None, n)" using assms(2) by (simp add: complete_begin_def Let_def)
  with assms(1) show ?thesis by (simp add: complete_connection_def)
qed

lemma connect_work_ok:
  assumes "hop_ok n" "hopid_granted env n" "length es < 2 ^ 32" "connect_work_fn mode env es n = Some n'"
  shows "hop_ok n'"
proof -
  obtain r n1 where c: "complete_connection mode env es n = Some (r, n1)"
    "(case r of Inr _ \<Rightarrow> Some n1 | Inl _ \<Rightarrow> Some (schedule LoginWork
           (upd_hs (\<lambda>hs. hs\<lparr>connecting := False, login_sent := False, login_received := False\<rparr>) n1))) = Some n'"
    using assms(4) unfolding connect_work_fn_def bind_eq_Some_conv split_paired_Ex prod.case by blast
  have "hop_ok n1"
  proof (cases "dev_state (nd_dev n) = HANDSHAKE")
    case True
    have "h = hs_remote_tx_hopid (dev_hs (nd_dev n))" if "ce_in_hopid env = Inr h" for h
      using assms(2) that by (simp add: hopid_granted_def)
    from complete_connection_ok [OF assms(1) this assms(3) c(1) True] show ?thesis by blast
  next
    case False
    from complete_connection_idle [OF c(1) False] assms(1) show ?thesis by simp
  qed
  with c(2) show ?thesis by (auto simp: hop_ok_upd split: sum.splits)
qed

lemma link_step_ok: "link_step mode n n' \<Longrightarrow> hop_ok n \<Longrightarrow> hop_ok n'"
proof (induction rule: link_step.induct)
  case (event e n n')
  from same_link_ok [OF wait_step_link [OF event(1)]] event(2) show ?case by simp
next
  case (connect n env es n')
  then show ?case by (intro connect_work_ok [OF _ _ connect(3,4)]) simp_all
next
  case (verify n env n')
  then show ?case by (intro verify_work_ok [OF _ verify(2)]) simp
next
  case (restart n n')
  then show ?case by (intro restart_work_ok(1) [OF _ restart(2)]) simp
next
  case (io d n)
  then show ?case using same_link_ok [of n "n\<lparr>nd_dev := d\<rparr>"] ctl_link [OF io(1)] by (simp add: same_link_def)
qed

lemma link_steps_ok: "(link_step mode)\<^sup>*\<^sup>* n n' \<Longrightarrow> hop_ok n \<Longrightarrow> hop_ok n'"
  by (induction rule: rtranclp_induct) (auto intro: link_step_ok)

text \<open>C20: HopIDs and paths are accounted for. From a node that holds nothing, through any sequence of packets, logins, connections,
  verifications, restarts, frames and completions: at most one input HopID and one path are held, the HopID that the device records is
  allocated, so that releasing it is defined, and a device that is connected or ready has exactly the path between its
  two HopIDs, on running rings.\<close>

theorem link_accounting:
  assumes "nd_in_hopids n = {}" "nd_paths n = {}" "\<not> in_hopid_valid (dev_hs (nd_dev n))" "\<not> rc_started (dev_tx (nd_dev n))"
    "(link_step mode)\<^sup>*\<^sup>* (proto_init n) n'"
  shows "card (nd_in_hopids n') \<le> 1 \<and> card (nd_paths n') \<le> 1 \<and>
    (in_hopid_valid (dev_hs (nd_dev n')) \<longrightarrow> drop_in_hopid n' \<noteq> None) \<and>
    (dev_state (nd_dev n') = CONNECTED \<or> dev_state (nd_dev n') = READY \<longrightarrow>
       nd_in_hopids n' = {in_hopid (dev_hs (nd_dev n'))} \<and>
       nd_paths n' = {(hs_local_tx_hopid (dev_hs (nd_dev n')), in_hopid (dev_hs (nd_dev n')))} \<and>
       rc_started (dev_tx (nd_dev n')) \<and> rc_ring (dev_tx (nd_dev n')) \<noteq> None)"
proof -
  let ?hs = "dev_hs (nd_dev n')"
  have "hop_ok (proto_init n)" using assms(1-4) by (simp add: proto_init_def hop_ok_def link_def)
  from link_steps_ok [OF assms(5) this] have ok: "hop_ok n'" .
  note k = hop_okD [OF ok]
  have "card (nd_in_hopids n') \<le> 1" using k(1) by simp
  moreover have "card (nd_paths n') \<le> 1"
  proof -
    have "nd_paths n' \<subseteq> {(hs_local_tx_hopid ?hs, in_hopid ?hs)}" using k(2) by (auto split: if_splits)
    from card_mono [OF _ this] show ?thesis by simp
  qed
  moreover have "in_hopid_valid ?hs \<longrightarrow> drop_in_hopid n' \<noteq> None"
    using k(1) drop_in_hopid_ok [of n'] by (auto split: if_splits)
  moreover have "dev_state (nd_dev n') = CONNECTED \<or> dev_state (nd_dev n') = READY \<longrightarrow> nd_in_hopids n' = {in_hopid ?hs} \<and>
      nd_paths n' = {(hs_local_tx_hopid ?hs, in_hopid ?hs)} \<and> rc_started (dev_tx (nd_dev n')) \<and> rc_ring (dev_tx (nd_dev n')) \<noteq> None"
    using k by (auto split: if_splits)
  ultimately show ?thesis by blast
qed


section \<open>Packets\<close>

lemma find_device_bound: "find_device_by_route route ns = Some i \<Longrightarrow> i < length ns"
  by (induction route ns arbitrary: i rule: find_device_by_route.induct) (auto split: if_splits)

lemma handle_login_total: "\<exists>out n'. handle_login mode resp_ok buf h n = Some (True, [out], n') \<and> nd_route n' = nd_route n"
proof -
  obtain path ver slots where "login_fields buf = Some (path, ver, slots)" using login_fields_total prod_cases3 by metis
  then show ?thesis by (simp add: handle_login_def Let_def schedule_def)
qed

lemma node_packet_total:
  assumes "XD_HEADER_SIZE \<le> length buf"
  shows "\<exists>r out n'. node_packet mode resp_ok buf n = Some (r, out, n') \<and> length out \<le> 1 \<and> nd_route n' = nd_route n"
proof -
  obtain h where h: "xd_header_of buf = Some h" using xd_header_total [OF assms] by blast
  obtain out n' where l: "handle_login mode resp_ok buf h n = Some (True, [out], n')" "nd_route n' = nd_route n"
    using handle_login_total by blast
  show ?thesis
  proof (cases "xh_type h = MSG_LOGIN")
    case True
    with h l show ?thesis by (auto simp: node_packet_def)
  next
    case False
    with h show ?thesis by (auto simp: node_packet_def handle_logout_def schedule_def)
  qed
qed


section \<open>Login\<close>

abbreviation depth :: "node \<Rightarrow> nat" where
  "depth n \<equiv> rc_ring_size (dev_tx (nd_dev n))"

text \<open>A node that can log in: its HopID and ring depth fit their fields.\<close>

definition presentable :: "node \<Rightarrow> bool" where
  "presentable n \<longleftrightarrow> (case hs_local_tx_hopid (dev_hs (nd_dev n)) of h \<Rightarrow> 0 \<le> h \<and> h < 2 ^ 31) \<and>
     is_power_of_2 (depth n) \<and> RING_SIZE_MIN \<le> depth n \<and> depth n \<le> RING_SIZE_MAX"

lemma sint_hopid: "0 \<le> h \<Longrightarrow> h < 2 ^ 31 \<Longrightarrow> sint (word_of_int h :: u32) = h"
  by transfer (simp add: signed_take_bit_int_eq_self)

lemma depth_field:
  assumes "is_power_of_2 k" "RING_SIZE_MIN \<le> k" "k \<le> RING_SIZE_MAX"
  shows "unat (of_nat k :: u32) = k" "ring_depth_ok (of_nat k)"
proof -
  have "k < 2 ^ 32" using assms(3) by (simp add: driver_consts)
  then show u: "unat (of_nat k :: u32) = k" by (simp add: unat_of_nat take_bit_nat_eq_self)
  then show "ring_depth_ok (of_nat k)" using assms by (auto simp: ring_depth_ok_def driver_consts)
qed

lemma login_request_read:
  "login_fields (login_msg_bytes (login_request a)) = Some (word_of_int (hs_local_tx_hopid (dev_hs (nd_dev a))), PROTOCOL_VER, of_nat (depth a))"
  "xd_header_of (login_msg_bytes (login_request a)) = Some (lm_hdr (login_request a))"
  "length (login_msg_bytes (login_request a)) = LOGIN_MSG_SIZE" "xh_type (lm_hdr (login_request a)) = MSG_LOGIN"
proof -
  have u: "uuid_ok (lm_hdr (login_request a))" by (simp add: login_request_def xd_header_init_def uuid_ok_def)
  show "login_fields (login_msg_bytes (login_request a)) = Some (word_of_int (hs_local_tx_hopid (dev_hs (nd_dev a))), PROTOCOL_VER, of_nat (depth a))"
    using login_fields_msg [OF u] by (simp add: login_request_def)
  show "xd_header_of (login_msg_bytes (login_request a)) = Some (lm_hdr (login_request a))"
    using xd_header_roundtrip [OF u] by (simp add: login_msg_bytes_def)
  show "length (login_msg_bytes (login_request a)) = LOGIN_MSG_SIZE" by (rule login_msg_roundtrip(2) [OF u])
  show "xh_type (lm_hdr (login_request a)) = MSG_LOGIN" by (simp add: login_request_def xd_header_init_def)
qed

text \<open>C23: A login tells both sides the truth. The request of one host, written to the wire, read and accepted by the other, gives this one
  the sender's HopID and ring depth; its response, written and read back, passes every check of the sender and gives it the other's HopID and
  ring depth.\<close>

theorem login_exchange:
  assumes "presentable a" "presentable b" "dev_state (nd_dev b) \<noteq> ERROR"
  shows "\<exists>resp b' m a'. node_packet 0 True (login_msg_bytes (login_request a)) b = Some (True, [resp], b') \<and>
    login_received (dev_hs (nd_dev b')) \<and> hs_remote_tx_hopid (dev_hs (nd_dev b')) = hs_local_tx_hopid (dev_hs (nd_dev a)) \<and>
    peer_ring_size (dev_hs (nd_dev b')) = depth a \<and>
    login_msg_of (login_msg_bytes resp) = Some m \<and> proto_send_login 0 (Inr m) a = (Inr (), a') \<and>
    login_sent (dev_hs (nd_dev a')) \<and> hs_remote_tx_hopid (dev_hs (nd_dev a')) = hs_local_tx_hopid (dev_hs (nd_dev b)) \<and>
    peer_ring_size (dev_hs (nd_dev a')) = depth b"
proof -
  let ?req = "login_request a"
  note read = login_request_read [of a]
  have A: "sint (word_of_int (hs_local_tx_hopid (dev_hs (nd_dev a))) :: u32) = hs_local_tx_hopid (dev_hs (nd_dev a))"
    "sint (word_of_int (hs_local_tx_hopid (dev_hs (nd_dev b))) :: u32) = hs_local_tx_hopid (dev_hs (nd_dev b))"
    using assms(1,2) by (auto simp: presentable_def intro!: sint_hopid)
  have D: "unat (of_nat (depth a) :: u32) = depth a" "ring_depth_ok (of_nat (depth a))"
    "unat (of_nat (depth b) :: u32) = depth b" "ring_depth_ok (of_nat (depth b))"
    using assms(1,2) depth_field by (auto simp: presentable_def)
  let ?resp = "login_response b (lm_hdr ?req) LOGIN_STATUS_OK (word_of_int (hs_local_tx_hopid (dev_hs (nd_dev b)))) (of_nat (depth b))"
  have "\<exists>b'. node_packet 0 True (login_msg_bytes ?req) b = Some (True, [?resp], b') \<and>
    login_received (dev_hs (nd_dev b')) \<and> hs_remote_tx_hopid (dev_hs (nd_dev b')) = hs_local_tx_hopid (dev_hs (nd_dev a)) \<and>
    peer_ring_size (dev_hs (nd_dev b')) = depth a"
    using read A D assms(3) by (simp add: node_packet_def handle_login_def Let_def)
  moreover have "login_msg_of (login_msg_bytes ?resp) = Some ?resp"
    using login_msg_roundtrip(1) [of ?resp "[]"] by (simp add: login_response_def uuid_ok_def)
  moreover have "\<exists>a'. proto_send_login 0 (Inr ?resp) a = (Inr (), a') \<and>
    login_sent (dev_hs (nd_dev a')) \<and> hs_remote_tx_hopid (dev_hs (nd_dev a')) = hs_local_tx_hopid (dev_hs (nd_dev b)) \<and>
    peer_ring_size (dev_hs (nd_dev a')) = depth b"
    using A D by (simp add: proto_send_login_def login_response_def login_ok_def Let_def driver_consts)
  ultimately show ?thesis by blast
qed

section \<open>Agreeing on a ring depth\<close>

text \<open>A node that has exchanged logins with a peer of depth \<open>p\<close> and whose rings are at rest.\<close>

definition negotiating :: "nat \<Rightarrow> conn_env \<Rightarrow> node \<Rightarrow> bool" where
  "negotiating p env n \<longleftrightarrow> dev_state (nd_dev n) = HANDSHAKE \<and> \<not> connecting (dev_hs (nd_dev n)) \<and> login_sent (dev_hs (nd_dev n)) \<and>
     login_received (dev_hs (nd_dev n)) \<and> peer_ring_size (dev_hs (nd_dev n)) = p \<and>
     holds (nd_res n) (nd_dev n) \<and> provisioned (depth n) (nd_dev n) \<and>
     \<not> rc_started (dev_tx (nd_dev n)) \<and> \<not> rc_started (dev_rx (nd_dev n)) \<and>
     fresh_env (fst (ce_resize1 env)) \<and> fresh_env (fst (ce_resize2 env))"

lemma complete_begin_negotiates:
  assumes "negotiating p env n" "is_power_of_2 p" "RING_SIZE_MIN \<le> p" "p \<le> RING_SIZE_MAX"
    "is_power_of_2 (depth n)" "RING_SIZE_MIN \<le> depth n" "depth n \<le> RING_SIZE_MAX"
  shows "\<exists>go n'. complete_begin 0 env n = Some (go, n') \<and> holds (nd_res n') (nd_dev n') \<and> (go \<noteq> None \<longleftrightarrow> depth n = p) \<and>
    (dev_state (nd_dev n') = ERROR \<or> depth n' = min (depth n) p \<and> (depth n = p \<or> LoginWork \<in> nd_work n'))"
proof -
  let ?d = "nd_dev n" and ?hs = "dev_hs (nd_dev n)" and ?l = "depth n"
  have busy: "\<not> (dev_state ?d \<noteq> HANDSHAKE \<or> connecting ?hs \<or> \<not> login_sent ?hs \<or> \<not> login_received ?hs)" "peer_ring_size ?hs = p"
    using assms(1) by (simp_all add: negotiating_def)
  have neg: "ring_depth_ok (of_nat p)" by (rule depth_field(2) [OF assms(2-4)])
  show ?thesis
  proof (cases "p < ?l")
    case True
    have sz: "ring_size_of ?l = ?l" "ring_size_of p = p" using assms(2-7) by (simp_all add: ring_size_of_id)
    obtain ret res' d' where R: "rings_resize (ce_resize1 env) (ce_resize2 env) p (nd_res n) ?d = Some (ret, res', d')" "holds res' d'"
      "case ret of Inr _ \<Rightarrow> provisioned p d' | Inl e \<Rightarrow> provisioned ?l d' \<and> e = ENOMEM \<or> unbuffered d'"
      using rings_resize_cases [of "nd_res n" ?d ?l "ce_resize1 env" "ce_resize2 env" p] assms(1) True sz(1)
      unfolding sz(2) negotiating_def by blast
    have m: "min ?l p = p" using True by simp
    show ?thesis
      using R neg True unfolding complete_begin_def Let_def if_not_P [OF busy(1)] busy(2) m
      by (cases ret) (simp_all add: holds_def provisioned_def equipped_def)
  next
    case False
    then have m: "min ?l p = ?l" by simp
    show ?thesis
      using assms(1) neg False unfolding complete_begin_def Let_def if_not_P [OF busy(1)] busy(2) m
      by (auto simp: negotiating_def holds_def)
  qed
qed

text \<open>C24: Two hosts that know each other's ring depth agree on the smaller one. Whichever allocations fail, no resource is lost; each host
  ends with the smaller depth, or in the error state if it cannot shrink its rings; and a host goes on to bring the link up exactly if the
  depths were equal, otherwise it logs in again.\<close>

theorem depth_negotiation:
  assumes "negotiating (depth b) env a" "negotiating (depth a) env' b" "presentable a" "presentable b"
  shows "\<exists>go a' go' b'. complete_begin 0 env a = Some (go, a') \<and> complete_begin 0 env' b = Some (go', b') \<and>
    holds (nd_res a') (nd_dev a') \<and> holds (nd_res b') (nd_dev b') \<and>
    (dev_state (nd_dev a') = ERROR \<or> dev_state (nd_dev b') = ERROR \<or> depth a' = depth b' \<and> depth a' = min (depth a) (depth b)) \<and>
    (go \<noteq> None \<longleftrightarrow> depth a = depth b) \<and> (go' \<noteq> None \<longleftrightarrow> depth a = depth b)"
proof -
  have k: "is_power_of_2 (depth a)" "RING_SIZE_MIN \<le> depth a" "depth a \<le> RING_SIZE_MAX"
    "is_power_of_2 (depth b)" "RING_SIZE_MIN \<le> depth b" "depth b \<le> RING_SIZE_MAX"
    using assms(3,4) by (simp_all add: presentable_def)
  from complete_begin_negotiates [OF assms(1) k(4-6,1-3)] obtain go a' where A: "complete_begin 0 env a = Some (go, a')"
    "holds (nd_res a') (nd_dev a')" "go \<noteq> None \<longleftrightarrow> depth a = depth b" "dev_state (nd_dev a') = ERROR \<or> depth a' = min (depth a) (depth b)"
    by blast
  from complete_begin_negotiates [OF assms(2) k(1-3,4-6)] obtain go' b' where B: "complete_begin 0 env' b = Some (go', b')"
    "holds (nd_res b') (nd_dev b')" "go' \<noteq> None \<longleftrightarrow> depth b = depth a" "dev_state (nd_dev b') = ERROR \<or> depth b' = min (depth b) (depth a)"
    by blast
  have "dev_state (nd_dev a') = ERROR \<or> dev_state (nd_dev b') = ERROR \<or> depth a' = depth b' \<and> depth a' = min (depth a) (depth b)"
    using A(4) B(4) by (auto simp: min.commute)
  moreover have "go' \<noteq> None \<longleftrightarrow> depth a = depth b" using B(3) by auto
  ultimately show ?thesis using A(1-3) B(1,2) by blast
qed

section \<open>Retrying a login\<close>

text \<open>The work item as long as it reschedules itself, at most \<open>k\<close> times; \<open>reply i\<close> is the answer to the attempt \<open>i\<close>. The values are the
  delays and the node; \<open>None\<close> means that it has not ended.\<close>

fun login_runs :: "nat \<Rightarrow> int \<Rightarrow> (nat \<Rightarrow> errno + login_msg) \<Rightarrow> nat \<Rightarrow> nat \<Rightarrow> node \<Rightarrow> (nat list \<times> node) option" where
  "login_runs mode mx reply i 0 n = None"
| "login_runs mode mx reply i (Suc k) n =
     (case login_work_fn mode mx (reply i) n of
        (None, n) \<Rightarrow> Some ([], n)
      | (Some ms, n) \<Rightarrow> map_option (\<lambda>(delays, n). (ms # delays, n)) (login_runs mode mx reply (Suc i) k n))"

lemma login_work_cases:
  assumes "login_work_fn mode mx reply n = (delay, n')" "0 < mx"
  obtains "delay = None"
  | "delay = Some (login_delay (login_retries (dev_hs (nd_dev n'))))" "login_retries (dev_hs (nd_dev n')) = Suc (login_retries (dev_hs (nd_dev n)))"
      "int (login_retries (dev_hs (nd_dev n'))) < mx"
proof -
  obtain r n1 where s: "proto_send_login mode reply n = (r, n1)" by (cases "proto_send_login mode reply n")
  show thesis
  proof (cases r)
    case (Inr u)
    with assms s that(1) show thesis by (simp add: login_work_fn_def)
  next
    case (Inl e)
    have "n1 = n" using s Inl by (auto simp: proto_send_login_def split: sum.splits if_splits)
    with assms s Inl show thesis
      by (auto simp: login_work_fn_def Let_def split: if_splits intro: that)
  qed
qed

lemma login_delay_bound: "login_delay r \<le> 5000"
  by (simp add: login_delay_def Let_def)

lemma login_runs_end:
  assumes "0 < mx"
  shows "int (login_retries (dev_hs (nd_dev n))) < mx \<Longrightarrow> mx - int (login_retries (dev_hs (nd_dev n))) \<le> int k \<Longrightarrow>
    \<exists>delays n'. login_runs mode mx reply i k n = Some (delays, n') \<and>
      int (length delays) < mx - int (login_retries (dev_hs (nd_dev n))) \<and> list_all (\<lambda>ms. ms \<le> 5000) delays"
proof (induction k arbitrary: i n)
  case (Suc k)
  obtain delay n1 where w: "login_work_fn mode mx (reply i) n = (delay, n1)" by (cases "login_work_fn mode mx (reply i) n")
  from w assms show ?case
  proof (cases rule: login_work_cases)
    case 1
    with w Suc.prems show ?thesis by simp
  next
    case 2
    then obtain delays n' where "login_runs mode mx reply (Suc i) k n1 = Some (delays, n')"
      "int (length delays) < mx - int (login_retries (dev_hs (nd_dev n1)))" "list_all (\<lambda>ms. ms \<le> 5000) delays"
      using Suc.IH [of n1 "Suc i"] Suc.prems by auto
    with w 2 login_delay_bound show ?thesis by auto
  qed
qed simp

text \<open>C25: A host stops knocking. With a positive retry limit the login work ends after at most that many attempts, whatever the peer
  answers, and never waits longer than five seconds between two attempts.\<close>

theorem login_gives_up:
  assumes "0 < mx"
  shows "\<exists>delays n'. login_runs mode mx reply 0 (nat mx) (proto_init n) = Some (delays, n') \<and> length delays < nat mx \<and>
    list_all (\<lambda>ms. ms \<le> 5000) delays"
proof -
  have "login_retries (dev_hs (nd_dev (proto_init n))) = 0" by (simp add: proto_init_def)
  with login_runs_end [OF assms, of "proto_init n" "nat mx" mode reply 0] assms show ?thesis by auto
qed

section \<open>A device without rings\<close>

lemma handle_login_connecting:
  assumes "handle_login mode resp_ok buf h n = Some (r, out, n')"
  shows "connecting (dev_hs (nd_dev n')) = connecting (dev_hs (nd_dev n))"
proof -
  obtain path ver slots where "login_fields buf = Some (path, ver, slots)" using login_fields_total prod_cases3 by metis
  with assms show ?thesis by (auto simp: handle_login_def Let_def split: if_splits)
qed

lemma node_events_connecting:
  "node_events mode es n = Some n' \<Longrightarrow> connecting (dev_hs (nd_dev n')) = connecting (dev_hs (nd_dev n))"
proof (induction es arbitrary: n)
  case (Cons e es)
  then obtain n1 where n1: "node_event mode e n = Some n1" "node_events mode es n1 = Some n'" by (auto simp: bind_eq_Some_conv)
  have "connecting (dev_hs (nd_dev n1)) = connecting (dev_hs (nd_dev n))"
  proof (cases e)
    case (Packet resp_ok buf)
    with n1(1) show ?thesis
      by (auto simp: node_packet_def handle_logout_def bind_eq_Some_conv split: if_splits dest: handle_login_connecting)
  next
    case (LoginRun mx reply)
    with n1(1) show ?thesis
      by (auto simp: login_work_fn_def proto_send_login_def login_ok_def Let_def split: sum.splits if_splits prod.splits)
  qed
  with Cons.IH [OF n1(2)] show ?case by simp
qed simp

lemma restart_without_rings:
  assumes "hop_ok n" "rc_ring (dev_tx (nd_dev n)) = None" "restart_work_fn n = Some n'"
  shows "rc_ring (dev_tx (nd_dev n')) = None" "dev_state (nd_dev n') = HANDSHAKE" "\<not> connecting (dev_hs (nd_dev n'))"
proof -
  have "\<not> rc_started (dev_tx (nd_dev n))" using hop_okD(3) [OF assms(1)] assms(2) by blast
  with assms(2,3) show "rc_ring (dev_tx (nd_dev n')) = None" "dev_state (nd_dev n') = HANDSHAKE" "\<not> connecting (dev_hs (nd_dev n'))"
    by (auto simp: restart_work_fn_def Let_def cancel_ctrl_reply_def upd_dev_def)
qed

lemma bringup_without_rings:
  assumes "hop_ok n" "dev_state (nd_dev n) = HANDSHAKE" "rc_ring (dev_tx (nd_dev n)) = None" "ce_in_hopid env = Inr h"
  shows "complete_bringup env p n = None"
proof -
  obtain n1 where n1: "(if in_hopid_valid (dev_hs (nd_dev n))
             then drop_in_hopid (if rc_started (dev_tx (nd_dev n))
                    then disable_paths (hs_local_tx_hopid (dev_hs (nd_dev n))) (in_hopid (dev_hs (nd_dev n))) n else n)
             else Some n) = Some n1"
    "nd_dev n1 = (nd_dev n)\<lparr>dev_hs := (dev_hs (nd_dev n))\<lparr>in_hopid_valid := False\<rparr>\<rparr>"
    using bringup_release [OF assms(1,2)] by blast
  show ?thesis unfolding complete_bringup_def n1(1) assms(4) using n1(2) assms(3) by (simp add: rings_start_def)
qed

text \<open>C29: A logout revives a device that has lost its rings. A device in the error state after its rings could not be reallocated refuses
  logins; but a logout packet schedules a restart, which puts it back into the handshake without rings. When the peer has then
  logged in with the same depth, bringing the connection up starts a ring that does not exist.\<close>

theorem logout_revives_error:
  assumes "hop_ok n" "dev_state (nd_dev n) = ERROR" "rc_ring (dev_tx (nd_dev n)) = None"
    "restart_work_fn (handle_logout n) = Some n2" "node_events mode es n2 = Some m"
    "login_sent (dev_hs (nd_dev m))" "login_received (dev_hs (nd_dev m))" "peer_ring_size (dev_hs (nd_dev m)) = depth m" "ce_in_hopid env = Inr h"
  shows "complete_connection mode env es' m = None"
proof -
  have l: "same_link n (handle_logout n)" by (simp add: handle_logout_def link_upd)
  then have ok: "hop_ok (handle_logout n)" "rc_ring (dev_tx (nd_dev (handle_logout n))) = None"
    using same_link_ok [OF l] assms(1,3) by (simp_all add: same_link_def link_def)
  note r = restart_without_rings [OF ok assms(4)]
  have m: "same_link n2 m" by (rule node_events_link [OF assms(5)])
  have okm: "hop_ok m" using same_link_ok [OF m] restart_work_ok(1) [OF ok(1) assms(4)] by simp
  have hs: "dev_state (nd_dev m) = HANDSHAKE" "rc_ring (dev_tx (nd_dev m)) = None" "\<not> connecting (dev_hs (nd_dev m))"
    using m r node_events_connecting [OF assms(5)] by (simp_all add: same_link_def link_def)
  let ?m = "upd_hs (\<lambda>hs. hs\<lparr>connecting := True\<rparr>) m"
  have "complete_begin mode env m = Some (Some (hs_remote_tx_hopid (dev_hs (nd_dev m)), login_generation (dev_hs (nd_dev m))), ?m)"
    using hs(1,3) assms(6-8) by (simp add: complete_begin_def Let_def)
  moreover have "complete_bringup env (hs_remote_tx_hopid (dev_hs (nd_dev m))) ?m = None"
    using okm hs assms(9) by (intro bringup_without_rings) (simp_all add: hop_ok_upd)
  ultimately show ?thesis by (simp add: complete_connection_def)
qed

section \<open>Sample nodes\<close>

definition idle_node :: node where
  "idle_node = link_node\<lparr>nd_dev := link_device\<lparr>dev_state := DISCONNECTED, dev_tx := (link_ring 1)\<lparr>rc_started := False\<rparr>,
     dev_rx := (link_ring 2)\<lparr>rc_started := False\<rparr>, dev_hs := sample_hs\<lparr>in_hopid_valid := False\<rparr>\<rparr>, nd_in_hopids := {}, nd_paths := {}\<rparr>"

definition conn_sample :: conn_env where
  "conn_sample = \<lparr>ce_resize1 = (sample_ring_env, sample_buf_env), ce_resize2 = (sample_ring_env, sample_buf_env), ce_in_hopid = Inr 8,
     ce_prime = (\<lambda>_. None), ce_enable = (\<lambda>_. None), ce_pool_slots = False, ce_pool_bitmap = False, ce_pool_dma = (\<lambda>_. None), ce_batch_dma = (\<lambda>_. None)\<rparr>"

text \<open>The idle node after a login has been sent and one has been received.\<close>

definition logged_node :: "u32 \<Rightarrow> work set \<Rightarrow> node" where
  "logged_node g w = (set_state HANDSHAKE (upd_hs (\<lambda>hs. hs\<lparr>login_generation := g\<rparr>) idle_node))\<lparr>nd_work := w\<rparr>"

lemma logged_node_ok: "hop_ok (logged_node g w)" "dev_state (nd_dev (logged_node g w)) = HANDSHAKE" "hopid_granted conn_sample (logged_node g w)"
  by (simp_all add: hop_ok_def link_def hopid_granted_def logged_node_def idle_node_def conn_sample_def link_samples)

lemma logged_node_bringup:
  "\<exists>d. complete_bringup conn_sample 8 (upd_hs (\<lambda>hs. hs\<lparr>connecting := True\<rparr>) (logged_node g w)) = 
     Some (Inr (), (logged_node g w)\<lparr>nd_in_hopids := {8}, nd_paths := {(8, 8)}, nd_dev := d\<rparr>) \<and> dev_state d = HANDSHAKE \<and>
     logins (dev_hs d) = (g, True, True, True)"
  by (simp add: complete_bringup_def logged_node_def idle_node_def conn_sample_def link_samples rings_start_def submit_rx_def submittable_def
     upd_tx_def upd_rx_def ENABLE_RETRIES_def numeral_eq_Suc node_defs logins_def)

lemma logged_node_connects:
  "\<exists>n'. complete_connection 0 conn_sample [] (logged_node g w) = Some (Inr (), n') \<and> dev_state (nd_dev n') = CONNECTED"
proof -
  obtain d where d: "complete_bringup conn_sample 8 (upd_hs (\<lambda>hs. hs\<lparr>connecting := True\<rparr>) (logged_node g w)) = 
     Some (Inr (), (logged_node g w)\<lparr>nd_in_hopids := {8}, nd_paths := {(8, 8)}, nd_dev := d\<rparr>)" "dev_state d = HANDSHAKE"
     "logins (dev_hs d) = (g, True, True, True)" using logged_node_bringup by blast
  have b: "complete_begin 0 conn_sample (logged_node g w) = Some (Some (8, g), upd_hs (\<lambda>hs. hs\<lparr>connecting := True\<rparr>) (logged_node g w))"
    by (simp add: complete_begin_def Let_def logged_node_def idle_node_def link_samples node_defs)
  have s: "\<not> login_stale g ((logged_node g w)\<lparr>nd_in_hopids := {8}, nd_paths := {(8, 8)}, nd_dev := d\<rparr>)"
    using d(2,3) by (simp add: login_stale_def logins_def)
  have p: "dev_state (nd_dev (pools_alloc env n)) = dev_state (nd_dev n)" for env n
    using pools_alloc_link [of n env] by (simp add: same_link_def link_def)
  show ?thesis using b d(1) s p by (simp add: complete_connection_def complete_commit_def)
qed

definition login_events :: "event list" where
  "login_events = [LoginRun 0 (Inr (login_response link_node (lm_hdr (login_request link_node)) LOGIN_STATUS_OK 8 64)),
     Packet True (login_msg_bytes (login_request link_node))]"

lemma link_node_login: "login_fields (login_msg_bytes (login_request link_node)) = Some (8, PROTOCOL_VER, 64)"
  using login_request_read(1) [of link_node] by (simp add: link_samples)

lemma depth_64: "is_power_of_2 64" "is_power_of_2 128" "ring_depth_ok 64"
proof -
  show 64: "is_power_of_2 64" "is_power_of_2 128" using is_power_of_2_exp [of 6] is_power_of_2_exp [of 7] by simp_all
  show "ring_depth_ok 64" using depth_field(2) [OF 64(1)] by (simp add: driver_consts)
qed

lemma idle_node_logs_in:
  "node_events 0 login_events (proto_init idle_node) = Some (logged_node 2 {ConnectWork, LoginWork})"
  using login_request_read [of link_node] link_node_login depth_64
  by (simp add: login_events_def login_work_fn_def proto_send_login_def login_response_def login_ok_def node_packet_def handle_login_def
     logged_node_def proto_init_def idle_node_def link_samples driver_consts node_defs)


theorem link_accounting_witness:
  "\<exists>n'. (link_step 0)\<^sup>*\<^sup>* (proto_init idle_node) n' \<and> dev_state (nd_dev n') = CONNECTED \<and> card (nd_paths n') \<le> 1 \<and>
    nd_paths n' = {(hs_local_tx_hopid (dev_hs (nd_dev n')), in_hopid (dev_hs (nd_dev n')))}"
proof -
  let ?n = "logged_node 2 {ConnectWork, LoginWork}"
  have step: "link_step 0 n n1" if "node_event 0 e n = Some n1" for e n n1
    by (rule link_step.event [of _ "Control e"]) (use that in simp)
  obtain n1 where "node_event 0 (login_events ! 0) (proto_init idle_node) = Some n1" "node_event 0 (login_events ! 1) n1 = Some ?n"
    using idle_node_logs_in by (auto simp: login_events_def bind_eq_Some_conv)
  then have "(link_step 0)\<^sup>*\<^sup>* (proto_init idle_node) ?n" by (meson step rtranclp.rtrancl_into_rtrancl rtranclp.rtrancl_refl)
  moreover have can: "cancel {ConnectWork} ?n = logged_node 2 {LoginWork}" by (auto simp: cancel_def logged_node_def)
  moreover obtain n' where n': "complete_connection 0 conn_sample [] (logged_node 2 {LoginWork}) = Some (Inr (), n')" "dev_state (nd_dev n') = CONNECTED"
    using logged_node_connects by blast
  moreover have "link_step 0 ?n n'"
    by (rule link_step.connect [of _ conn_sample "[]"]) (use n' can logged_node_ok(3) in \<open>simp_all add: connect_work_fn_def, simp add: logged_node_def\<close>)
  ultimately have r: "(link_step 0)\<^sup>*\<^sup>* (proto_init idle_node) n'" by simp
  show ?thesis
    using link_accounting [OF _ _ _ _ r] r n'(2) by (auto simp: idle_node_def link_samples)
qed

lemma sample_presentable: "presentable idle_node" "presentable (logged_node g w)"
  using depth_64 by (simp_all add: presentable_def logged_node_def idle_node_def link_samples driver_consts)

theorem login_exchange_witness:
  "\<exists>resp b'. node_packet 0 True (login_msg_bytes (login_request idle_node)) (logged_node 2 {}) = Some (True, [resp], b') \<and>
    peer_ring_size (dev_hs (nd_dev b')) = depth idle_node"
  using login_exchange [OF sample_presentable, of 2 "{}"] logged_node_ok(2) [of 2 "{}"] by auto

definition full_node :: "nat \<Rightarrow> nat \<Rightarrow> node" where
  "full_node k p = link_node\<lparr>nd_res := full_res, nd_dev := (full_device k)\<lparr>dev_state := HANDSHAKE, dev_hs := sample_hs\<lparr>peer_ring_size := p\<rparr>\<rparr>\<rparr>"

lemma full_node_ok: "negotiating p conn_sample (full_node k p)" "depth (full_node k p) = k" "hs_local_tx_hopid (dev_hs (nd_dev (full_node k p))) = 8"
  using full_device_ok [of k]
  by (auto simp: negotiating_def full_node_def link_node_def sample_hs_def conn_sample_def fresh_env_def sample_ring_env_def holds_def
      provisioned_def equipped_def buffered_def full_device_def full_ring_def sample_device_def)

theorem depth_negotiation_witness:
  "\<exists>go a' go' b'. complete_begin 0 conn_sample (full_node 128 64) = Some (go, a') \<and> complete_begin 0 conn_sample (full_node 64 128) = Some (go', b') \<and>
    (dev_state (nd_dev a') = ERROR \<or> dev_state (nd_dev b') = ERROR \<or> depth a' = 64 \<and> depth b' = 64)"
proof -
  let ?a = "full_node 128 64" and ?b = "full_node 64 128"
  have "presentable ?a" "presentable ?b" using depth_64 full_node_ok by (simp_all add: presentable_def driver_consts)
  from depth_negotiation [OF _ _ this, of conn_sample conn_sample] show ?thesis using full_node_ok by auto
qed

theorem login_gives_up_witness:
  "\<exists>delays n'. login_runs 0 3 (\<lambda>_. Inl EIO) 0 3 (proto_init idle_node) = Some (delays, n') \<and> length delays < 3"
  using login_gives_up [of 3 0 "\<lambda>_. Inl EIO" idle_node] by auto

definition dead_node :: node where
  "dead_node = set_state ERROR (upd_dev (upd_tx (\<lambda>c. c\<lparr>rc_ring := None\<rparr>)) idle_node)"

theorem logout_revives_error_witness:
  "\<exists>n2 m. restart_work_fn (handle_logout dead_node) = Some n2 \<and> node_events 0 login_events n2 = Some m \<and>
     complete_connection 0 conn_sample [] m = None"
proof -
  have ok: "hop_ok dead_node" "dev_state (nd_dev dead_node) = ERROR" "rc_ring (dev_tx (nd_dev dead_node)) = None"
    by (simp_all add: dead_node_def hop_ok_def link_def idle_node_def link_samples upd_dev_def upd_tx_def)
  obtain n2 m where n2: "restart_work_fn (handle_logout dead_node) = Some n2" "node_events 0 login_events n2 = Some m"
    "login_sent (dev_hs (nd_dev m))" "login_received (dev_hs (nd_dev m))" "peer_ring_size (dev_hs (nd_dev m)) = depth m"
    using login_request_read [of link_node] link_node_login depth_64
    by (simp add: restart_work_fn_def handle_logout_def dead_node_def login_events_def login_work_fn_def proto_send_login_def login_response_def
        login_ok_def node_packet_def handle_login_def idle_node_def link_samples driver_consts node_defs upd_tx_def)
  have "complete_connection 0 conn_sample [] m = None"
    by (rule logout_revives_error [OF ok n2, where h = 8]) (simp add: conn_sample_def)
  with n2 show ?thesis by blast
qed

end
