(* ===== verification/Reg_Frame.thy ===== *)
theory Reg_Frame
  imports Stream_Send
begin

text \<open>
  What sending and completing leave alone: no step of the transmit path changes which streams are in the table, which file owns them
  or what the numbers of the streams are. It can only free a stream that has left the table.
\<close>

definition cores :: "odl_device \<Rightarrow> nat \<rightharpoonup> u8 \<times> nat option" where
  "cores d a = map_option (\<lambda>s. (st_id s, st_owner s)) (dev_heap d a)"

definition same_reg :: "odl_device \<Rightarrow> odl_device \<Rightarrow> bool" where
  "same_reg d d' \<longleftrightarrow> dev_owners d' = dev_owners d \<and> dev_streams d' = dev_streams d \<and> cores d' \<subseteq>\<^sub>m cores d"

named_theorems reg_keeps \<open>steps that keep the registration of the streams\<close>

lemma same_reg_refl [simp]: "same_reg d d"
  by (simp add: same_reg_def)

lemma same_reg_trans: "same_reg d d1 \<Longrightarrow> same_reg d1 d2 \<Longrightarrow> same_reg d d2"
  by (auto simp: same_reg_def intro: map_le_trans)

lemma same_reg_upd [simp]:
  "same_reg (d\<lparr>dev_pool := p\<rparr>) d' = same_reg d d'" "same_reg d (d'\<lparr>dev_pool := p\<rparr>) = same_reg d d'"
  "same_reg (d\<lparr>dev_bpool := b\<rparr>) d' = same_reg d d'" "same_reg d (d'\<lparr>dev_bpool := b\<rparr>) = same_reg d d'"
  "same_reg (d\<lparr>dev_msgs := m\<rparr>) d' = same_reg d d'" "same_reg d (d'\<lparr>dev_msgs := m\<rparr>) = same_reg d d'"
  "same_reg (d\<lparr>dev_adapt := t\<rparr>) d' = same_reg d d'" "same_reg d (d'\<lparr>dev_adapt := t\<rparr>) = same_reg d d'"
  "same_reg (d\<lparr>dev_tx := c\<rparr>) d' = same_reg d d'" "same_reg d (d'\<lparr>dev_tx := c\<rparr>) = same_reg d d'"
  "same_reg (d\<lparr>dev_tx_pending := q\<rparr>) d' = same_reg d d'" "same_reg d (d'\<lparr>dev_tx_pending := q\<rparr>) = same_reg d d'"
  "same_reg (d\<lparr>dev_wire := w\<rparr>) d' = same_reg d d'" "same_reg d (d'\<lparr>dev_wire := w\<rparr>) = same_reg d d'"
  by (simp_all add: same_reg_def cores_def [abs_def])

lemma same_reg_set:
  assumes "dev_heap d a = Some s" "st_id s' = st_id s" "st_owner s' = st_owner s"
  shows "same_reg d (d\<lparr>dev_heap := (dev_heap d)(a \<mapsto> s')\<rparr>)"
  using assms by (simp add: same_reg_def cores_def map_le_def)

section \<open>The steps\<close>

lemma upd_msg_reg [reg_keeps]: "upd_msg m f d = Some d' \<Longrightarrow> same_reg d d'"
  by (auto simp: upd_msg_def split: option.splits)

lemma stream_put_reg [reg_keeps]:
  assumes "stream_put a d = Some d'"
  shows "same_reg d d'"
proof -
  obtain s n where s: "dev_heap d a = Some s" "st_refcount s = Suc n"
    using assms by (auto simp: stream_put_def bind_eq_Some_conv gr0_conv_Suc split: nat.splits)
  have "same_reg d (d\<lparr>dev_msgs := ms, dev_heap := (dev_heap d)(a := None)\<rparr>)" for ms
    by (auto simp: same_reg_def cores_def map_le_def)
  with s assms show ?thesis
    by (auto simp: stream_put_def stream_free_def bind_eq_Some_conv same_reg_set split: if_splits)
qed

lemma tx_msg_put_reg [reg_keeps]:
  assumes "tx_msg_put m d = Some d'"
  shows "same_reg d d'"
proof -
  obtain msg n where m: "dev_msgs d m = Some msg" "tm_refs msg = Suc n"
    using assms by (cases "dev_msgs d m") (auto simp: tx_msg_put_def split: nat.splits)
  show ?thesis
  proof (cases "n = 0")
    case True
    obtain s d2 where s: "dev_heap d (tm_stream msg) = Some s" and d2: "stream_put (tm_stream msg) (d\<lparr>dev_heap := (dev_heap d)(tm_stream msg \<mapsto>
        s\<lparr>st_tx_completed := st_tx_completed s + (if tm_failed msg then 0 else 1), st_tx_in_flight := st_tx_in_flight s - 1\<rparr>)\<rparr>) = Some d2"
      "d' = d2\<lparr>dev_msgs := (dev_msgs d2)(m := None)\<rparr>"
      using assms m True by (auto simp: tx_msg_put_def upd_stream_def bind_eq_Some_conv split: option.splits)
    have "same_reg d d2" by (rule same_reg_trans [OF same_reg_set stream_put_reg [OF d2(1)]]) (use s in simp_all)
    with d2(2) show ?thesis by simp
  next
    case False
    with assms m show ?thesis by (auto simp: tx_msg_put_def dest: upd_msg_reg)
  qed
qed

lemma tx_msg_maybe_complete_reg [reg_keeps]: "tx_msg_maybe_complete m d = Some d' \<Longrightarrow> same_reg d d'"
  by (auto simp: tx_msg_maybe_complete_def bind_eq_Some_conv split: if_splits intro: same_reg_trans dest!: reg_keeps)

lemma tx_msg_frame_done_reg [reg_keeps]: "tx_msg_frame_done m c d = Some d' \<Longrightarrow> same_reg d d'"
  by (auto simp: tx_msg_frame_done_def bind_eq_Some_conv split: if_splits intro: same_reg_trans dest!: reg_keeps)

lemma upd_batch_reg [reg_keeps]: "upd_batch b f d = Some d' \<Longrightarrow> same_reg d d'"
  by (auto simp: upd_batch_def Let_def split: if_splits)

lemma upd_slot_reg [reg_keeps]: "upd_slot i f d = Some d' \<Longrightarrow> same_reg d d'"
  by (auto simp: upd_slot_def bind_eq_Some_conv split: if_splits)

lemma tb_ring_tx_reg [reg_keeps]: "tb_ring_tx ok r bs d = Some d' \<Longrightarrow> same_reg d d'"
  by (auto simp: tb_ring_tx_def bind_eq_Some_conv split: if_splits option.splits)

lemma pool_return_reg [reg_keeps]: "pool_return i d = Some d' \<Longrightarrow> same_reg d d'" "batch_return b d = Some d' \<Longrightarrow> same_reg d d'"
  by (auto simp: pool_return_def batch_return_def bind_eq_Some_conv)

lemma tx_callback_reg [reg_keeps]: "tx_callback known r c d = Some d' \<Longrightarrow> same_reg d d'"
  by (auto simp: tx_callback_def bind_eq_Some_conv split: if_splits frame_ref.splits option.splits dest!: reg_keeps)

lemma tx_batch_callback_reg [reg_keeps]: "tx_batch_callback known r c d = Some d' \<Longrightarrow> same_reg d d'"
  by (auto simp: tx_batch_callback_def bind_eq_Some_conv split: if_splits frame_ref.splits option.splits
      dest!: reg_keeps intro: same_reg_trans)

lemma tx_complete_reg [reg_keeps]: "tx_complete rc d = Some d' \<Longrightarrow> same_reg d d'"
  by (auto simp: tx_complete_def Let_def split: prod.splits if_splits frame_ref.splits dest!: reg_keeps)

lemma tx_complete_all_reg [reg_keeps]: "tx_complete_all rcs d = Some d' \<Longrightarrow> same_reg d d'"
  by (induction rcs arbitrary: d) (auto simp: bind_eq_Some_conv dest: tx_complete_reg intro: same_reg_trans)

section \<open>Sending\<close>

lemma tx_begin_reg [reg_keeps]: "tx_begin m a dst len d = Some d' \<Longrightarrow> same_reg d d'"
  using same_reg_set [of "d\<lparr>dev_msgs := (dev_msgs d)(m \<mapsto> new_tx_msg dst len a)\<rparr>" a]
  by (auto simp: tx_begin_def upd_stream_def split: option.splits)

lemma tx_finish_reg [reg_keeps]: "tx_finish m d = Some d' \<Longrightarrow> same_reg d d'"
  by (auto simp: tx_finish_def bind_eq_Some_conv dest!: reg_keeps intro: same_reg_trans)

lemma tx_abort_reg [reg_keeps]: "tx_abort rcs m d = Some d' \<Longrightarrow> same_reg d d'"
  by (auto simp: tx_abort_def bind_eq_Some_conv split: if_splits dest!: reg_keeps intro: same_reg_trans)

lemma send_slot_reg [reg_keeps]:
  assumes "send_slot e m h payload i d = Some (r, d')"
  shows "same_reg d d'"
  using assms unfolding send_slot_def
  by (auto simp: bind_eq_Some_conv Let_def split: if_splits dest!: reg_keeps) (meson same_reg_trans)+

lemma submit_frames_reg [reg_keeps]: "submit_frames e m b i k d = Some (r, d') \<Longrightarrow> same_reg d d'"
proof (induction k arbitrary: i d)
  case (Suc k)
  obtain d1 batch d2 where d1: "tx_complete_all (te_mid e i) d = Some d1" "get_batch b d1 = Some batch"
    "tb_ring_tx (te_tx_ok e i) (BatchFrame b i) (batch_frame_bytes batch i) d1 = Some d2"
    using Suc.prems by (auto simp: bind_eq_Some_conv)
  have reg: "same_reg d d2" by (rule same_reg_trans [OF tx_complete_all_reg [OF d1(1)] tb_ring_tx_reg [OF d1(3)]])
  show ?case
  proof (cases "te_tx_ok e i")
    case True
    with Suc.prems d1 have "submit_frames e m b (Suc i) k d2 = Some (r, d')" by simp
    from Suc.IH [OF this] show ?thesis by (rule same_reg_trans [OF reg])
  next
    case False
    with Suc.prems d1 have "same_reg d2 d'"
      by (auto simp: bind_eq_Some_conv Let_def split: if_splits dest!: reg_keeps) (meson same_reg_trans)+
    then show ?thesis by (rule same_reg_trans [OF reg])
  qed
qed simp

lemma send_batch_reg [reg_keeps]:
  assumes "send_batch e m sid dst data n frag b d = Some (r, d')"
  shows "same_reg d d'"
  using assms unfolding send_batch_def Let_def
  by (auto simp: bind_eq_Some_conv split: if_splits dest!: reg_keeps) (meson same_reg_trans)+

lemma latency_loop_reg [reg_keeps]:
  "latency_loop envs m sid dst data frag d = Some (r, d') \<Longrightarrow> same_reg d d'"
proof (induction envs arbitrary: frag d)
  case Nil
  then show ?case by (auto simp: latency_loop.simps [of "[]"] split: option.splits if_splits)
next
  case (Cons e es)
  note step = latency_loop.simps [of "e # es" m sid dst data frag d]
  obtain msg where msg: "dev_msgs d m = Some msg" using Cons.prems by (cases "dev_msgs d m") (auto simp: step)
  show ?case
  proof (cases "length data \<le> tm_sent msg")
    case True
    with Cons.prems msg show ?thesis by (simp add: step)
  next
    case False
    obtain d1 where d1: "tx_complete_all (te_done e) d = Some d1"
      using Cons.prems msg False by (cases "tx_complete_all (te_done e) d") (auto simp: step Let_def)
    note reg = tx_complete_all_reg [OF d1]
    note eq = Cons.prems [unfolded step msg option.case if_not_P [OF False] list.case Let_def d1 bind.bind_lunit]
    show ?thesis
    proof (cases "fp_free_count (dev_pool d1) \<le> int TX_POOL_RESERVE")
      case True
      from eq [unfolded if_P [OF True]] reg show ?thesis
        by (cases "te_wait e") (auto dest: Cons.IH intro: same_reg_trans)
    next
      case full: False
      obtain r0 p where g: "frame_pool_get (dev_pool d1) = Some (r0, p)" using eq full by (cases "frame_pool_get (dev_pool d1)") auto
      note eq = eq [unfolded if_not_P [OF full] g bind.bind_lunit prod.case]
      show ?thesis
      proof (cases r0)
        case None
        from Cons.IH [OF eq [unfolded None option.case]] reg show ?thesis by (auto intro: same_reg_trans)
      next
        case (Some i)
        note eq = eq [unfolded Some option.case]
        obtain r1 d2 where s: "send_slot e m (frag_hdr sid dst (tm_sent msg = 0) (tm_sent msg + length (take STREAM_PAYLOAD_MAX (drop (tm_sent msg) data)) = length data)
            (length (take STREAM_PAYLOAD_MAX (drop (tm_sent msg) data))) frag) (take STREAM_PAYLOAD_MAX (drop (tm_sent msg) data)) i (d1\<lparr>dev_pool := p\<rparr>) = Some (r1, d2)"
          using eq by (auto simp del: length_take simp: bind_eq_Some_conv)
        have "same_reg d d2" using same_reg_trans [OF reg] send_slot_reg [OF s] by simp
        with eq [unfolded s bind.bind_lunit prod.case] show ?thesis
          by (cases r1) (auto dest: Cons.IH intro: same_reg_trans)
      qed
    qed
  qed
qed

lemma throughput_loop_reg [reg_keeps]:
  "throughput_loop envs m sid dst data n frag d = Some (r, d') \<Longrightarrow> same_reg d d'"
proof (induction envs arbitrary: n frag d)
  case Nil
  then show ?case by (auto simp: throughput_loop.simps [of "[]"] split: if_splits)
next
  case (Cons e es)
  note step = throughput_loop.simps [of "e # es" m sid dst data n frag d]
  show ?case
  proof (cases "length data \<le> n")
    case True
    with Cons.prems show ?thesis by (simp add: step)
  next
    case False
    obtain d1 where d1: "tx_complete_all (te_done e) d = Some d1"
      using Cons.prems False by (cases "tx_complete_all (te_done e) d") (auto simp: step)
    note reg = tx_complete_all_reg [OF d1]
    note eq = Cons.prems [unfolded step if_not_P [OF False] list.case d1 bind.bind_lunit]
    show ?thesis
    proof (cases "bp_free_count (dev_bpool d1) \<le> 0")
      case True
      from eq [unfolded if_P [OF True]] reg show ?thesis
        by (cases "te_wait e") (auto dest: Cons.IH intro: same_reg_trans)
    next
      case full: False
      obtain r0 p where g: "batch_pool_get (dev_bpool d1) = Some (r0, p)" using eq full by (cases "batch_pool_get (dev_bpool d1)") auto
      note eq = eq [unfolded if_not_P [OF full] g bind.bind_lunit prod.case]
      show ?thesis
      proof (cases r0)
        case None
        from Cons.IH [OF eq [unfolded None option.case]] reg show ?thesis by (auto intro: same_reg_trans)
      next
        case (Some b)
        note eq = eq [unfolded Some option.case]
        obtain r1 d2 where s: "send_batch e m sid dst data n frag b (d1\<lparr>dev_bpool := p\<rparr>) = Some (r1, d2)"
          using eq by (auto simp: bind_eq_Some_conv)
        have "same_reg d d2" using same_reg_trans [OF reg] send_batch_reg [OF s] by simp
        with eq [unfolded s bind.bind_lunit prod.case Let_def] show ?thesis
          by (cases r1) (auto dest: Cons.IH intro: same_reg_trans)
      qed
    qed
  qed
qed

lemma tx_conclude_reg:
  assumes "tx_conclude rcs m res = Some (r, d')" "\<And>r1 d1. res = Some (r1, d1) \<Longrightarrow> same_reg d d1"
  shows "same_reg d d'"
proof -
  obtain r1 d1 where res: "res = Some (r1, d1)" using assms(1) by (auto simp: tx_conclude_def bind_eq_Some_conv)
  have "same_reg d1 d'"
    using assms(1) res by (auto simp: tx_conclude_def bind_eq_Some_conv split: tx_result.splits sum.splits dest!: reg_keeps)
  with assms(2) [OF res] show ?thesis by (rule same_reg_trans)
qed

lemma stream_send_modes_reg:
  "stream_send_latency envs rcs alloc a dst data d = Some (r, d') \<Longrightarrow> same_reg d d'"
  "stream_send_throughput envs rcs alloc a dst data d = Some (r, d') \<Longrightarrow> same_reg d d'"
proof -
  have run: "same_reg d d'"
    if call: "do { d \<leftarrow> tx_begin m a dst (length data) d; s \<leftarrow> dev_heap d a; tx_conclude rcs m (loop (st_id s) d) } = Some (r, d')"
      and loop: "\<And>i d r1 d1. loop i d = Some (r1, d1) \<Longrightarrow> same_reg d d1" for m loop
  proof -
    obtain d1 and s :: stream where d1: "tx_begin m a dst (length data) d = Some d1" "tx_conclude rcs m (loop (st_id s) d1) = Some (r, d')"
      using call by (auto simp: bind_eq_Some_conv)
    have "same_reg d1 d'" by (rule tx_conclude_reg [OF d1(2)]) (rule loop)
    then show ?thesis by (rule same_reg_trans [OF tx_begin_reg [OF d1(1)]])
  qed
  show "stream_send_latency envs rcs alloc a dst data d = Some (r, d') \<Longrightarrow> same_reg d d'"
    using run [where loop = "\<lambda>i d. latency_loop envs m i dst data 0 d" for m] latency_loop_reg
    by (cases alloc) (auto simp: stream_send_latency_def)
  show "stream_send_throughput envs rcs alloc a dst data d = Some (r, d') \<Longrightarrow> same_reg d d'"
    using run [where loop = "\<lambda>i d. throughput_loop envs m i dst data 0 0 d" for m] throughput_loop_reg
    by (cases alloc) (auto simp: stream_send_throughput_def)
qed

lemma stream_send_reg:
  assumes "stream_send envs rcs alloc a dst data d = Some (r, d')"
  shows "same_reg d d'"
proof -
  obtain mode d1 where e: "evaluate_tx_mode (length data) d = (mode, d1)" by fastforce
  then have "same_reg d d1" by (auto simp: evaluate_tx_mode_def Let_def split: if_splits)
  moreover have "same_reg d1 d' \<or> d' = d"
    using assms e by (auto simp: stream_send_def split: if_splits tx_mode.splits dest: stream_send_modes_reg)
  ultimately show ?thesis using same_reg_trans by auto
qed

section \<open>What the accounting does not depend on\<close>

text \<open>The connection state, the marks of the handshake and the receive target are no part of the accounting of frames, messages and streams.\<close>

lemma tx_wf_cong:
  assumes "tx_wf refs S mc bc d" "same_objects d d'" "dev_pool d' = dev_pool d" "dev_bpool d' = dev_bpool d"
    "dev_tx_pending d' = dev_tx_pending d"
  shows "tx_wf refs S mc bc d'"
proof -
  note fa = frame_accounting_cong [OF assms(3,4)]
  have b: "tx_base refs bc d" using assms(1) by (simp add: tx_wf_def)
  have "tx_base refs bc d'"
    using tx_baseD [OF b] assms(3-5) fa by (intro tx_base_ring [OF b assms(2)]) auto
  with assms(1,2,5) fa(2) show ?thesis by (simp add: tx_wf_def same_objects_def)
qed

end
