(* ===== verification/Service.thy ===== *)
theory Service
  imports Link_Life Reg_Frame
begin

text \<open>
  Binding and unbinding a peer, \<^verbatim>\<open>driver/odl_tb5_service.c\<close>: \<open>odl_tb5_probe\<close> (lines 108 to 239) with the fallback to smaller rings,
  and \<open>odl_tb5_remove\<close> (lines 241 to 327), with the registration of the character device (\<^verbatim>\<open>driver/odl_tb5_chardev.c\<close>, lines 549 to 586).
\<close>

section \<open>The driver\<close>

text \<open>The global state: the number of bound services, the indices in use, the registered character devices and device nodes,
  and the list of devices.\<close>

record driver =
  drv_bound :: int
  drv_ida :: "nat list"
  drv_cdevs :: "nat list"
  drv_nodes :: "nat list"
  drv_list :: "(nat \<times> node) list"

text \<open>The results of \<open>cdev_add\<close> and \<open>device_create\<close> are arguments.\<close>

definition chardev_create :: "errno option \<Rightarrow> errno option \<Rightarrow> nat \<Rightarrow> driver \<Rightarrow> (errno + unit) \<times> driver" where
  "chardev_create cdev_add device_create index drv =
     (case cdev_add of
        Some e \<Rightarrow> (Inl e, drv)
      | None \<Rightarrow>
          let drv = drv\<lparr>drv_cdevs := index # drv_cdevs drv\<rparr>
          in case device_create of
               Some e \<Rightarrow> (Inl e, drv\<lparr>drv_cdevs := remove1 index (drv_cdevs drv)\<rparr>)
             | None \<Rightarrow> (Inr (), drv\<lparr>drv_nodes := index # drv_nodes drv\<rparr>))"

definition chardev_destroy :: "nat \<Rightarrow> driver \<Rightarrow> driver option" where
  "chardev_destroy index drv =
     (if index \<in> set (drv_nodes drv) \<and> index \<in> set (drv_cdevs drv)
      then Some (drv\<lparr>drv_nodes := remove1 index (drv_nodes drv), drv_cdevs := remove1 index (drv_cdevs drv)\<rparr>)
      else None)"

section \<open>Probe\<close>

text \<open>A device as \<open>kzalloc\<close> and the initialisation leave it.\<close>

definition zero_ring :: ring_ctx where
  "zero_ring = \<lparr>rc_ring = None, rc_frames = None, rc_ring_size = 0, rc_started = False, rc_completed = 0, rc_submitted = 0,
     rc_bufs = replicate NUM_BUFFERS \<lparr>db_virt = None, db_size = 0\<rparr>, rc_front = 0, rc_back = 0, rc_posted_buf = 0, rc_frames_posted = False,
     rc_swapped_since_post = False\<rparr>"

definition INT_MAX :: int where "INT_MAX = 2 ^ 31 - 1"

definition new_device :: odl_device where
  "new_device = \<lparr>dev_state = DISCONNECTED, dev_tx = zero_ring, dev_rx = zero_ring,
     dev_pool = \<lparr>fp_slots = None, fp_bitmap = None, fp_size = 0, fp_free_count = 0\<rparr>,
     dev_bpool = \<lparr>bp_bufs = replicate BATCH_BUF_COUNT \<lparr>bb_virt = None, bb_frames = replicate BATCH_FRAMES zero_frame, bb_tx_msg = None,
         bb_frames_pending = 0, bb_total_frames = 0, bb_in_use = False\<rparr>, bp_free_list = [], bp_free_count = 0\<rparr>,
     dev_adapt = \<lparr>ta_mode = TX_LATENCY, ta_consecutive_low = 0, ta_high_watermark = 0, ta_low_watermark = 0\<rparr>,
     dev_streams = [], dev_ida = [], dev_heap = Map.empty, dev_msgs = Map.empty, dev_owners = (\<lambda>_. []), dev_rx_posted = 0, dev_rx_target = 0,
     dev_stats = \<lparr>rx_err_crc = 0, rx_err_overrun = 0, rx_canceled = 0, rx_err_short = 0, rx_err_len = 0, rx_frames_ok = 0,
       rx_repost_starved = 0, rx_repost_short = 0, rx_posted_min = INT_MAX\<rparr>,
     dev_hs = \<lparr>hs_local_tx_hopid = - 1, hs_remote_tx_hopid = 0, login_retries = 0, login_sent = False, login_received = False,
       connecting = False, login_generation = 0, peer_ring_size = 0, stale_remote_tx_hopid = 0, in_hopid_valid = False, in_hopid = 0,
       pong_received = False, peer_ping_answered = False, verify_rx_type = 0\<rparr>,
     dev_ctrl_reply = False, dev_removing = False, dev_tx_pending = [], dev_rx_pending = [], dev_wire = []\<rparr>"

text \<open>The loop over ring depths: \<open>envs i\<close> are the results of the allocations of attempt \<open>i\<close>.\<close>

function probe_rings ::
  "(nat \<Rightarrow> ring_env \<times> buf_env) \<Rightarrow> nat \<Rightarrow> nat \<Rightarrow> nat \<Rightarrow> nhi_res \<Rightarrow> odl_device \<Rightarrow> ((errno + nat) \<times> nhi_res \<times> odl_device) option" where
  "probe_rings envs fallback_min i ring_try res d =
     do {
       (ret, res, d) \<leftarrow> rings_bufs_alloc (fst (envs i)) (snd (envs i)) ring_try res d;
       case ret of
         Inr _ \<Rightarrow> Some (Inr ring_try, res, d)
       | Inl e \<Rightarrow> do {
           (res, d) \<leftarrow> rings_free res d;
           if e \<noteq> ENOMEM \<or> fallback_min = 0 \<or> ring_try \<le> fallback_min then Some (Inl e, res, d)
           else probe_rings envs fallback_min (Suc i) (max (ring_try div 2) fallback_min) res d
         }
     }"
  by pat_completeness auto
termination
  by (relation "measure (\<lambda>(envs, fallback_min, i, ring_try, res, d). ring_try)") auto

declare probe_rings.simps [simp del]

record probe_env =
  pe_kzalloc :: bool
  pe_ida :: "errno + nat"
  pe_cdev_add :: "errno option"
  pe_device_create :: "errno option"
  pe_rings :: "nat \<Rightarrow> ring_env \<times> buf_env"
  pe_route :: u64

definition empty_res :: nhi_res where
  "empty_res = \<lparr>nr_rings = {}, nr_hopids = {}, nr_arrays = 0, nr_bufs = 0\<rparr>"

text \<open>The last label of the error path.\<close>

definition err_free_dev :: "int \<Rightarrow> nat \<Rightarrow> driver \<Rightarrow> driver" where
  "err_free_dev max_devices index drv =
     (let drv = (if 0 < max_devices then drv\<lparr>drv_bound := drv_bound drv - 1\<rparr> else drv)
      in drv\<lparr>drv_ida := remove1 index (drv_ida drv)\<rparr>)"

text \<open>\<open>odl_tb5_proto_init\<close> always returns 0, so the label \<open>err_dma\<close> is never reached.\<close>

definition probe :: "int \<Rightarrow> nat \<Rightarrow> nat \<Rightarrow> probe_env \<Rightarrow> driver \<Rightarrow> ((errno + unit) \<times> driver) option" where
  "probe max_devices ring_size fallback_min env drv =
     (if 0 < max_devices \<and> max_devices < drv_bound drv + 1 then Some (Inl ENODEV, drv)
      else
        let drv = (if 0 < max_devices then drv\<lparr>drv_bound := drv_bound drv + 1\<rparr> else drv)
        in if \<not> pe_kzalloc env then Some (Inl ENOMEM, drv)
           else case pe_ida env of
                  Inl e \<Rightarrow> Some (Inl e, drv)
                | Inr index \<Rightarrow>
                    let drv = drv\<lparr>drv_ida := index # drv_ida drv\<rparr>
                    in (case chardev_create (pe_cdev_add env) (pe_device_create env) index drv of
                          (Inl e, drv) \<Rightarrow> Some (Inl e, err_free_dev max_devices index drv)
                        | (Inr _, drv) \<Rightarrow> do {
                            (ret, res, d) \<leftarrow> probe_rings (pe_rings env) fallback_min 0 ring_size empty_res new_device;
                            case ret of
                              Inl e \<Rightarrow> do { drv \<leftarrow> chardev_destroy index drv; Some (Inl e, err_free_dev max_devices index drv) }
                            | Inr _ \<Rightarrow>
                                let n = proto_init \<lparr>nd_route = pe_route env, nd_dev = d, nd_res = res, nd_in_hopids = {}, nd_paths = {},
                                          nd_work = {}, nd_timer = False, nd_pool_live = [], nd_batch_live = []\<rparr>
                                in Some (Inr (), drv\<lparr>drv_list := drv_list drv @ [(index, n)]\<rparr>)
                          }))"

section \<open>Remove\<close>

text \<open>
  The device side of \<open>odl_tb5_remove\<close>. \<open>exiting\<close> is \<open>odl_module_exiting\<close>. The device stays in the list of devices until the rings are
  stopped, so that packets, \<open>es\<close>, are handled for it after its work items have been cancelled.
\<close>

definition remove_quiesce :: "node \<Rightarrow> node" where
  "remove_quiesce n =
     (let n = upd_dev (\<lambda>d. d\<lparr>dev_removing := True\<rparr>) n;
          saved = dev_state (nd_dev n);
          n = set_state DISCONNECTED n;
          n = (if saved = CONNECTED \<or> saved = READY then proto_send_logout n else n)
      in cancel_ctrl_reply (cancel {VerifyWork, RestartWork, ConnectWork, LoginWork} (n\<lparr>nd_timer := False\<rparr>)))"

definition remove_link :: "bool \<Rightarrow> node \<Rightarrow> node option" where
  "remove_link exiting n =
     do {
       let d = nd_dev n;
       let n = (if exiting \<and> in_hopid_valid (dev_hs d) \<and> rc_ring (dev_tx d) \<noteq> None \<and> rc_ring (dev_rx d) \<noteq> None
                then disable_paths (hs_local_tx_hopid (dev_hs d)) (in_hopid (dev_hs d)) n else n);
       n \<leftarrow> node_stop n;
       if in_hopid_valid (dev_hs (nd_dev n)) then drop_in_hopid n else Some n
     }"

definition remove_free :: "node \<Rightarrow> node option" where
  "remove_free n =
     do {
       d \<leftarrow> streams_destroy_all (nd_dev n);
       let (p, pool_live) = frame_pool_free (dev_pool d) (nd_pool_live n);
       let (b, batch_live) = batch_pool_free (rc_ring (dev_tx d) \<noteq> None \<or> rc_ring (dev_rx d) \<noteq> None) (dev_bpool d) (nd_batch_live n);
       (res, d) \<leftarrow> dma_bufs_free (nd_res n) (d\<lparr>dev_pool := p, dev_bpool := b\<rparr>);
       (res, d) \<leftarrow> rings_free res d;
       Some (n\<lparr>nd_dev := d, nd_res := res, nd_pool_live := pool_live, nd_batch_live := batch_live\<rparr>)
     }"

definition remove_node :: "bool \<Rightarrow> nat \<Rightarrow> event list \<Rightarrow> node \<Rightarrow> node option" where
  "remove_node exiting mode es n =
     do {
       n \<leftarrow> node_events mode es (remove_quiesce n);
       n \<leftarrow> remove_link exiting n;
       remove_free n
     }"

text \<open>The whole call; the first value is the node at the moment its memory is freed.\<close>

definition remove :: "int \<Rightarrow> bool \<Rightarrow> nat \<Rightarrow> event list \<Rightarrow> nat \<Rightarrow> driver \<Rightarrow> (node option \<times> driver) option" where
  "remove max_devices exiting mode es index drv =
     (case map_of (drv_list drv) index of
        None \<Rightarrow> Some (None, drv)
      | Some n \<Rightarrow> do {
          n \<leftarrow> remove_node exiting mode es n;
          let drv = drv\<lparr>drv_list := filter (\<lambda>x. fst x \<noteq> index) (drv_list drv)\<rparr>;
          drv \<leftarrow> chardev_destroy index drv;
          let drv = (if 0 < max_devices then drv\<lparr>drv_bound := drv_bound drv - 1\<rparr> else drv);
          Some (Some n, drv\<lparr>drv_ida := remove1 index (drv_ida drv)\<rparr>)
        })"

section \<open>Probing is all or nothing\<close>

lemma probe_rings_ok:
  assumes "\<forall>i. fresh_env (fst (envs i))" "holds res d" "unequipped d" "unbuffered d"
  shows "\<exists>ret res' d'. probe_rings envs fallback_min i ring_try res d = Some (ret, res', d') \<and> holds res' d' \<and> keeps_link d d' \<and>
    (case ret of Inl _ \<Rightarrow> unequipped d' \<and> unbuffered d'
     | Inr k \<Rightarrow> provisioned (ring_size_of k) d' \<and> k \<le> ring_try \<and> (k = ring_try \<or> fallback_min \<le> k))"
  using assms
proof (induction envs fallback_min i ring_try res d rule: probe_rings.induct)
  case (1 envs fallback_min i ring_try res d)
  obtain ret res1 d1 where A: "rings_bufs_alloc (fst (envs i)) (snd (envs i)) ring_try res d = Some (ret, res1, d1)" "holds res1 d1"
    "if ret = Inr () then provisioned (ring_size_of ring_try) d1 else unbuffered d1"
    using rings_bufs_alloc_ok [OF "1.prems"(2-4)] "1.prems"(1) by blast
  note k1 = rings_bufs_alloc_keeps [OF A(1)]
  show ?case
  proof (cases ret)
    case (Inr u)
    with A k1 show ?thesis by (simp add: probe_rings.simps [of envs fallback_min i])
  next
    case (Inl e)
    obtain res2 d2 where F: "rings_free res1 d1 = Some (res2, d2)" "holds res2 d2" "unequipped d2"
      "rc_bufs (dev_tx d2) = rc_bufs (dev_tx d1)" "rc_bufs (dev_rx d2) = rc_bufs (dev_rx d1)" using rings_free_ok [OF A(2)] by blast
    have u: "unbuffered d2" using A(3) Inl F(4,5) by (simp add: unbuffered_def bufs_live_def)
    have k2: "keeps_link d d2" by (rule keeps_link_trans [OF k1 rings_free_keeps [OF F(1)]])
    let ?done = "e \<noteq> ENOMEM \<or> fallback_min = 0 \<or> ring_try \<le> fallback_min"
    have step: "probe_rings envs fallback_min i ring_try res d = (if ?done then Some (Inl e, res2, d2)
        else probe_rings envs fallback_min (Suc i) (max (ring_try div 2) fallback_min) res2 d2)"
      using A(1) Inl F(1) by (simp add: probe_rings.simps [of envs fallback_min i])
    show ?thesis
    proof (cases ?done)
      case True
      with step F(2,3) u k2 show ?thesis by auto
    next
      case False
      then obtain ret' res' d' where R: "probe_rings envs fallback_min (Suc i) (max (ring_try div 2) fallback_min) res2 d2 = Some (ret', res', d')"
        "holds res' d'" "keeps_link d2 d'" "case ret' of Inl _ \<Rightarrow> unequipped d' \<and> unbuffered d'
         | Inr k \<Rightarrow> provisioned (ring_size_of k) d' \<and> k \<le> max (ring_try div 2) fallback_min \<and> (k = max (ring_try div 2) fallback_min \<or> fallback_min \<le> k)"
        using "1.IH" [OF A(1) refl refl Inl F(1) refl False "1.prems"(1) F(2,3) u] by blast
      have "case ret' of Inl _ \<Rightarrow> unequipped d' \<and> unbuffered d'
         | Inr k \<Rightarrow> provisioned (ring_size_of k) d' \<and> k \<le> ring_try \<and> (k = ring_try \<or> fallback_min \<le> k)"
        using R(4) False by (auto split: sum.splits)
      moreover have "keeps_link d d'" by (rule keeps_link_trans [OF k2 R(3)])
      ultimately show ?thesis unfolding step if_not_P [OF False] R(1) using R(2) by blast
    qed
  qed
qed

lemma new_device_ok: "holds empty_res new_device" "unequipped new_device" "unbuffered new_device"
  by (simp_all add: holds_def unequipped_def unbuffered_def empty_res_def new_device_def zero_ring_def live_def bufs_live_def)

text \<open>A driver whose lists agree: every bound device has an index, a character device and a device node of its own.\<close>

definition driver_wf :: "driver \<Rightarrow> bool" where
  "driver_wf drv \<longleftrightarrow> distinct (drv_ida drv) \<and> set (drv_cdevs drv) = set (drv_ida drv) \<and> set (drv_nodes drv) = set (drv_ida drv) \<and>
     distinct (drv_cdevs drv) \<and> distinct (drv_nodes drv) \<and> map fst (drv_list drv) = rev (drv_ida drv)"

text \<open>A slot of \<open>max_devices\<close> that a failed probe keeps: the two early returns do not give it back.\<close>

definition slot_leaked :: "int \<Rightarrow> probe_env \<Rightarrow> driver \<Rightarrow> bool" where
  "slot_leaked max_devices env drv \<longleftrightarrow> 0 < max_devices \<and> drv_bound drv < max_devices \<and> (\<not> pe_kzalloc env \<or> (\<exists>e. pe_ida env = Inl e))"

lemma chardev_create_cases:
  assumes "chardev_create ca dc index drv = (ret, drv')" "index \<notin> set (drv_cdevs drv)"
  obtains e where "ret = Inl e" "drv' = drv"
  | "ret = Inr ()" "drv' = drv\<lparr>drv_cdevs := index # drv_cdevs drv, drv_nodes := index # drv_nodes drv\<rparr>"
  using assms by (cases ca; cases dc) (auto simp: chardev_create_def Let_def)

lemma err_free_dev_undo:
  "err_free_dev mx index (drv\<lparr>drv_bound := drv_bound drv + (if 0 < mx then 1 else 0), drv_ida := index # drv_ida drv\<rparr>) = drv"
  by (simp add: err_free_dev_def Let_def)

lemma new_node_ok:
  assumes "keeps_link new_device d"
  shows "hop_ok (proto_init \<lparr>nd_route = route, nd_dev = d, nd_res = res, nd_in_hopids = {}, nd_paths = {}, nd_work = {}, nd_timer = False,
    nd_pool_live = [], nd_batch_live = []\<rparr>)"
  using assms by (simp add: proto_init_def hop_ok_def link_def keeps_link_def new_device_def zero_ring_def)

definition probed :: "int \<Rightarrow> nat \<Rightarrow> nat \<Rightarrow> probe_env \<Rightarrow> driver \<Rightarrow> driver \<Rightarrow> bool" where
  "probed mx ring_size fallback_min env drv drv' \<longleftrightarrow> (\<exists>index n k. pe_ida env = Inr index \<and>
     drv' = drv\<lparr>drv_bound := drv_bound drv + (if 0 < mx then 1 else 0), drv_ida := index # drv_ida drv, drv_cdevs := index # drv_cdevs drv,
       drv_nodes := index # drv_nodes drv, drv_list := drv_list drv @ [(index, n)]\<rparr> \<and>
     hop_ok n \<and> holds (nd_res n) (nd_dev n) \<and> provisioned (ring_size_of k) (nd_dev n) \<and> k \<le> ring_size \<and> (k = ring_size \<or> fallback_min \<le> k) \<and>
     dev_state (nd_dev n) = HANDSHAKE \<and> nd_work n = {LoginWork})"

lemma probe_rings_new:
  assumes "\<forall>i. fresh_env (fst (pe_rings env i))"
  obtains e res d where "probe_rings (pe_rings env) fallback_min 0 ring_size empty_res new_device = Some (Inl e, res, d)"
  | k res d where "probe_rings (pe_rings env) fallback_min 0 ring_size empty_res new_device = Some (Inr k, res, d)" "holds res d"
      "keeps_link new_device d" "provisioned (ring_size_of k) d" "k \<le> ring_size" "k = ring_size \<or> fallback_min \<le> k"
proof -
  obtain ret res d where R: "probe_rings (pe_rings env) fallback_min 0 ring_size empty_res new_device = Some (ret, res, d)" "holds res d"
    "keeps_link new_device d" "case ret of Inl _ \<Rightarrow> unequipped d \<and> unbuffered d
     | Inr k \<Rightarrow> provisioned (ring_size_of k) d \<and> k \<le> ring_size \<and> (k = ring_size \<or> fallback_min \<le> k)"
    using probe_rings_ok [OF assms new_device_ok] by blast
  show thesis using R by (cases ret) (auto intro: that)
qed

lemma probe_cases:
  assumes "driver_wf drv" "\<forall>i. pe_ida env = Inr i \<longrightarrow> i \<notin> set (drv_ida drv)" "\<forall>i. fresh_env (fst (pe_rings env i))"
  shows "(\<exists>e. probe mx ring_size fallback_min env drv =
      Some (Inl e, drv\<lparr>drv_bound := drv_bound drv + (if slot_leaked mx env drv then 1 else 0)\<rparr>)) \<or>
    (\<exists>drv'. probe mx ring_size fallback_min env drv = Some (Inr (), drv') \<and> probed mx ring_size fallback_min env drv drv')"
proof -
  let ?p = "probe mx ring_size fallback_min env drv"
  let ?b = "drv\<lparr>drv_bound := drv_bound drv + (if 0 < mx then 1 else 0)\<rparr>"
  have b: "(if 0 < mx then drv\<lparr>drv_bound := drv_bound drv + 1\<rparr> else drv) = ?b" by simp
  show ?thesis
  proof (cases "0 < mx \<and> mx < drv_bound drv + 1 \<or> \<not> pe_kzalloc env \<or> (\<exists>e. pe_ida env = Inl e)")
    case True
    then show ?thesis by (auto simp: probe_def slot_leaked_def Let_def)
  next
    case False
    then obtain index where ix: "pe_ida env = Inr index" by (cases "pe_ida env") auto
    let ?i = "?b\<lparr>drv_ida := index # drv_ida drv\<rparr>"
    obtain ret drv1 where c: "chardev_create (pe_cdev_add env) (pe_device_create env) index ?i = (ret, drv1)"
      by (cases "chardev_create (pe_cdev_add env) (pe_device_create env) index ?i")
    have fresh: "index \<notin> set (drv_ida drv)" "index \<notin> set (drv_cdevs drv)" "index \<notin> set (drv_nodes drv)"
      using assms(1,2) ix by (auto simp: driver_wf_def)
    have p: "?p = (case ret of Inl e \<Rightarrow> Some (Inl e, err_free_dev mx index drv1)
      | Inr _ \<Rightarrow> do { (ret, res, d) \<leftarrow> probe_rings (pe_rings env) fallback_min 0 ring_size empty_res new_device;
          case ret of Inl e \<Rightarrow> do { drv \<leftarrow> chardev_destroy index drv1; Some (Inl e, err_free_dev mx index drv) }
          | Inr _ \<Rightarrow> let n = proto_init \<lparr>nd_route = pe_route env, nd_dev = d, nd_res = res, nd_in_hopids = {}, nd_paths = {},
                        nd_work = {}, nd_timer = False, nd_pool_live = [], nd_batch_live = []\<rparr>
              in Some (Inr (), drv1\<lparr>drv_list := drv_list drv1 @ [(index, n)]\<rparr>) })"
      using False ix c b by (auto simp: probe_def Let_def split: sum.split)
    have noleak: "\<not> slot_leaked mx env drv" using False by (simp add: slot_leaked_def)
    have "index \<notin> set (drv_cdevs ?i)" using fresh by simp
    with c show ?thesis
    proof (cases rule: chardev_create_cases)
      case (1 e)
      with p noleak err_free_dev_undo [of mx index drv] show ?thesis by simp
    next
      case created: 2
      from assms(3) show ?thesis
      proof (cases rule: probe_rings_new [where ring_size = ring_size and fallback_min = fallback_min])
        case (1 e res d)
        have "chardev_destroy index drv1 = Some ?i" using created(2) fresh by (simp add: chardev_destroy_def)
        with p created(1) 1 noleak err_free_dev_undo [of mx index drv] show ?thesis by simp
      next
        case (2 k res d)
        let ?n = "proto_init \<lparr>nd_route = pe_route env, nd_dev = d, nd_res = res, nd_in_hopids = {}, nd_paths = {},
                        nd_work = {}, nd_timer = False, nd_pool_live = [], nd_batch_live = []\<rparr>"
        have n: "hop_ok ?n" "holds (nd_res ?n) (nd_dev ?n)" "provisioned (ring_size_of k) (nd_dev ?n)" "dev_state (nd_dev ?n) = HANDSHAKE"
          "nd_work ?n = {LoginWork}"
          using new_node_ok [OF 2(3)] 2(2,4) by (auto simp: proto_init_def holds_def provisioned_def equipped_def buffered_def)
        have "?p = Some (Inr (), drv1\<lparr>drv_list := drv_list drv1 @ [(index, ?n)]\<rparr>)" using p created(1) 2(1) by (simp add: Let_def)
        moreover have "probed mx ring_size fallback_min env drv (drv1\<lparr>drv_list := drv_list drv1 @ [(index, ?n)]\<rparr>)"
          unfolding probed_def using ix created(2) n 2(5,6) by (intro exI [of _ index] exI [of _ ?n] exI [of _ k]) simp
        ultimately show ?thesis by blast
      qed
    qed
  qed
qed


section \<open>Removing a device\<close>

lemma remove_quiesce_dev:
  "nd_dev (remove_quiesce n) = (nd_dev n)\<lparr>dev_state := DISCONNECTED, dev_removing := True, dev_ctrl_reply := False\<rparr>"
  "nd_work (remove_quiesce n) = {}" "\<not> nd_timer (remove_quiesce n)" "nd_in_hopids (remove_quiesce n) = nd_in_hopids n"
  "nd_paths (remove_quiesce n) = nd_paths n" "nd_res (remove_quiesce n) = nd_res n" "nd_pool_live (remove_quiesce n) = nd_pool_live n"
  "nd_batch_live (remove_quiesce n) = nd_batch_live n"
proof -
  have "w \<in> {VerifyWork, RestartWork, ConnectWork, LoginWork}" for w by (cases w) auto
  then have all: "X - {VerifyWork, RestartWork, ConnectWork, LoginWork} = {}" for X by blast
  show "nd_dev (remove_quiesce n) = (nd_dev n)\<lparr>dev_state := DISCONNECTED, dev_removing := True, dev_ctrl_reply := False\<rparr>"
    "nd_work (remove_quiesce n) = {}" "\<not> nd_timer (remove_quiesce n)" "nd_in_hopids (remove_quiesce n) = nd_in_hopids n"
    "nd_paths (remove_quiesce n) = nd_paths n" "nd_res (remove_quiesce n) = nd_res n" "nd_pool_live (remove_quiesce n) = nd_pool_live n"
    "nd_batch_live (remove_quiesce n) = nd_batch_live n"
    using all by (simp_all add: remove_quiesce_def Let_def proto_send_logout_def node_defs)
qed

lemma free_msgs_le: "free_msgs as ms = Some ms' \<Longrightarrow> ms' \<subseteq>\<^sub>m ms"
  by (induction as arbitrary: ms) (force simp: map_le_def split: option.splits if_splits)+

lemma stream_destroy_keeps:
  "stream_destroy a d = Some d' \<Longrightarrow> dev_tx d' = dev_tx d \<and> dev_rx d' = dev_rx d \<and> dev_hs d' = dev_hs d \<and> dev_pool d' = dev_pool d \<and>
    dev_bpool d' = dev_bpool d \<and> dev_msgs d' \<subseteq>\<^sub>m dev_msgs d"
  by (auto simp: stream_destroy_def stream_put_def stream_free_def del_owned_def Let_def bind_eq_Some_conv
      split: option.splits nat.splits if_splits dest: free_msgs_le)

lemma destroy_each_keeps:
  "destroy_each as d = Some d' \<Longrightarrow> dev_tx d' = dev_tx d \<and> dev_rx d' = dev_rx d \<and> dev_hs d' = dev_hs d \<and> dev_pool d' = dev_pool d \<and>
    dev_bpool d' = dev_bpool d \<and> dev_msgs d' \<subseteq>\<^sub>m dev_msgs d"
  by (induction as arbitrary: d) (auto simp: bind_eq_Some_conv dest!: stream_destroy_keeps intro: map_le_trans)

lemma batch_pool_free_live:
  assumes "batch_pool_wf p"
  shows "snd (batch_pool_free True p ls) = filter (\<lambda>j. BATCH_BUF_COUNT \<le> j) ls"
proof -
  have v: "bb_virt (bp_bufs p ! i) \<noteq> None" if "i < BATCH_BUF_COUNT" for i
    using assms that by (auto simp: batch_pool_wf_def buf_ok_def split: option.splits)
  then have "bb_virt (bp_bufs p ! 0) \<noteq> None" by (simp add: driver_consts)
  moreover have "filter (\<lambda>j. \<not> (j < BATCH_BUF_COUNT \<and> bb_virt (bp_bufs p ! j) \<noteq> None)) ls = filter (\<lambda>j. BATCH_BUF_COUNT \<le> j) ls"
    using v by (intro filter_cong) (fastforce simp: not_less [symmetric])+
  ultimately show ?thesis by (auto simp: batch_pool_free_def fold_removeAll)
qed

lemma rings_free_objects:
  assumes "rings_free res d = Some (res', d')"
  shows "dev_streams d' = dev_streams d \<and> dev_heap d' = dev_heap d \<and> dev_msgs d' = dev_msgs d"
proof -
  obtain res2 res3 res5 d1 where R: "(if 0 \<le> hs_local_tx_hopid (dev_hs d)
      then do { res \<leftarrow> release_out_hopid (hs_local_tx_hopid (dev_hs d)) res2; Some (res, set_local_hopid (- 1) d) }
      else Some (res2, d)) = Some (res3, d1)"
    "Some (res5, upd_rx (\<lambda>c. c\<lparr>rc_ring := None, rc_frames := None\<rparr>) (upd_tx (\<lambda>c. c\<lparr>rc_ring := None, rc_frames := None\<rparr>) d1))
      = Some (res', d')"
    using assms unfolding rings_free_def bind_eq_Some_conv split_paired_Ex prod.case by blast
  have "dev_streams d1 = dev_streams d \<and> dev_heap d1 = dev_heap d \<and> dev_msgs d1 = dev_msgs d"
    using R(1) by (auto simp: set_local_hopid_def bind_eq_Some_conv split: if_splits)
  with R(2) show ?thesis by (auto simp: upd_tx_def upd_rx_def)
qed

lemma rings_teardown_objects:
  assumes "holds res d" "rc_ring (dev_tx d) \<noteq> None"
  shows "\<exists>d1 res1 d'. dma_bufs_free res d = Some (res1, d1) \<and> rings_free res1 d1 = Some (empty_res, d') \<and>
    dev_streams d' = dev_streams d \<and> dev_heap d' = dev_heap d \<and> dev_msgs d' = dev_msgs d"
proof -
  obtain bt br where B: "dma_bufs_free res d = Some (res\<lparr>nr_bufs := 0\<rparr>, with_bufs bt br d)"
    "holds (res\<lparr>nr_bufs := 0\<rparr>) (with_bufs bt br d)" "unbuffered (with_bufs bt br d)"
    using dma_bufs_free_ok [OF assms(1)] assms(2) by blast
  obtain res' d' where R: "rings_free (res\<lparr>nr_bufs := 0\<rparr>) (with_bufs bt br d) = Some (res', d')" "holds res' d'" "unequipped d'"
    "rc_bufs (dev_tx d') = bt" "rc_bufs (dev_rx d') = br"
    using rings_free_ok [OF B(2)] by (auto simp: with_bufs_def)
  have "res' = empty_res"
    using R(2-5) B(3) by (cases res') (simp add: holds_def unequipped_def unbuffered_def bufs_live_def with_bufs_def live_def empty_res_def)
  moreover have "dev_streams d' = dev_streams d \<and> dev_heap d' = dev_heap d \<and> dev_msgs d' = dev_msgs d"
    using rings_free_objects [OF R(1)] by (simp add: with_bufs_def)
  ultimately show ?thesis using B(1) R(1) by blast
qed

lemma remove_free_ok:
  assumes "streams_wf refs (nd_dev n)" "frame_pool_wf (dev_pool (nd_dev n))" "batch_pool_wf (dev_bpool (nd_dev n))"
    "holds (nd_res n) (nd_dev n)" "rc_ring (dev_tx (nd_dev n)) \<noteq> None" "\<forall>j \<in> set (nd_pool_live n). j < FRAME_POOL_SIZE"
    "\<forall>j \<in> set (nd_batch_live n). j < BATCH_BUF_COUNT"
  shows "\<exists>n'. remove_free n = Some n' \<and> nd_res n' = empty_res \<and> nd_pool_live n' = [] \<and> nd_batch_live n' = [] \<and>
    dev_streams (nd_dev n') = [] \<and> dom (dev_heap (nd_dev n')) = {a. 0 < refs a} \<and> dev_msgs (nd_dev n') \<subseteq>\<^sub>m dev_msgs (nd_dev n) \<and>
    nd_work n' = nd_work n \<and> nd_timer n' = nd_timer n \<and> nd_in_hopids n' = nd_in_hopids n \<and> nd_paths n' = nd_paths n"
proof -
  obtain d1 where d1: "destroy_each (dev_streams (nd_dev n)) (nd_dev n) = Some d1" "streams_wf refs d1" "dev_streams d1 = []"
    using destroy_each_all [OF assms(1)] by blast
  note k = destroy_each_keeps [OF d1(1)]
  have "a \<in> dom (dev_heap d1) \<longleftrightarrow> 0 < refs a" for a
    using streams_wfD(6) [OF d1(2), of a] d1(3) by (auto simp: stream_ok_def split: option.splits)
  then have dom: "dom (dev_heap d1) = {a. 0 < refs a}" by auto
  obtain p pl where P: "frame_pool_free (dev_pool d1) (nd_pool_live n) = (p, pl)" by fastforce
  obtain b bl where B: "batch_pool_free True (dev_bpool d1) (nd_batch_live n) = (b, bl)" by fastforce
  have pl: "pl = []" using frame_pool_free_live [of "dev_pool d1" "nd_pool_live n"] k assms(2,6) P by (auto simp: not_le)
  have bl: "bl = []" using batch_pool_free_live [of "dev_bpool d1" "nd_batch_live n"] k assms(3,7) B by (auto simp: not_le)
  have "holds (nd_res n) (d1\<lparr>dev_pool := p, dev_bpool := b\<rparr>)" "rc_ring (dev_tx (d1\<lparr>dev_pool := p, dev_bpool := b\<rparr>)) \<noteq> None"
    using assms(4,5) k by (simp_all add: holds_def)
  from rings_teardown_objects [OF this] obtain d2 res2 d' where
    "dma_bufs_free (nd_res n) (d1\<lparr>dev_pool := p, dev_bpool := b\<rparr>) = Some (res2, d2)" "rings_free res2 d2 = Some (empty_res, d')"
    "dev_streams d' = []" "dev_heap d' = dev_heap d1" "dev_msgs d' = dev_msgs d1" using d1(3) by auto
  then show ?thesis using d1(1) k P B pl bl dom assms(5) by (simp add: remove_free_def streams_destroy_all_def)
qed

text \<open>Stopping the link: the paths go only when the module is being unloaded.\<close>

lemma remove_link_ok:
  assumes "hop_ok n" "holds (nd_res n) (nd_dev n)" "tx_wf refs {} (\<lambda>_. 0) (\<lambda>_. 0) (nd_dev n)" "rx_slots_posted posted (nd_dev n)"
    "rc_started (dev_tx (nd_dev n))" "rc_started (dev_rx (nd_dev n))"
  shows "\<exists>n'. remove_link exiting n = Some n' \<and> streams_wf refs (nd_dev n') \<and> frame_pool_wf (dev_pool (nd_dev n')) \<and>
    batch_pool_wf (dev_bpool (nd_dev n')) \<and> holds (nd_res n') (nd_dev n') \<and> rc_ring (dev_tx (nd_dev n')) \<noteq> None \<and>
    nd_pool_live n' = nd_pool_live n \<and> nd_batch_live n' = nd_batch_live n \<and> dev_msgs (nd_dev n') = Map.empty \<and>
    nd_work n' = nd_work n \<and> nd_timer n' = nd_timer n \<and> nd_in_hopids n' = {} \<and> nd_paths n' = (if exiting then {} else nd_paths n)"
proof -
  let ?d = "nd_dev n"
  obtain d1 where S: "rings_stop ?d = Some d1" "dev_msgs d1 = Map.empty" "streams_wf refs d1" "frame_pool_wf (dev_pool d1)"
    "batch_pool_wf (dev_bpool d1)" "same_ctx ((dev_tx ?d)\<lparr>rc_started := False, rc_frames_posted := False\<rparr>) (dev_tx d1)"
    "dev_rx d1 = (dev_rx ?d)\<lparr>rc_started := False, rc_frames_posted := False\<rparr>"
    using rings_stop_ok [OF assms(3-6)] by blast
  have r: "rc_ring (dev_tx ?d) \<noteq> None" "rc_ring (dev_rx ?d) \<noteq> None"
    using tx_baseD(3,5) [OF tx_wfD(1) [OF assms(3)]] by (auto simp: streams_wf_def rx_base_ok_def)
  have hs: "hs_core (dev_hs d1) = hs_core (dev_hs ?d)" using rings_stop_ctl [OF S(1)] by (simp add: ctl_def)
  note hs = hs_coreD(1-3) [OF hs]
  have h: "holds (nd_res n) d1" using assms(2) S(7) same_ctxD(1,3,4) [OF S(6)] hs by (simp add: holds_def bufs_live_def)
  let ?v = "in_hopid_valid (dev_hs ?d)" and ?pair = "(hs_local_tx_hopid (dev_hs ?d), in_hopid (dev_hs ?d))"
  let ?n = "n\<lparr>nd_paths := (if exiting \<and> ?v then nd_paths n - {?pair} else nd_paths n), nd_dev := d1\<rparr>"
  have eq: "remove_link exiting n = (if ?v then drop_in_hopid ?n else Some ?n)"
    using S(1) r hs by (simp add: remove_link_def Let_def node_stop_def disable_paths_def)
  have ids: "nd_in_hopids n = (if ?v then {in_hopid (dev_hs ?d)} else {})" "nd_paths n \<subseteq> (if ?v then {?pair} else {})"
    using assms(1,5) by (auto simp: hop_ok_def link_def)
  have ring: "rc_ring (dev_tx d1) \<noteq> None" using same_ctxD(1) [OF S(6)] r by simp
  show ?thesis
  proof (cases ?v)
    case True
    have sw: "streams_wf refs (d1\<lparr>dev_hs := (dev_hs d1)\<lparr>in_hopid_valid := False\<rparr>\<rparr>)"
      by (rule streams_wf_cong [OF S(3)]) (simp_all add: S(4))
    have "remove_link exiting n = Some (upd_hs (\<lambda>hs. hs\<lparr>in_hopid_valid := False\<rparr>) (?n\<lparr>nd_in_hopids := {}\<rparr>))"
      using True eq ids hs by (simp add: drop_in_hopid_def release_in_hopid_def)
    then show ?thesis using S h sw ring ids True by (auto simp: node_defs holds_def)
  next
    case False
    then show ?thesis using eq S h ring ids by auto
  qed
qed

text \<open>A device that is up: its rings run, and all the driver holds for it is accounted for; \<open>refs a\<close> is the number of references
  to stream \<open>a\<close> that are held outside the driver's own tables.\<close>

definition removable :: "(nat \<Rightarrow> nat) \<Rightarrow> nat list \<Rightarrow> node \<Rightarrow> bool" where
  "removable refs posted n \<longleftrightarrow> hop_ok n \<and> holds (nd_res n) (nd_dev n) \<and> tx_wf refs {} (\<lambda>_. 0) (\<lambda>_. 0) (nd_dev n) \<and>
     rx_slots_posted posted (nd_dev n) \<and> rc_started (dev_tx (nd_dev n)) \<and> rc_started (dev_rx (nd_dev n)) \<and>
     (\<forall>j \<in> set (nd_pool_live n). j < FRAME_POOL_SIZE) \<and> (\<forall>j \<in> set (nd_batch_live n). j < BATCH_BUF_COUNT)"

text \<open>Nothing of the device is left.\<close>

definition released :: "(nat \<Rightarrow> nat) \<Rightarrow> node \<Rightarrow> bool" where
  "released refs n \<longleftrightarrow> nd_res n = empty_res \<and> nd_in_hopids n = {} \<and> nd_pool_live n = [] \<and> nd_batch_live n = [] \<and>
     dev_streams (nd_dev n) = [] \<and> dev_msgs (nd_dev n) = Map.empty \<and> dom (dev_heap (nd_dev n)) = {a. 0 < refs a}"

lemma remove_rest_ok:
  assumes "removable refs posted n"
  shows "\<exists>n'. do { n \<leftarrow> remove_link exiting n; remove_free n } = Some n' \<and> released refs n' \<and> nd_work n' = nd_work n \<and> nd_timer n' = nd_timer n \<and>
    nd_paths n' = (if exiting then {} else nd_paths n)"
proof -
  note r = assms [unfolded removable_def]
  obtain n1 where L: "remove_link exiting n = Some n1" "streams_wf refs (nd_dev n1)" "frame_pool_wf (dev_pool (nd_dev n1))"
    "batch_pool_wf (dev_bpool (nd_dev n1))" "holds (nd_res n1) (nd_dev n1)" "rc_ring (dev_tx (nd_dev n1)) \<noteq> None"
    "nd_pool_live n1 = nd_pool_live n" "nd_batch_live n1 = nd_batch_live n" "dev_msgs (nd_dev n1) = Map.empty" "nd_work n1 = nd_work n"
    "nd_timer n1 = nd_timer n" "nd_in_hopids n1 = {}" "nd_paths n1 = (if exiting then {} else nd_paths n)"
    using remove_link_ok [of n refs posted exiting] r by blast
  obtain n' where F: "remove_free n1 = Some n'" "nd_res n' = empty_res" "nd_pool_live n' = []" "nd_batch_live n' = []" "dev_streams (nd_dev n') = []"
    "dom (dev_heap (nd_dev n')) = {a. 0 < refs a}" "dev_msgs (nd_dev n') \<subseteq>\<^sub>m dev_msgs (nd_dev n1)" "nd_work n' = nd_work n1"
    "nd_timer n' = nd_timer n1" "nd_in_hopids n' = nd_in_hopids n1" "nd_paths n' = nd_paths n1"
    using remove_free_ok [OF L(2-6)] r L(7,8) by auto
  have "dev_msgs (nd_dev n') = Map.empty" using F(7) L(9) by (auto simp: map_le_def)
  with F L show ?thesis by (simp add: released_def)
qed

lemma removable_upd:
  assumes "removable refs posted n" "nd_dev n' = (nd_dev n)\<lparr>dev_state := DISCONNECTED, dev_removing := r, dev_ctrl_reply := c, dev_hs := hs\<rparr>"
    "in_hopid_valid hs = in_hopid_valid (dev_hs (nd_dev n))" "in_hopid hs = in_hopid (dev_hs (nd_dev n))"
    "hs_local_tx_hopid hs = hs_local_tx_hopid (dev_hs (nd_dev n))" "nd_in_hopids n' = nd_in_hopids n" "nd_paths n' = nd_paths n" "nd_res n' = nd_res n"
    "nd_pool_live n' = nd_pool_live n" "nd_batch_live n' = nd_batch_live n"
  shows "removable refs posted n'"
proof -
  have R: "hop_ok n" "holds (nd_res n) (nd_dev n)" "tx_wf refs {} (\<lambda>_. 0) (\<lambda>_. 0) (nd_dev n)" "rx_slots_posted posted (nd_dev n)"
    "rc_started (dev_tx (nd_dev n))" "rc_started (dev_rx (nd_dev n))" "\<forall>j \<in> set (nd_pool_live n). j < FRAME_POOL_SIZE"
    "\<forall>j \<in> set (nd_batch_live n). j < BATCH_BUF_COUNT"
    using assms(1) unfolding removable_def by blast+
  have "hop_ok n'" using R(1,5) assms(2-7) by (auto simp: hop_ok_def link_def)
  moreover have "tx_wf refs {} (\<lambda>_. 0) (\<lambda>_. 0) (nd_dev n')" using assms(2) by (intro tx_wf_cong [OF R(3)]) (simp_all add: same_objects_def)
  moreover have "holds (nd_res n') (nd_dev n')" "rx_slots_posted posted (nd_dev n')"
    using R(2,4) assms(2,5,8) by (simp_all add: holds_def rx_slots_posted_def)
  ultimately show ?thesis using R(5-8) assms(2,9,10) by (simp add: removable_def)
qed

lemma remove_quiesce_removable: "removable refs posted n \<Longrightarrow> removable refs posted (remove_quiesce n)"
  by (erule removable_upd [where hs = "dev_hs (nd_dev n)" and r = True and c = False]) (simp_all add: remove_quiesce_dev)

text \<open>C30: Removal releases everything. From a device that is up, with any frames queued and any messages under way, \<open>odl_tb5_remove\<close>
  completes: no work item and no timer is pending, the rings, HopIDs, frame arrays, DMA buffers, frame pool and batch buffers are given back,
  no message is left, and the streams still allocated are exactly those to which somebody else holds a reference. The paths are
  disabled when the module is being unloaded, and left to the Thunderbolt core otherwise.\<close>

theorem remove_releases:
  assumes "removable refs posted n"
  shows "\<exists>n'. remove_node exiting mode [] n = Some n' \<and> released refs n' \<and> nd_work n' = {} \<and> \<not> nd_timer n' \<and>
    nd_paths n' = (if exiting then {} else nd_paths n)"
  using remove_rest_ok [OF remove_quiesce_removable [OF assms], of exiting] by (cases exiting) (simp_all add: remove_node_def remove_quiesce_dev)

text \<open>C32: A logout packet in the window of removal leaves work behind. The work items are cancelled before the device is
  taken off the list, and the packet handler does not look at the removal mark: a logout that is handled in between schedules the
  restart work again, and the removal completes and frees the device with that work item pending.\<close>

theorem remove_window_packet:
  assumes "removable refs posted n" "xd_header_of buf = Some h" "xh_type h = MSG_LOGOUT"
  shows "\<exists>n'. remove_node exiting mode [Packet ok buf] n = Some n' \<and> released refs n' \<and> nd_work n' = {RestartWork}"
proof -
  let ?q = "remove_quiesce n"
  have p: "node_packet mode ok buf ?q = Some (True, [], handle_logout ?q)" using assms(2,3) by (simp add: node_packet_def MSG_LOGIN_def MSG_LOGOUT_def)
  let ?hs = "(dev_hs (nd_dev ?q))\<lparr>stale_remote_tx_hopid := hs_remote_tx_hopid (dev_hs (nd_dev ?q)), login_received := False, login_sent := False,
        login_generation := login_generation (dev_hs (nd_dev ?q)) + 1\<rparr>"
  have "removable refs posted (handle_logout ?q)"
    by (rule removable_upd [OF remove_quiesce_removable [OF assms(1)], where hs = ?hs and r = True and c = False])
      (simp_all add: handle_logout_def remove_quiesce_dev node_defs)
  moreover have "nd_work (handle_logout ?q) = {RestartWork}" by (simp add: handle_logout_def remove_quiesce_dev node_defs)
  ultimately show ?thesis using remove_rest_ok [of refs posted "handle_logout ?q" exiting] p by (auto simp: remove_node_def)
qed

section \<open>Instances\<close>

definition new_driver :: driver where
  "new_driver = \<lparr>drv_bound = 0, drv_ida = [], drv_cdevs = [], drv_nodes = [], drv_list = []\<rparr>"

definition sample_probe :: probe_env where
  "sample_probe = \<lparr>pe_kzalloc = True, pe_ida = Inr 0, pe_cdev_add = None, pe_device_create = None,
     pe_rings = (\<lambda>_. (sample_ring_env, sample_buf_env)), pe_route = 1\<rparr>"

lemma new_driver_ok: "driver_wf new_driver"
  by (simp add: driver_wf_def new_driver_def)


text \<open>A device with a stream, whose rings run and whose pools are allocated.\<close>

definition up_device :: odl_device where
  "up_device = sample_sender\<lparr>dev_tx := (full_ring 1 64)\<lparr>rc_started := True\<rparr>, dev_rx := (full_ring 2 64)\<lparr>rc_started := True\<rparr>\<rparr>"

definition up_node :: node where
  "up_node = link_node\<lparr>nd_dev := up_device, nd_pool_live := [0..<FRAME_POOL_SIZE], nd_batch_live := [0..<BATCH_BUF_COUNT]\<rparr>"

lemma up_node_ok: "removable (\<lambda>_. 0) [] up_node"
proof -
  have st: "dev_hs up_device = sample_hs" "dev_state up_device = READY" "dev_rx_pending up_device = []" "dev_rx_posted up_device = 0"
    by (simp_all add: up_device_def sample_sender_def with_stream_def add_owned_def sample_device_def)
  have "streams_wf (\<lambda>_. 0) sample_sender" using sample_sender_idle by (simp add: tx_idle_def)
  moreover have "stream_num up_device = stream_num sample_sender" by (simp add: stream_num_def [abs_def] up_device_def)
  ultimately have "streams_wf (\<lambda>_. 0) up_device"
    by (auto simp: up_device_def full_ring_def streams_wf_def rx_base_ok_def)
  then have "tx_wf (\<lambda>_. 0) {} (\<lambda>_. 0) (\<lambda>_. 0) up_device"
    using sample_sender_idle by (intro tx_idle_wf) (simp add: tx_idle_def up_device_def full_ring_def)
  moreover have "holds full_res up_device"
    using full_device_ok(1) [of 64] st(1) by (simp add: holds_def full_device_def up_device_def bufs_live_def sample_device_def)
  moreover have "rx_slots_posted [] up_device" using st by (simp add: rx_slots_posted_def)
  moreover have "hop_ok up_node" using st by (auto simp: hop_ok_def link_def up_node_def link_node_def sample_hs_def up_device_def full_ring_def)
  ultimately show ?thesis by (simp add: removable_def up_node_def link_node_def up_device_def)
qed

theorem remove_releases_witness:
  "\<exists>n'. remove_node True 0 [] up_node = Some n' \<and> nd_res n' = empty_res \<and> nd_work n' = {} \<and> nd_paths n' = {}"
  using remove_releases [OF up_node_ok, of True 0] by (auto simp: released_def)

definition logout_packet :: "byte list" where
  "logout_packet = xd_header_bytes (xd_header_init 1 MSG_LOGOUT XD_HEADER_SIZE)"

theorem remove_window_packet_witness:
  "\<exists>n'. remove_node False 0 [Packet True logout_packet] up_node = Some n' \<and> nd_work n' = {RestartWork}"
proof -
  have h: "xd_header_of logout_packet = Some (xd_header_init 1 MSG_LOGOUT XD_HEADER_SIZE)"
    using xd_header_roundtrip [of "xd_header_init 1 MSG_LOGOUT XD_HEADER_SIZE" "[]"]
    by (simp add: logout_packet_def uuid_ok_def xd_header_init_def)
  have "xh_type (xd_header_init 1 MSG_LOGOUT XD_HEADER_SIZE) = MSG_LOGOUT" by (simp add: xd_header_init_def)
  from remove_window_packet [OF up_node_ok h this, of False 0 True] show ?thesis by blast
qed

end
