(* ===== verification/Chardev.thy ===== *)
theory Chardev
  imports Legacy_Submit Reg_Frame
begin

text \<open>
  The character device, \<^verbatim>\<open>driver/odl_tb5_chardev.c\<close>: \<open>odl_tb5_open\<close>, \<open>odl_tb5_release\<close>, \<open>odl_tb5_ioctl\<close> with all its commands,
  \<open>odl_tb5_mmap\<close> and \<open>odl_tb5_poll\<close>, over the operations of the stream table, the send and receive paths and the legacy submissions. The properties are
  about all files that are open at a time: what they may do to each other, and what remains when they are closed.
\<close>

section \<open>Requests and results\<close>

text \<open>The commands with the fields of the request that the handler reads. \<open>dst\<close> and \<open>data\<close> are what \<open>req.data\<close> and \<open>req.len\<close> describe.\<close>

datatype ioctl_cmd =
    STREAM_OPEN u8
  | STREAM_CLOSE u8
  | STREAM_SEND u8 u8 "byte list"
  | STREAM_RECV u8 u32
  | STREAM_WAIT_TX u8 u32
  | STREAM_WAIT_RX u8 u32
  | STREAM_SEND_DMABUF u8 u64 u64
  | STREAM_RECV_DMABUF u8 u64 u64
  | XFER_SEND u64 u64 u32
  | XFER_RECV u64 u64
  | SEND_DMABUF u64 u64
  | RECV_DMABUF u64 u64
  | POLL_COMPLETION
  | WAIT_TX
  | WAIT_RX
  | GET_PEER
  | GET_BUF_INFO
  | SWAP_TX_BUF
  | SWAP_RX_BUF
  | WAIT_READY u32
  | UNKNOWN_CMD

record completion =
  cp_tx_completed :: u32
  cp_rx_completed :: u32
  cp_tx_submitted :: u32
  cp_rx_submitted :: u32

text \<open>What the Thunderbolt core knows of the peer; a name may be missing.\<close>

record xdomain =
  xd_remote_uuid :: "byte list option"
  xd_link_speed :: u32
  xd_link_width :: u32
  xd_vendor_name :: "byte list option"
  xd_device_name :: "byte list option"

record peer_info =
  pi_uuid :: "byte list"
  pi_link_speed :: u32
  pi_link_width :: u32
  pi_state :: u32
  pi_vendor_name :: "byte list"
  pi_device_name :: "byte list"

record buf_info =
  bi_tx_buf_size :: nat
  bi_rx_buf_size :: nat
  bi_tx_buf_count :: nat
  bi_rx_buf_count :: nat

text \<open>What a successful call copies to the user.\<close>

datatype io_out =
    OutNone
  | OutStream u8
  | OutData u8 "byte list"
  | OutCompletion completion
  | OutPeer peer_info
  | OutBufs buf_info

text \<open>The device, the open files (the addresses of their contexts) and the references to DMA-BUFs.\<close>

record file_sys =
  fs_dev :: odl_device
  fs_files :: "nat list"
  fs_open_count :: int
  fs_dmabuf :: dmabuf_res

type_synonym io = "((errno + io_out) wait_result \<times> file_sys) option"

text \<open>
  The environment of one call: the flags of the file, the results of the copies from and to the user and of the allocations, the answers
  of the rings, the completions that run during the call, and whether a wait is ended by a signal or by its timeout.
\<close>

record io_env =
  io_nonblock :: bool
  io_copy_in :: bool
  io_copy_out :: bool
  io_data_ok :: bool
  io_intr :: bool
  io_timeout :: bool
  io_alloc :: "nat option"
  io_ida :: bool
  io_rx_ok :: "int \<Rightarrow> bool"
  io_tx :: "tx_env list"
  io_done :: "(frame_ref \<times> bool) list"
  io_ret :: "nat \<Rightarrow> errno option"
  io_dmabuf :: dmabuf_env
  io_kmalloc :: "nat \<Rightarrow> byte list option"
  io_rxm_ok :: bool
  io_xd :: "xdomain option"

section \<open>Open and release\<close>

definition file_open :: "nat option \<Rightarrow> file_sys \<Rightarrow> (errno + nat) \<times> file_sys" where
  "file_open alloc s =
     (case alloc of
        None \<Rightarrow> (Inl ENOMEM, s)
      | Some c \<Rightarrow> (Inr c, s\<lparr>fs_dev := (fs_dev s)\<lparr>dev_owners := (dev_owners (fs_dev s))(c := [])\<rparr>, fs_files := c # fs_files s,
          fs_open_count := fs_open_count s + 1\<rparr>))"

definition file_release :: "nat \<Rightarrow> file_sys \<Rightarrow> file_sys option" where
  "file_release c s =
     (if c \<notin> set (fs_files s) then None
      else do {
        d \<leftarrow> destroy_each (dev_owners (fs_dev s) c) (fs_dev s);
        Some (s\<lparr>fs_dev := d, fs_files := remove1 c (fs_files s), fs_open_count := fs_open_count s - 1\<rparr>)
      })"

section \<open>Stream commands\<close>

definition ret_err :: "errno \<Rightarrow> file_sys \<Rightarrow> io" where
  "ret_err e s = Some (Returned (Inl e), s)"

definition copy_to_user :: "io_env \<Rightarrow> io_out \<Rightarrow> file_sys \<Rightarrow> io" where
  "copy_to_user env out s = (if io_copy_out env then Some (Returned (Inr out), s) else ret_err EFAULT s)"

definition ioctl_stream_open :: "io_env \<Rightarrow> nat \<Rightarrow> u8 \<Rightarrow> file_sys \<Rightarrow> io" where
  "ioctl_stream_open env c stream_id s =
     (if \<not> io_copy_in env then ret_err EFAULT s
      else do {
        (r, d) \<leftarrow> stream_create (io_alloc env) (io_ida env) (io_rx_ok env) (Some c) stream_id (fs_dev s);
        let s = s\<lparr>fs_dev := d\<rparr>;
        case r of
          Inl e \<Rightarrow> ret_err e s
        | Inr a \<Rightarrow> do {
            st \<leftarrow> dev_heap d a;
            if io_copy_out env then Some (Returned (Inr (OutStream (st_id st))), s)
            else do { d \<leftarrow> stream_destroy a d; ret_err EFAULT (s\<lparr>fs_dev := d\<rparr>) }
          }
      })"

definition ioctl_stream_close :: "io_env \<Rightarrow> nat \<Rightarrow> u8 \<Rightarrow> file_sys \<Rightarrow> io" where
  "ioctl_stream_close env c stream_id s =
     (if \<not> io_copy_in env then ret_err EFAULT s
      else do {
        (r, d) \<leftarrow> stream_lookup stream_id (fs_dev s);
        case r of
          None \<Rightarrow> ret_err ENOENT (s\<lparr>fs_dev := d\<rparr>)
        | Some a \<Rightarrow> do {
            st \<leftarrow> dev_heap d a;
            d \<leftarrow> stream_put a d;
            if st_owner st \<noteq> Some c then ret_err EPERM (s\<lparr>fs_dev := d\<rparr>)
            else do { d \<leftarrow> stream_destroy a d; Some (Returned (Inr OutNone), s\<lparr>fs_dev := d\<rparr>) }
          }
      })"

text \<open>The frame of the other stream commands: look up, run, return the reference. A call that waits keeps its reference.\<close>

definition with_lookup :: "u8 \<Rightarrow> (nat \<Rightarrow> file_sys \<Rightarrow> io) \<Rightarrow> file_sys \<Rightarrow> io" where
  "with_lookup stream_id body s =
     do {
       (r, d) \<leftarrow> stream_lookup stream_id (fs_dev s);
       let s = s\<lparr>fs_dev := d\<rparr>;
       case r of
         None \<Rightarrow> ret_err ENOENT s
       | Some a \<Rightarrow> do {
           (r, s) \<leftarrow> body a s;
           case r of
             Waiting \<Rightarrow> Some (Waiting, s)
           | Returned x \<Rightarrow> do { d \<leftarrow> stream_put a (fs_dev s); Some (Returned x, s\<lparr>fs_dev := d\<rparr>) }
         }
     }"

definition of_tx :: "(errno + unit) tx_result \<Rightarrow> (errno + io_out) wait_result" where
  "of_tx r = (case r of TxWaiting \<Rightarrow> Waiting | TxReturned (Inl e) \<Rightarrow> Returned (Inl e) | TxReturned (Inr _) \<Rightarrow> Returned (Inr OutNone))"

definition send_body :: "io_env \<Rightarrow> u8 \<Rightarrow> byte list \<Rightarrow> nat \<Rightarrow> file_sys \<Rightarrow> io" where
  "send_body env dst data a s =
     (if io_nonblock env \<and> \<not> stream_can_send (fs_dev s) then ret_err EAGAIN s
      else do {
        (r, d) \<leftarrow> stream_send (io_tx env) (io_done env) (io_alloc env) a dst data (fs_dev s);
        Some (of_tx r, s\<lparr>fs_dev := d\<rparr>)
      })"

definition ioctl_stream_send :: "io_env \<Rightarrow> u8 \<Rightarrow> u8 \<Rightarrow> byte list \<Rightarrow> file_sys \<Rightarrow> io" where
  "ioctl_stream_send env stream_id dst data s =
     (if \<not> io_copy_in env then ret_err EFAULT s else with_lookup stream_id (send_body env dst data) s)"

definition set_stream :: "nat \<Rightarrow> stream \<Rightarrow> file_sys \<Rightarrow> file_sys" where
  "set_stream a st s = s\<lparr>fs_dev := (fs_dev s)\<lparr>dev_heap := (dev_heap (fs_dev s))(a \<mapsto> st)\<rparr>\<rparr>"

definition recv_body :: "io_env \<Rightarrow> u32 \<Rightarrow> nat \<Rightarrow> file_sys \<Rightarrow> io" where
  "recv_body env len a s =
     do {
       st \<leftarrow> dev_heap (fs_dev s) a;
       if io_nonblock env \<and> \<not> stream_can_recv st then ret_err EAGAIN s
       else
         case stream_recv (io_intr env) (io_data_ok env) (unat len) st of (r, st) \<Rightarrow>
           Some (case r of Waiting \<Rightarrow> Waiting | Returned (Inl e) \<Rightarrow> Returned (Inl e)
                 | Returned (Inr (src, data)) \<Rightarrow> Returned (Inr (OutData src data)), set_stream a st s)
     }"

definition ioctl_stream_recv :: "io_env \<Rightarrow> u8 \<Rightarrow> u32 \<Rightarrow> file_sys \<Rightarrow> io" where
  "ioctl_stream_recv env stream_id len s =
     (if \<not> io_copy_in env then ret_err EFAULT s
      else do {
        (r, s) \<leftarrow> with_lookup stream_id (recv_body env len) s;
        case r of
          Returned (Inr out) \<Rightarrow> copy_to_user env out s
        | _ \<Rightarrow> Some (r, s)
      })"

definition wait_tx_body :: "io_env \<Rightarrow> u32 \<Rightarrow> nat \<Rightarrow> file_sys \<Rightarrow> io" where
  "wait_tx_body env timeout_ms a s =
     do { st \<leftarrow> dev_heap (fs_dev s) a; Some (of_tx (stream_wait_tx (io_intr env) (io_timeout env) timeout_ms st), s) }"

definition ioctl_stream_wait_tx :: "io_env \<Rightarrow> u8 \<Rightarrow> u32 \<Rightarrow> file_sys \<Rightarrow> io" where
  "ioctl_stream_wait_tx env stream_id timeout_ms s =
     (if \<not> io_copy_in env then ret_err EFAULT s
      else if io_nonblock env then ret_err EAGAIN s
      else with_lookup stream_id (wait_tx_body env timeout_ms) s)"

definition wait_rx_body :: "io_env \<Rightarrow> u32 \<Rightarrow> nat \<Rightarrow> file_sys \<Rightarrow> io" where
  "wait_rx_body env timeout_ms a s =
     do {
       st \<leftarrow> dev_heap (fs_dev s) a;
       Some (case stream_wait_rx (io_intr env) (io_timeout env) timeout_ms st of
               Waiting \<Rightarrow> Waiting | Returned (Inl e) \<Rightarrow> Returned (Inl e) | Returned (Inr _) \<Rightarrow> Returned (Inr OutNone), s)
     }"

definition ioctl_stream_wait_rx :: "io_env \<Rightarrow> u8 \<Rightarrow> u32 \<Rightarrow> file_sys \<Rightarrow> io" where
  "ioctl_stream_wait_rx env stream_id timeout_ms s =
     (if \<not> io_copy_in env then ret_err EFAULT s
      else if io_nonblock env then ret_err EAGAIN s
      else with_lookup stream_id (wait_rx_body env timeout_ms) s)"

section \<open>DMA-BUFs and the legacy commands\<close>

text \<open>The offset arrives as a \<open>loff_t\<close>, which is signed.\<close>

definition tx_dmabuf_body :: "io_env \<Rightarrow> u64 \<Rightarrow> u64 \<Rightarrow> file_sys \<Rightarrow> io" where
  "tx_dmabuf_body env offset len s =
     do {
       (r, res, d) \<leftarrow> submit_tx_dmabuf (io_dmabuf env) (sint offset) (unat len) (fs_dmabuf s) (fs_dev s);
       Some (of_tx r, s\<lparr>fs_dev := d, fs_dmabuf := res\<rparr>)
     }"

definition rx_dmabuf_body :: "io_env \<Rightarrow> u64 \<Rightarrow> u64 \<Rightarrow> file_sys \<Rightarrow> io" where
  "rx_dmabuf_body env offset len s =
     do {
       (r, res, d) \<leftarrow> submit_rx_dmabuf (io_kmalloc env) (io_rxm_ok env) (io_rx_ok env) (io_dmabuf env) (sint offset) (unat len) (fs_dmabuf s) (fs_dev s);
       Some (of_tx r, s\<lparr>fs_dev := d, fs_dmabuf := res\<rparr>)
     }"

definition ioctl_stream_dmabuf :: "io_env \<Rightarrow> (file_sys \<Rightarrow> io) \<Rightarrow> u8 \<Rightarrow> file_sys \<Rightarrow> io" where
  "ioctl_stream_dmabuf env body stream_id s =
     (if \<not> io_copy_in env then ret_err EFAULT s else with_lookup stream_id (\<lambda>_. body) s)"

definition connected :: "file_sys \<Rightarrow> bool" where
  "connected s \<longleftrightarrow> dev_state (fs_dev s) = CONNECTED \<or> dev_state (fs_dev s) = READY"

definition of_submit :: "file_sys \<Rightarrow> ((errno + unit) \<times> odl_device) option \<Rightarrow> io" where
  "of_submit s x = do { (r, d) \<leftarrow> x; Some (of_tx (TxReturned r), s\<lparr>fs_dev := d\<rparr>) }"

definition ioctl_legacy :: "io_env \<Rightarrow> (file_sys \<Rightarrow> io) \<Rightarrow> file_sys \<Rightarrow> io" where
  "ioctl_legacy env body s =
     (if \<not> io_copy_in env then ret_err EFAULT s else if \<not> connected s then ret_err ENOTCONN s else body s)"

definition send_xfer :: "io_env \<Rightarrow> u64 \<Rightarrow> u64 \<Rightarrow> u32 \<Rightarrow> file_sys \<Rightarrow> io" where
  "send_xfer env offset len flags s =
     of_submit s (submit_tx (io_done env) (io_ret env) (unat offset) (unat len) (flags AND 1 \<noteq> 0) (fs_dev s))"

definition recv_xfer :: "io_env \<Rightarrow> u64 \<Rightarrow> u64 \<Rightarrow> file_sys \<Rightarrow> io" where
  "recv_xfer env offset len s = of_submit s (submit_rx (io_ret env) (unat offset) (unat len) (fs_dev s))"

definition counters :: "odl_device \<Rightarrow> completion" where
  "counters d = \<lparr>cp_tx_completed = of_int (rc_completed (dev_tx d)), cp_rx_completed = of_int (rc_completed (dev_rx d)),
     cp_tx_submitted = of_int (rc_submitted (dev_tx d)), cp_rx_submitted = of_int (rc_submitted (dev_rx d))\<rparr>"

text \<open>\<open>wait_event_interruptible\<close>, with a timeout or without one.\<close>

definition wait_event :: "io_env \<Rightarrow> bool \<Rightarrow> bool \<Rightarrow> (errno + unit) wait_result" where
  "wait_event env timed cond =
     (if cond then Returned (Inr ())
      else if io_intr env then Returned (Inl ERESTARTSYS)
      else if timed \<and> io_timeout env then Returned (Inl ETIMEDOUT)
      else Waiting)"

definition ioctl_wait_tx :: "io_env \<Rightarrow> file_sys \<Rightarrow> io" where
  "ioctl_wait_tx env s =
     (case wait_event env True (0 < rc_completed (dev_tx (fs_dev s))) of
        Waiting \<Rightarrow> Some (Waiting, s)
      | Returned (Inl e) \<Rightarrow> ret_err e s
      | Returned (Inr _) \<Rightarrow> copy_to_user env (OutCompletion (counters (fs_dev s)))
          (s\<lparr>fs_dev := upd_tx (\<lambda>c. c\<lparr>rc_completed := 0\<rparr>) (fs_dev s)\<rparr>))"

definition ioctl_wait_rx :: "io_env \<Rightarrow> file_sys \<Rightarrow> io" where
  "ioctl_wait_rx env s =
     (case wait_event env True (0 < rc_completed (dev_rx (fs_dev s))) of
        Waiting \<Rightarrow> Some (Waiting, s)
      | Returned (Inl e) \<Rightarrow> ret_err e s
      | Returned (Inr _) \<Rightarrow> copy_to_user env (OutCompletion (counters (fs_dev s)))
          (s\<lparr>fs_dev := upd_rx (\<lambda>c. c\<lparr>rc_completed := 0\<rparr>) (fs_dev s)\<rparr>))"

section \<open>Information\<close>

text \<open>\<open>strscpy\<close> into a zeroed array of \<open>n\<close> bytes: at most \<open>n - 1\<close> bytes up to the terminator.\<close>

definition strscpy :: "nat \<Rightarrow> byte list \<Rightarrow> byte list" where
  "strscpy n name = (let t = take (n - 1) (takeWhile (\<lambda>b. b \<noteq> 0) name) in t @ replicate (n - length t) 0)"

definition name_field :: "byte list option \<Rightarrow> byte list" where
  "name_field name = (case name of None \<Rightarrow> replicate 64 0 | Some x \<Rightarrow> strscpy 64 x)"

definition get_peer :: "xdomain option \<Rightarrow> odl_device \<Rightarrow> peer_info" where
  "get_peer xd d = \<lparr>pi_uuid = (case Option.bind xd xd_remote_uuid of None \<Rightarrow> replicate 16 0 | Some u \<Rightarrow> take 16 u),
     pi_link_speed = (case xd of None \<Rightarrow> 0 | Some x \<Rightarrow> xd_link_speed x),
     pi_link_width = (case xd of None \<Rightarrow> 0 | Some x \<Rightarrow> xd_link_width x), pi_state = of_nat (conn_state_code (dev_state d)),
     pi_vendor_name = name_field (Option.bind xd xd_vendor_name), pi_device_name = name_field (Option.bind xd xd_device_name)\<rparr>"

definition get_buf_info :: "odl_device \<Rightarrow> buf_info" where
  "get_buf_info d = \<lparr>bi_tx_buf_size = db_size (rc_bufs (dev_tx d) ! 0), bi_rx_buf_size = db_size (rc_bufs (dev_rx d) ! 0),
     bi_tx_buf_count = NUM_BUFFERS, bi_rx_buf_count = NUM_BUFFERS\<rparr>"

definition swap_bufs :: "ring_ctx \<Rightarrow> ring_ctx" where
  "swap_bufs c = c\<lparr>rc_front := rc_back c, rc_back := rc_front c, rc_swapped_since_post := True\<rparr>"

definition ioctl_wait_ready :: "io_env \<Rightarrow> u32 \<Rightarrow> file_sys \<Rightarrow> io" where
  "ioctl_wait_ready env timeout_ms s =
     (if \<not> io_copy_in env then ret_err EFAULT s
      else Some (case wait_event env (timeout_ms \<noteq> 0) (dev_state (fs_dev s) = READY) of
                   Waiting \<Rightarrow> Waiting | Returned (Inl e) \<Rightarrow> Returned (Inl e) | Returned (Inr _) \<Rightarrow> Returned (Inr OutNone), s))"

section \<open>The handlers\<close>

definition ioctl :: "io_env \<Rightarrow> nat \<Rightarrow> ioctl_cmd \<Rightarrow> file_sys \<Rightarrow> io" where
  "ioctl env c cmd s =
     (case cmd of
        STREAM_OPEN i \<Rightarrow> ioctl_stream_open env c i s
      | STREAM_CLOSE i \<Rightarrow> ioctl_stream_close env c i s
      | STREAM_SEND i dst data \<Rightarrow> ioctl_stream_send env i dst data s
      | STREAM_RECV i len \<Rightarrow> ioctl_stream_recv env i len s
      | STREAM_WAIT_TX i t \<Rightarrow> ioctl_stream_wait_tx env i t s
      | STREAM_WAIT_RX i t \<Rightarrow> ioctl_stream_wait_rx env i t s
      | STREAM_SEND_DMABUF i offset len \<Rightarrow> ioctl_stream_dmabuf env (tx_dmabuf_body env offset len) i s
      | STREAM_RECV_DMABUF i offset len \<Rightarrow> ioctl_stream_dmabuf env (rx_dmabuf_body env offset len) i s
      | XFER_SEND offset len flags \<Rightarrow> ioctl_legacy env (send_xfer env offset len flags) s
      | XFER_RECV offset len \<Rightarrow> ioctl_legacy env (recv_xfer env offset len) s
      | SEND_DMABUF offset len \<Rightarrow> ioctl_legacy env (tx_dmabuf_body env offset len) s
      | RECV_DMABUF offset len \<Rightarrow> ioctl_legacy env (rx_dmabuf_body env offset len) s
      | POLL_COMPLETION \<Rightarrow> copy_to_user env (OutCompletion (counters (fs_dev s))) s
      | WAIT_TX \<Rightarrow> ioctl_wait_tx env s
      | WAIT_RX \<Rightarrow> ioctl_wait_rx env s
      | GET_PEER \<Rightarrow> copy_to_user env (OutPeer (get_peer (io_xd env) (fs_dev s))) s
      | GET_BUF_INFO \<Rightarrow> copy_to_user env (OutBufs (get_buf_info (fs_dev s))) s
      | SWAP_TX_BUF \<Rightarrow> Some (Returned (Inr OutNone), s\<lparr>fs_dev := upd_tx swap_bufs (fs_dev s)\<rparr>)
      | SWAP_RX_BUF \<Rightarrow> Some (Returned (Inr OutNone), s\<lparr>fs_dev := upd_rx swap_bufs (fs_dev s)\<rparr>)
      | WAIT_READY t \<Rightarrow> ioctl_wait_ready env t s
      | UNKNOWN_CMD \<Rightarrow> ret_err ENOTTY s)"

text \<open>
  \<open>vm_pgoff << PAGE_SHIFT\<close> selects the buffer. The mapping is made by \<open>dma_mmap_coherent\<close>, whose result is the argument \<open>ret\<close>, for the DMA device of the
  transmit ring; without a ring, and for a buffer that is gone, the call is undefined. A mapping is named by its ring and its index.
\<close>

definition mmap_buf :: "nat \<Rightarrow> (bool \<times> nat) option" where
  "mmap_buf offset =
     (if offset = 0 then Some (True, 0)
      else if offset = 0x10000000 then Some (True, 1)
      else if offset = 0x20000000 then Some (False, 0)
      else if offset = 0x30000000 then Some (False, 1)
      else None)"

definition file_mmap :: "errno option \<Rightarrow> nat \<Rightarrow> nat \<Rightarrow> file_sys \<Rightarrow> (errno + bool \<times> nat) option" where
  "file_mmap ret vm_pgoff vma_size s =
     (case mmap_buf ((vm_pgoff * 4096) mod 2 ^ 64) of
        None \<Rightarrow> Some (Inl EINVAL)
      | Some (tx, i) \<Rightarrow>
          let d = fs_dev s; buf = rc_bufs (if tx then dev_tx d else dev_rx d) ! i
          in if db_size buf < vma_size then Some (Inl EINVAL)
             else do {
               _ \<leftarrow> rc_ring (dev_tx d);
               _ \<leftarrow> db_virt buf;
               Some (case ret of Some e \<Rightarrow> Inl e | None \<Rightarrow> Inr (tx, i))
             })"

fun any_readable :: "nat list \<Rightarrow> odl_device \<Rightarrow> bool option" where
  "any_readable [] d = Some False"
| "any_readable (a # as) d = do { st \<leftarrow> dev_heap d a; r \<leftarrow> any_readable as d; Some (0 < st_rx_complete st \<or> r) }"

text \<open>\<open>POLLIN\<close> and \<open>POLLOUT\<close>.\<close>

definition file_poll :: "nat \<Rightarrow> file_sys \<Rightarrow> (bool \<times> bool) option" where
  "file_poll c s =
     (let d = fs_dev s;
          out = (dev_state d = READY \<and> fp_slots (dev_pool d) \<noteq> None \<and> int TX_POOL_RESERVE < fp_free_count (dev_pool d))
      in do { r \<leftarrow> any_readable (dev_owners d c) d; Some (0 < rc_completed (dev_rx d) \<or> r, out) })"

section \<open>Posting receive slots leaves the transmit side alone\<close>

lemma pool_put_other_slots:
  assumes "frame_pool_put (dev_pool d) i = Some p" "j \<noteq> i"
  shows "get_slot j (d\<lparr>dev_pool := p\<rparr>) = get_slot j d"
  using assms by (auto simp: frame_pool_put_def get_slot_def bind_eq_Some_conv split: if_splits)

lemma upd_slot_slots: "upd_slot i f d = Some d' \<Longrightarrow> j \<noteq> i \<Longrightarrow> get_slot j d' = get_slot j d"
  by (auto simp: upd_slot_def get_slot_def bind_eq_Some_conv split: if_splits)

lemma rx_repost_loop_slots:
  assumes "rx_repost_loop ok target k d = Some (n, d')" "frame_pool_wf (dev_pool d)" "j \<in> frame_pool_used (dev_pool d)"
  shows "get_slot j d' = get_slot j d"
  using assms
proof (induction ok target k d rule: rx_repost_loop.induct)
  case (1 ok target k d)
  note step = rx_repost_loop.simps [of ok target k d]
  show ?case
  proof (cases "target \<le> k")
    case True
    with "1.prems"(1) show ?thesis by (simp add: step)
  next
    case False
    note eq = "1.prems"(1) [unfolded step if_not_P [OF False]]
    from "1.prems"(2) show ?thesis
    proof (cases rule: frame_pool_get_cases)
      case full
      from eq [unfolded full(1) bind.bind_lunit prod.case option.case Let_def] show ?thesis by (auto simp: get_slot_def)
    next
      case (slot i p)
      then have ji: "j \<noteq> i" using "1.prems"(3) by auto
      obtain d1 d2 where d2: "upd_slot i rx_desc (d\<lparr>dev_pool := p\<rparr>) = Some d1" "tb_ring_rx (ok k) (PoolSlot i) d1 = Some d2"
        using eq unfolding slot(1) bind.bind_lunit prod.case option.case bind_eq_Some_conv by blast
      note eq = eq [unfolded slot(1) bind.bind_lunit prod.case option.case d2]
      have g: "get_slot j d2 = get_slot j d" "dev_pool d2 = dev_pool d1"
        using d2(2) upd_slot_slots [OF d2(1) ji] frame_pool_get_slots(1) [OF slot(1) ji, of d]
        by (auto simp: tb_ring_rx_def get_slot_def split: option.splits if_splits)
      obtain q where q: "d1 = d\<lparr>dev_pool := q\<rparr>" "frame_pool_wf q" "frame_pool_used q = insert i (frame_pool_used (dev_pool d))"
        using upd_slot_wf [of "d\<lparr>dev_pool := p\<rparr>" i rx_desc] slot d2(1) by auto
      show ?thesis
      proof (cases "ok k")
        case True
        with eq have "rx_repost_loop ok target (k + 1) (d2\<lparr>dev_rx_posted := dev_rx_posted d2 + 1\<rparr>) = Some (n, d')" by simp
        from "1.IH" [OF False slot(1) refl refl d2 True this] g q "1.prems"(3) show ?thesis by (simp add: get_slot_def)
      next
        case nok: False
        with eq obtain q' where "frame_pool_put (dev_pool d2) i = Some q'" "d' = d2\<lparr>dev_pool := q'\<rparr>"
          by (auto simp: bind_eq_Some_conv)
        with pool_put_other_slots [of d2 i q' j] ji g show ?thesis by simp
      qed
    qed
  qed
qed

lemma tx_wf_repost:
  assumes "tx_wf refs S mc bc d" "rx_repost ok d = Some d'"
  shows "tx_wf refs S mc bc d'"
proof -
  have base: "tx_base refs bc d" using assms(1) by (simp add: tx_wf_def)
  note I = tx_baseD [OF base]
  have ring: "rc_ring (dev_rx d) \<noteq> None" using I(5) by (simp add: streams_wf_def rx_base_ok_def)
  obtain new p st where d': "d' = reposted d new p st" "repost_ok d (dev_rx_target d - dev_rx_posted d) new p"
    using rx_repost_spec [OF I(1) ring, of ok] assms(2) by (metis option.inject)
  obtain n d1 where L: "rx_repost_loop ok (dev_rx_target d) (dev_rx_posted d) d = Some (n, d1)" "dev_pool d' = dev_pool d1"
    using assms(2) by (auto simp: rx_repost_def bind_eq_Some_conv)
  have slot: "get_slot j d' = get_slot j d" if "j \<in> frame_pool_used (dev_pool d)" for j
    using rx_repost_loop_slots [OF L(1) I(1) that] L(2) by (simp add: get_slot_def)
  have same: "same_objects d d'" "dev_tx_pending d' = dev_tx_pending d" "dev_bpool d' = dev_bpool d"
    using d'(1) by (simp_all add: same_objects_def reposted_def)
  have owner: "frame_owner d' r = frame_owner d r" if "r \<in> set (dev_tx_pending d)" for r
    using slot I(7) that same(3) by (cases r) (auto simp: frame_owner_def get_batch_def)
  have out: "msg_frames_out d' m = msg_frames_out d m" "batch_frames_out d' b = batch_frames_out d b" for m b
    using owner same(2) by (auto simp: msg_frames_out_def batch_frames_out_def intro!: arg_cong [where f = length] filter_cong)
  have used: "frame_pool_wf (dev_pool d')" "frame_pool_used (dev_pool d) \<subseteq> frame_pool_used (dev_pool d')"
    using d' by (auto simp: repost_ok_def reposted_def)
  have "tx_base refs bc d'"
    by (rule tx_base_ring [OF base same(1) used(1)]) (use I same used owner out in auto)
  with assms(1) out same(1) show ?thesis by (simp add: tx_wf_def same_objects_def)
qed

section \<open>The invariant of the files\<close>

text \<open>The list of a file has exactly the published streams that name the file as their owner; every published stream has an owner, and only open
  files own streams.\<close>

definition owners_ok :: "nat list \<Rightarrow> odl_device \<Rightarrow> bool" where
  "owners_ok files d \<longleftrightarrow> (\<forall>c. distinct (dev_owners d c) \<and>
     set (dev_owners d c) = {a \<in> set (dev_streams d). \<exists>i. cores d a = Some (i, Some c)} \<and> (dev_owners d c \<noteq> [] \<longrightarrow> c \<in> set files)) \<and>
     (\<forall>a \<in> set (dev_streams d). \<exists>i c. cores d a = Some (i, Some c))"

text \<open>\<open>refs\<close> and \<open>S\<close> are the stream references and the messages of the calls that have not returned yet.\<close>

definition file_wf :: "(nat \<Rightarrow> nat) \<Rightarrow> nat set \<Rightarrow> file_sys \<Rightarrow> bool" where
  "file_wf refs S s \<longleftrightarrow> tx_wf refs S (\<lambda>_. 0) (\<lambda>_. 0) (fs_dev s) \<and> owners_ok (fs_files s) (fs_dev s) \<and> distinct (fs_files s) \<and>
     fs_open_count s = int (length (fs_files s))"

lemma owners_ok_reg:
  assumes "owners_ok files d" "same_reg d d'" "\<And>a. a \<in> set (dev_streams d') \<Longrightarrow> dev_heap d' a \<noteq> None"
  shows "owners_ok files d'"
proof -
  have same: "dev_owners d' = dev_owners d" "dev_streams d' = dev_streams d" "cores d' \<subseteq>\<^sub>m cores d" using assms(2) by (simp_all add: same_reg_def)
  have core: "cores d' a = cores d a" if "a \<in> set (dev_streams d)" for a
  proof -
    have "a \<in> dom (cores d')" using assms(3) [of a] that same(2) by (auto simp: cores_def dom_def)
    with same(3) show ?thesis by (simp add: map_le_def)
  qed
  then have "{a \<in> set (dev_streams d'). \<exists>i. cores d' a = Some (i, Some c)} = {a \<in> set (dev_streams d). \<exists>i. cores d a = Some (i, Some c)}" for c
    using same(2) by auto
  with assms(1) same(1,2) core show ?thesis by (simp add: owners_ok_def)
qed

lemma tx_wf_published: "tx_wf refs S mc bc d \<Longrightarrow> a \<in> set (dev_streams d) \<Longrightarrow> dev_heap d a \<noteq> None"
  using streams_wfD(7) [OF tx_baseD(5) [OF tx_wfD(1)]] by blast

lemma file_wf_reg:
  assumes "file_wf refs S s" "same_reg (fs_dev s) d'" "tx_wf refs' S' (\<lambda>_. 0) (\<lambda>_. 0) d'"
  shows "file_wf refs' S' (s\<lparr>fs_dev := d'\<rparr>)"
  using assms owners_ok_reg [OF _ assms(2)] tx_wf_published [OF assms(3)] by (simp add: file_wf_def)

lemma stream_lookup_reg:
  assumes "tx_wf refs S mc bc d" "stream_lookup i d = Some (r, d')"
  shows "same_reg d d'"
proof -
  note str = tx_baseD(5) [OF tx_wfD(1) [OF assms(1)]]
  show ?thesis
  proof (cases "stream_pub d i")
    case (Some a)
    then obtain st where "dev_heap d a = Some st" using stream_pub_iff [OF str] tx_wf_published [OF assms(1)] by blast
    with Some assms(2) stream_lookup_eq [OF str, of i] show ?thesis by (auto intro: same_reg_set)
  qed (use assms(2) stream_lookup_eq [OF str, of i] in simp)
qed

section \<open>Every call keeps the invariant\<close>

text \<open>A call on a stream: the lookup succeeds exactly for published streams, and the body runs with one more reference.\<close>

lemma with_lookup_wf:
  assumes "file_wf refs S s"
    "\<And>a s1. file_wf (refs(a := Suc (refs a))) S s1 \<Longrightarrow> stream_pub (fs_dev s) i = Some a \<Longrightarrow> dev_msgs (fs_dev s1) = dev_msgs (fs_dev s) \<Longrightarrow>
       \<exists>r s2. body a s1 = Some (r, s2) \<and> file_wf (refs(a := Suc (refs a))) (if r = Waiting then S' else S) s2"
  shows "\<exists>r s'. with_lookup i body s = Some (r, s') \<and>
    (case r of Returned _ \<Rightarrow> file_wf refs S s' | Waiting \<Rightarrow> (\<exists>a. stream_pub (fs_dev s) i = Some a \<and> file_wf (refs(a := Suc (refs a))) S' s'))"
proof -
  have wf: "tx_wf refs S (\<lambda>_. 0) (\<lambda>_. 0) (fs_dev s)" using assms(1) by (simp add: file_wf_def)
  note str = tx_baseD(5) [OF tx_wfD(1) [OF wf]]
  obtain r d where L: "stream_lookup i (fs_dev s) = Some (r, d)" using stream_lookup_law [OF str, of i] by blast
  note T = tx_wf_lookup [OF wf L]
  have s1: "file_wf (case r of None \<Rightarrow> refs | Some a \<Rightarrow> refs(a := Suc (refs a))) S (s\<lparr>fs_dev := d\<rparr>)"
    by (rule file_wf_reg [OF assms(1) stream_lookup_reg [OF wf L] T(1)])
  show ?thesis
  proof (cases r)
    case None
    with L s1 show ?thesis by (simp add: with_lookup_def ret_err_def)
  next
    case (Some a)
    let ?refs = "refs(a := Suc (refs a))"
    have "file_wf ?refs S (s\<lparr>fs_dev := d\<rparr>)" using s1 unfolding Some option.case .
    moreover have "stream_pub (fs_dev s) i = Some a" "dev_msgs (fs_dev (s\<lparr>fs_dev := d\<rparr>)) = dev_msgs (fs_dev s)"
      using T(2) Some stream_ops_same_tx(1) [OF str L] by (simp_all add: same_tx_def)
    ultimately obtain x s2 where B: "body a (s\<lparr>fs_dev := d\<rparr>) = Some (x, s2)" "file_wf ?refs (if x = Waiting then S' else S) s2" using assms(2) by blast
    show ?thesis
    proof (cases x)
      case Waiting
      with L Some B T(2) show ?thesis by (simp add: with_lookup_def)
    next
      case (Returned y)
      with B(2) have B2: "file_wf ?refs S s2" by simp
      then have wf2: "tx_wf ?refs S (\<lambda>_. 0) (\<lambda>_. 0) (fs_dev s2)" by (simp add: file_wf_def)
      obtain d' where d': "stream_put a (fs_dev s2) = Some d'"
        using stream_put_law [OF tx_baseD(5) [OF tx_wfD(1) [OF wf2]], of a] by auto
      have "tx_wf refs S (\<lambda>_. 0) (\<lambda>_. 0) d'" using tx_wf_put [OF wf2 _ d'] by simp
      from file_wf_reg [OF B2 stream_put_reg [OF d'] this] show ?thesis using L Some B(1) Returned d' by (simp add: with_lookup_def)
    qed
  qed
qed

text \<open>Memory that an allocation returns is not in use.\<close>

definition io_fresh :: "io_env \<Rightarrow> nat set \<Rightarrow> file_sys \<Rightarrow> bool" where
  "io_fresh env S s \<longleftrightarrow> (\<forall>m. io_alloc env = Some m \<longrightarrow> m \<notin> S \<and> dev_msgs (fs_dev s) m = None \<and> dev_heap (fs_dev s) m = None)"

lemma send_body_wf:
  assumes "file_wf refs S s" "0 < refs a" "\<And>m. io_alloc env = Some m \<Longrightarrow> m \<notin> S \<and> dev_msgs (fs_dev s) m = None"
  shows "\<exists>r s2. send_body env dst data a s = Some (r, s2) \<and> file_wf refs (if r = Waiting then S \<union> set_option (io_alloc env) else S) s2"
proof -
  let ?d = "fs_dev s"
  have wf: "tx_wf refs S (\<lambda>_. 0) (\<lambda>_. 0) ?d" using assms(1) by (simp add: file_wf_def)
  obtain st where st: "dev_heap ?d a = Some st" using stream_held [OF tx_baseD(5) [OF tx_wfD(1) [OF wf]], of a] assms(2) by auto
  have "\<exists>r d'. stream_send (io_tx env) (io_done env) (io_alloc env) a dst data ?d = Some (r, d') \<and>
    tx_wf refs (if r = TxWaiting then S \<union> set_option (io_alloc env) else S) (\<lambda>_. 0) (\<lambda>_. 0) d'"
  proof (cases "io_alloc env")
    case None
    note refused = stream_send_refused [where envs = "io_tx env" and last_done = "io_done env" and a = a and dst = dst and data = data and d = ?d]
    consider "dev_state ?d \<noteq> READY" | "dev_state ?d = READY" "\<not> sendable data" | "dev_state ?d = READY" "sendable data" by blast
    then show ?thesis
    proof cases
      case 1
      from refused(1) [OF this] wf show ?thesis by simp
    next
      case 2
      from refused(2) [OF this] wf show ?thesis by simp
    next
      case 3
      from refused(3) [OF this] wf None show ?thesis by (auto simp: tx_wf_adapt)
    qed
  next
    case (Some m)
    with tx_wf_send [OF wf st, of m "io_tx env" "io_done env" dst data] assms(3) show ?thesis by (fastforce split: tx_result.splits)
  qed
  then obtain r d' where R: "stream_send (io_tx env) (io_done env) (io_alloc env) a dst data ?d = Some (r, d')"
    "tx_wf refs (if r = TxWaiting then S \<union> set_option (io_alloc env) else S) (\<lambda>_. 0) (\<lambda>_. 0) d'" by blast
  have "of_tx r = Waiting \<longleftrightarrow> r = TxWaiting" by (auto simp: of_tx_def split: tx_result.splits sum.splits)
  with file_wf_reg [OF assms(1) stream_send_reg [OF R(1)] R(2)] R(1) assms(1) show ?thesis by (simp add: send_body_def ret_err_def)
qed

lemma set_stream_wf:
  assumes "file_wf refs S s" "dev_heap (fs_dev s) a = Some st" "st_id st' = st_id st" "st_owner st' = st_owner st"
    "st_refcount st' = st_refcount st" "st_tx_queue st' = st_tx_queue st" "st_dying st' = st_dying st"
  shows "file_wf refs S (set_stream a st' s)"
proof -
  let ?d = "fs_dev s"
  have wf: "tx_wf refs S (\<lambda>_. 0) (\<lambda>_. 0) ?d" using assms(1) by (simp add: file_wf_def)
  note str = tx_baseD(5) [OF tx_wfD(1) [OF wf]]
  have "stream_ok (refs a + stream_msgs ?d a) (a \<in> set (dev_streams ?d)) (Some st')"
    using streams_wfD(6) [OF str, of a] assms(2,5-7) by (auto simp: stream_ok_def)
  then have "streams_wf (\<lambda>a. refs a + stream_msgs ?d a) (?d\<lparr>dev_heap := (dev_heap ?d)(a \<mapsto> st')\<rparr>)"
    using assms(3) by (intro streams_wf_upd(1) [OF str assms(2)]) simp_all
  then have "tx_wf refs S (\<lambda>_. 0) (\<lambda>_. 0) (?d\<lparr>dev_heap := (dev_heap ?d)(a \<mapsto> st')\<rparr>)"
    by (intro tx_wf_streams [OF wf]) (simp_all add: same_tx_def)
  from file_wf_reg [OF assms(1) same_reg_set [OF assms(2-4)] this] show ?thesis by (simp add: set_stream_def)
qed

lemma recv_body_wf:
  assumes "file_wf refs S s" "0 < refs a"
  shows "\<exists>r s2. recv_body env len a s = Some (r, s2) \<and> file_wf refs S s2"
proof -
  have wf: "tx_wf refs S (\<lambda>_. 0) (\<lambda>_. 0) (fs_dev s)" using assms(1) by (simp add: file_wf_def)
  obtain st where st: "dev_heap (fs_dev s) a = Some st" using stream_held [OF tx_baseD(5) [OF tx_wfD(1) [OF wf]], of a] assms(2) by auto
  obtain r st' where R: "stream_recv (io_intr env) (io_data_ok env) (unat len) st = (r, st')" by fastforce
  then have "st_id st' = st_id st \<and> st_owner st' = st_owner st \<and> st_refcount st' = st_refcount st \<and> st_tx_queue st' = st_tx_queue st \<and> st_dying st' = st_dying st"
    by (auto simp: stream_recv_def Let_def split: if_splits list.splits)
  with set_stream_wf [OF assms(1) st, of st'] st R assms(1) show ?thesis by (simp add: recv_body_def ret_err_def)
qed

text \<open>Destroying a published stream takes it off the list of its owner.\<close>

lemma stream_destroy_wf:
  assumes "file_wf refs S s" "a \<in> set (dev_streams (fs_dev s))"
  shows "\<exists>d'. stream_destroy a (fs_dev s) = Some d' \<and> file_wf refs S (s\<lparr>fs_dev := d'\<rparr>) \<and>
    dev_streams d' = removeAll a (dev_streams (fs_dev s)) \<and> dev_owners d' = (\<lambda>c. removeAll a (dev_owners (fs_dev s) c)) \<and>
    (\<forall>b. b \<noteq> a \<longrightarrow> dev_heap d' b = dev_heap (fs_dev s) b)"
proof -
  let ?d = "fs_dev s"
  have wf: "tx_wf refs S (\<lambda>_. 0) (\<lambda>_. 0) ?d" and own: "owners_ok (fs_files s) ?d" using assms(1) by (simp_all add: file_wf_def)
  note str = tx_baseD(5) [OF tx_wfD(1) [OF wf]]
  obtain st where st: "dev_heap ?d a = Some st" using tx_wf_published [OF wf assms(2)] by blast
  have pub: "stream_pub ?d (st_id st) = Some a" using stream_pub_iff [OF str] assms(2) st by simp
  obtain d' where d': "stream_destroy a ?d = Some d'" using stream_destroy_law [OF str pub] by blast
  note wf' = tx_wf_destroy [OF wf pub d']
  have "a \<notin> set (dev_owners ?d c)" if "st_owner st \<noteq> Some c" for c
    using own that st by (auto simp: owners_ok_def cores_def)
  then have keep: "removeAll a (dev_owners ?d c) = dev_owners ?d c" if "st_owner st \<noteq> Some c" for c using that by (simp add: removeAll_id)
  have eq: "dev_streams d' = removeAll a (dev_streams ?d)" "dev_owners d' = (\<lambda>c. removeAll a (dev_owners ?d c))"
    "\<And>b. b \<noteq> a \<Longrightarrow> dev_heap d' b = dev_heap ?d b"
    using stream_destroy_eq [OF str assms(2) st] d' keep by (cases "st_owner st"; auto simp: del_owned_def fun_eq_iff)+
  have core: "cores d' b = cores ?d b" if "b \<noteq> a" for b using eq(3) [OF that] by (simp add: cores_def)
  have "set (dev_owners d' c) = {b \<in> set (dev_streams d'). \<exists>i. cores d' b = Some (i, Some c)}" for c
  proof -
    have "set (dev_owners ?d c) = {b \<in> set (dev_streams ?d). \<exists>i. cores ?d b = Some (i, Some c)}" using own by (simp add: owners_ok_def)
    then show ?thesis using eq(1,2) core by auto
  qed
  moreover have "\<forall>b \<in> set (dev_streams d'). \<exists>i c. cores d' b = Some (i, Some c)" using own eq(1) core by (simp add: owners_ok_def)
  moreover have "distinct (dev_owners d' c)" for c using own eq(2) by (simp add: owners_ok_def distinct_removeAll)
  moreover have "c \<in> set (fs_files s)" if "dev_owners d' c \<noteq> []" for c
    using own that eq(2) by (cases "dev_owners ?d c = []") (auto simp: owners_ok_def)
  ultimately have "owners_ok (fs_files s) d'" by (simp add: owners_ok_def)
  with assms(1) wf' have "file_wf refs S (s\<lparr>fs_dev := d'\<rparr>)" by (simp add: file_wf_def)
  with d' eq show ?thesis by blast
qed

lemma destroy_each_wf:
  assumes "file_wf refs S s" "set as \<subseteq> set (dev_streams (fs_dev s))" "distinct as"
  shows "\<exists>d'. destroy_each as (fs_dev s) = Some d' \<and> file_wf refs S (s\<lparr>fs_dev := d'\<rparr>) \<and>
    dev_streams d' = filter (\<lambda>a. a \<notin> set as) (dev_streams (fs_dev s)) \<and>
    dev_owners d' = (\<lambda>c. filter (\<lambda>a. a \<notin> set as) (dev_owners (fs_dev s) c)) \<and> (\<forall>b. b \<notin> set as \<longrightarrow> dev_heap d' b = dev_heap (fs_dev s) b)"
  using assms
proof (induction as arbitrary: s)
  case (Cons a as)
  obtain d1 where d1: "stream_destroy a (fs_dev s) = Some d1" "file_wf refs S (s\<lparr>fs_dev := d1\<rparr>)" "dev_streams d1 = removeAll a (dev_streams (fs_dev s))"
    "dev_owners d1 = (\<lambda>c. removeAll a (dev_owners (fs_dev s) c))" "\<forall>b. b \<noteq> a \<longrightarrow> dev_heap d1 b = dev_heap (fs_dev s) b"
    using stream_destroy_wf [OF Cons.prems(1), of a] Cons.prems(2) unfolding list.set insert_subset by blast
  have "set as \<subseteq> set (dev_streams (fs_dev (s\<lparr>fs_dev := d1\<rparr>)))" "distinct as" using Cons.prems(2,3) d1(3) by auto
  from Cons.IH [OF d1(2) this] obtain d' where "destroy_each as d1 = Some d'" "file_wf refs S (s\<lparr>fs_dev := d'\<rparr>)"
    "dev_streams d' = filter (\<lambda>a. a \<notin> set as) (dev_streams d1)" "dev_owners d' = (\<lambda>c. filter (\<lambda>a. a \<notin> set as) (dev_owners d1 c))"
    "\<forall>b. b \<notin> set as \<longrightarrow> dev_heap d' b = dev_heap d1 b" by auto
  moreover have "filter (\<lambda>x. x \<notin> set as) (removeAll a xs) = filter (\<lambda>x. x \<notin> set (a # as)) xs" for xs by (induction xs) auto
  ultimately show ?case using d1 by simp
qed (simp_all add: file_wf_def)

lemma file_release_wf:
  assumes "file_wf refs S s" "c \<in> set (fs_files s)"
  shows "\<exists>s'. file_release c s = Some s' \<and> file_wf refs S s' \<and> dev_owners (fs_dev s') c = [] \<and>
    dev_streams (fs_dev s') = filter (\<lambda>a. a \<notin> set (dev_owners (fs_dev s) c)) (dev_streams (fs_dev s)) \<and> fs_files s' = remove1 c (fs_files s) \<and>
    (\<forall>b. b \<notin> set (dev_owners (fs_dev s) c) \<longrightarrow> dev_heap (fs_dev s') b = dev_heap (fs_dev s) b) \<and>
    (\<forall>c'. c' \<noteq> c \<longrightarrow> dev_owners (fs_dev s') c' = dev_owners (fs_dev s) c')"
proof -
  let ?d = "fs_dev s" and ?as = "dev_owners (fs_dev s) c"
  have own: "owners_ok (fs_files s) ?d" "distinct (fs_files s)" using assms(1) by (simp_all add: file_wf_def)
  have "set ?as \<subseteq> set (dev_streams ?d)" "distinct ?as" using own(1) by (auto simp: owners_ok_def)
  from destroy_each_wf [OF assms(1) this] obtain d' where d': "destroy_each ?as ?d = Some d'" "file_wf refs S (s\<lparr>fs_dev := d'\<rparr>)"
    "dev_streams d' = filter (\<lambda>a. a \<notin> set ?as) (dev_streams ?d)" "dev_owners d' = (\<lambda>c'. filter (\<lambda>a. a \<notin> set ?as) (dev_owners ?d c'))"
    "\<forall>b. b \<notin> set ?as \<longrightarrow> dev_heap d' b = dev_heap ?d b" by blast
  have "set (dev_owners ?d c') \<inter> set ?as = {}" if "c' \<noteq> c" for c' using own(1) that by (auto simp: owners_ok_def)
  then have other: "dev_owners d' c' = dev_owners ?d c'" if "c' \<noteq> c" for c' unfolding d'(4) using that by (intro filter_True) blast
  have mine: "dev_owners d' c = []" using d'(4) by simp
  have "owners_ok (fs_files s) d'" using d'(2) by (simp add: file_wf_def)
  then have "owners_ok (remove1 c (fs_files s)) d'" using mine own(2) by (auto simp: owners_ok_def set_remove1_eq)
  moreover have "int (length (fs_files s)) - 1 = int (length (remove1 c (fs_files s)))"
    using assms(2) Suc_pred [OF length_pos_if_in_set [OF assms(2)]] by (simp add: length_remove1)
  ultimately have "file_wf refs S (s\<lparr>fs_dev := d', fs_files := remove1 c (fs_files s), fs_open_count := fs_open_count s - 1\<rparr>)"
    using d'(2) assms(1) by (simp add: file_wf_def distinct_remove1)
  with d' other mine assms(2) show ?thesis by (simp add: file_release_def)
qed

text \<open>A new stream belongs to the file that asked for it.\<close>

lemma with_stream_wf:
  assumes "file_wf refs S s" "c \<in> set (fs_files s)" "dev_heap (fs_dev s) a = None" "streams_wf ext (with_stream i (Some c) a (fs_dev s))"
    "ext = (\<lambda>b. refs b + stream_msgs (fs_dev s) b)"
  shows "file_wf refs S (s\<lparr>fs_dev := with_stream i (Some c) a (fs_dev s)\<rparr>)"
proof -
  let ?d = "fs_dev s" and ?d' = "with_stream i (Some c) a (fs_dev s)"
  have wf: "tx_wf refs S (\<lambda>_. 0) (\<lambda>_. 0) ?d" and own: "owners_ok (fs_files s) ?d" using assms(1) by (simp_all add: file_wf_def)
  have "tx_wf refs S (\<lambda>_. 0) (\<lambda>_. 0) ?d'"
    using assms(4,5) by (intro tx_wf_streams [OF wf]) (simp_all add: same_tx_def with_stream_def add_owned_def)
  moreover have a: "a \<notin> set (dev_streams ?d)" using tx_wf_published [OF wf] assms(3) by blast
  have core: "cores ?d' b = (if b = a then Some (of_nat i, Some c) else cores ?d b)" for b
    by (simp add: cores_def with_stream_def add_owned_def new_stream_def)
  have "set (dev_owners ?d' c') = {b \<in> set (dev_streams ?d'). \<exists>i. cores ?d' b = Some (i, Some c')}" for c'
  proof -
    have "set (dev_owners ?d c') = {b \<in> set (dev_streams ?d). \<exists>i. cores ?d b = Some (i, Some c')}" using own by (simp add: owners_ok_def)
    then show ?thesis using a core by (auto simp: with_stream_def add_owned_def)
  qed
  moreover have "\<forall>b \<in> set (dev_streams ?d'). \<exists>i c. cores ?d' b = Some (i, Some c)"
    using own core by (auto simp: owners_ok_def with_stream_def add_owned_def)
  moreover have "a \<notin> set (dev_owners ?d c)" using own a by (auto simp: owners_ok_def)
  then have "distinct (dev_owners ?d' c')" "dev_owners ?d' c' \<noteq> [] \<longrightarrow> c' \<in> set (fs_files s)" for c'
    using own assms(2) by (auto simp: owners_ok_def with_stream_def add_owned_def)
  ultimately show ?thesis using assms(1) by (simp add: file_wf_def owners_ok_def)
qed

lemma stream_create_total:
  assumes "rx_base_ok d"
  shows "\<exists>r d'. stream_create (Some a) mem rx_ok owner fid d = Some (r, d')"
proof -
  have "\<exists>d'. rx_repost rx_ok ((with_stream i owner a d)\<lparr>dev_rx_target := t\<rparr>) = Some d'" if "fp_slots (dev_pool d) \<noteq> None" for i t
  proof -
    let ?d = "(with_stream i owner a d)\<lparr>dev_rx_target := t\<rparr>"
    have "frame_pool_wf (dev_pool ?d)" "rc_ring (dev_rx ?d) \<noteq> None" using assms that by (simp_all add: rx_base_ok_def with_stream_def add_owned_def split: option.splits)
    then show ?thesis by (rule rx_repost_spec [where ok = rx_ok]) blast
  qed
  note rp = this
  show ?thesis
  proof (cases "if fid = 0 then ida_alloc_range mem (dev_ida d) 20 255 else ida_alloc_range mem (dev_ida d) (unat fid) (unat fid)")
    case (Inl e)
    then show ?thesis unfolding stream_create_eq Inl by simp
  next
    case (Inr i)
    from rp [where i = i and t = "int (fp_size (dev_pool d) div 2)"] show ?thesis unfolding stream_create_eq Inr
      by (cases "dev_rx_target d = 0 \<and> fp_slots (dev_pool d) \<noteq> None") auto
  qed
qed

lemma stream_create_wf:
  assumes "file_wf refs S s" "c \<in> set (fs_files s)" "dev_heap (fs_dev s) a = None"
    "stream_create (Some a) mem rx_ok (Some c) fid (fs_dev s) = Some (r, d')"
  shows "file_wf refs S (s\<lparr>fs_dev := d'\<rparr>) \<and> (\<forall>b. r = Inr b \<longrightarrow> b = a \<and> a \<in> set (dev_streams d'))"
proof (cases r)
  case (Inl e)
  with assms(4) have "d' = fs_dev s" unfolding stream_create_eq by (auto simp: bind_eq_Some_conv split: sum.splits if_splits)
  with assms(1) Inl show ?thesis by (simp add: file_wf_def)
next
  case (Inr b)
  let ?d = "fs_dev s"
  have wf: "tx_wf refs S (\<lambda>_. 0) (\<lambda>_. 0) ?d" using assms(1) by (simp add: file_wf_def)
  note str = tx_baseD(5) [OF tx_wfD(1) [OF wf]]
  obtain i where i: "b = a" "if dev_rx_target ?d = 0 \<and> fp_slots (dev_pool ?d) \<noteq> None
      then rx_repost rx_ok ((with_stream i (Some c) a ?d)\<lparr>dev_rx_target := int (fp_size (dev_pool ?d) div 2)\<rparr>) = Some d'
      else d' = with_stream i (Some c) a ?d"
    using assms(4) Inr unfolding stream_create_eq by (auto simp: bind_eq_Some_conv split: sum.splits if_splits)
  let ?w = "with_stream i (Some c) a ?d"
  have "stream_created ?d (st_id (the (dev_heap d' a))) a d'"
    using assms(3,4) Inr i(1) unfolding stream_created_def by blast
  from stream_created_law [OF str this] have str': "streams_wf (\<lambda>b. refs b + stream_msgs ?d b) d'" by blast
  show ?thesis
  proof (cases "dev_rx_target ?d = 0 \<and> fp_slots (dev_pool ?d) \<noteq> None")
    case False
    with i(2) have "d' = ?w" by simp
    with with_stream_wf [OF assms(1-3), of _ i] str' i(1) Inr show ?thesis by (simp add: with_stream_def add_owned_def)
  next
    case True
    let ?t = "?w\<lparr>dev_rx_target := int (fp_size (dev_pool ?d) div 2)\<rparr>"
    have rp: "rx_repost rx_ok ?t = Some d'" using True i(2) by simp
    have pool: "frame_pool_wf (dev_pool ?w)" "rc_ring (dev_rx ?w) \<noteq> None"
      using tx_baseD(1) [OF tx_wfD(1) [OF wf]] str by (simp_all add: with_stream_def add_owned_def streams_wf_def rx_base_ok_def)
    have "frame_pool_wf (dev_pool ?t)" "rc_ring (dev_rx ?t) \<noteq> None" using pool by simp_all
    then obtain new p st where "rx_repost rx_ok ?t = Some (reposted ?t new p st)" by (rule rx_repost_spec [where ok = rx_ok]) blast
    with rp have d': "d' = reposted ?t new p st" by simp
    have "streams_wf (\<lambda>b. refs b + stream_msgs ?d b) ?w"
      by (rule streams_wf_cong [OF str']) (use d' pool in \<open>simp_all add: reposted_def\<close>)
    from with_stream_wf [OF assms(1-3) this] have w: "file_wf refs S (s\<lparr>fs_dev := ?w\<rparr>)" by simp
    have "tx_wf refs S (\<lambda>_. 0) (\<lambda>_. 0) ?t"
      by (rule tx_wf_cong [where d = ?w]) (use w in \<open>simp_all add: file_wf_def same_objects_def\<close>)
    from file_wf_reg [OF w _ tx_wf_repost [OF this rp]] d' i(1) Inr show ?thesis
      by (simp add: same_reg_def cores_def [abs_def] reposted_def with_stream_def add_owned_def)
  qed
qed

lemma tx_wf_rings:
  assumes "tx_wf refs S mc bc d" "rc_ring t \<noteq> None" "rc_ring r \<noteq> None"
  shows "tx_wf refs S mc bc (d\<lparr>dev_tx := t, dev_rx := r\<rparr>)"
proof -
  let ?d = "d\<lparr>dev_tx := t, dev_rx := r\<rparr>"
  have acc: "frame_owner ?d = frame_owner d" "msg_frames_out ?d = msg_frames_out d" "batch_frames_out ?d = batch_frames_out d" "stream_msgs ?d = stream_msgs d"
    using frame_accounting_cong [of ?d d] stream_msgs_cong [of ?d d] by simp_all
  have "stream_num ?d = stream_num d" by (simp add: stream_num_def [abs_def])
  then have "streams_wf ext ?d" if "streams_wf ext d" for ext using that assms(3) by (auto simp: streams_wf_def rx_base_ok_def)
  with assms show ?thesis unfolding tx_wf_def tx_base_def acc by simp
qed

lemma file_wf_rings:
  assumes "file_wf refs S s" "rc_ring (f (dev_tx (fs_dev s))) = rc_ring (dev_tx (fs_dev s))" "rc_ring (g (dev_rx (fs_dev s))) = rc_ring (dev_rx (fs_dev s))"
  shows "file_wf refs S (s\<lparr>fs_dev := upd_rx g (upd_tx f (fs_dev s))\<rparr>)"
proof -
  let ?d = "fs_dev s"
  have wf: "tx_wf refs S (\<lambda>_. 0) (\<lambda>_. 0) ?d" using assms(1) by (simp add: file_wf_def)
  have "tx_wf refs S (\<lambda>_. 0) (\<lambda>_. 0) (?d\<lparr>dev_tx := f (dev_tx ?d), dev_rx := g (dev_rx ?d)\<rparr>)"
    using assms(2,3) tx_baseD(3,5) [OF tx_wfD(1) [OF wf]] by (intro tx_wf_rings [OF wf]) (simp_all add: streams_wf_def rx_base_ok_def)
  from file_wf_reg [OF assms(1) _ this] show ?thesis by (simp add: upd_tx_def upd_rx_def same_reg_def cores_def [abs_def])
qed

text \<open>The commands that work on streams or only read and mark; the others submit to the legacy buffers or to DMA-BUFs.\<close>

definition stream_cmd :: "ioctl_cmd \<Rightarrow> bool" where
  "stream_cmd cmd \<longleftrightarrow> (case cmd of STREAM_SEND_DMABUF _ _ _ \<Rightarrow> False | STREAM_RECV_DMABUF _ _ _ \<Rightarrow> False | XFER_SEND _ _ _ \<Rightarrow> False
     | XFER_RECV _ _ \<Rightarrow> False | SEND_DMABUF _ _ \<Rightarrow> False | RECV_DMABUF _ _ \<Rightarrow> False | _ \<Rightarrow> True)"

text \<open>What a call that is still waiting holds: the stream it looked up, and its message.\<close>

definition held_refs :: "ioctl_cmd \<Rightarrow> file_sys \<Rightarrow> (nat \<Rightarrow> nat) \<Rightarrow> nat \<Rightarrow> nat" where
  "held_refs cmd s refs =
     (case (case cmd of STREAM_SEND i _ _ \<Rightarrow> stream_pub (fs_dev s) i | STREAM_RECV i _ \<Rightarrow> stream_pub (fs_dev s) i
              | STREAM_WAIT_TX i _ \<Rightarrow> stream_pub (fs_dev s) i | STREAM_WAIT_RX i _ \<Rightarrow> stream_pub (fs_dev s) i | _ \<Rightarrow> None) of
        None \<Rightarrow> refs
      | Some a \<Rightarrow> refs(a := Suc (refs a)))"

definition held_msgs :: "io_env \<Rightarrow> ioctl_cmd \<Rightarrow> nat set \<Rightarrow> nat set" where
  "held_msgs env cmd S = (case cmd of STREAM_SEND _ _ _ \<Rightarrow> S \<union> set_option (io_alloc env) | _ \<Rightarrow> S)"

lemma ioctl_stream_open_wf:
  assumes "file_wf refs S s" "c \<in> set (fs_files s)" "io_fresh env S s"
  shows "\<exists>r s'. ioctl_stream_open env c i s = Some (Returned r, s') \<and> file_wf refs S s'"
proof -
  have wf: "tx_wf refs S (\<lambda>_. 0) (\<lambda>_. 0) (fs_dev s)" using assms(1) by (simp add: file_wf_def)
  show ?thesis
  proof (cases "io_copy_in env \<and> io_alloc env \<noteq> None")
    case False
    with assms(1) show ?thesis by (auto simp: ioctl_stream_open_def ret_err_def stream_create_def file_wf_def)
  next
    case True
    then obtain a where a: "io_alloc env = Some a" "dev_heap (fs_dev s) a = None" using assms(3) by (auto simp: io_fresh_def)
    have "rx_base_ok (fs_dev s)" using tx_baseD(5) [OF tx_wfD(1) [OF wf]] by (simp add: streams_wf_def)
    then obtain r d where c: "stream_create (Some a) (io_ida env) (io_rx_ok env) (Some c) i (fs_dev s) = Some (r, d)" using stream_create_total by blast
    note w = stream_create_wf [OF assms(1,2) a(2) c]
    show ?thesis
    proof (cases r)
      case (Inl e)
      with w c True a(1) show ?thesis by (simp add: ioctl_stream_open_def ret_err_def)
    next
      case (Inr b)
      with w have w: "file_wf refs S (s\<lparr>fs_dev := d\<rparr>)" "b = a" "a \<in> set (dev_streams d)" by auto
      then obtain st where st: "dev_heap d a = Some st" using tx_wf_published [of refs S _ _ d a] by (auto simp: file_wf_def)
      obtain d' where "stream_destroy a d = Some d'" "file_wf refs S (s\<lparr>fs_dev := d'\<rparr>)"
        using stream_destroy_wf [OF w(1)] w(3) by auto
      with c Inr True a(1) w st show ?thesis by (simp add: ioctl_stream_open_def ret_err_def Let_def)
    qed
  qed
qed

lemma ioctl_stream_close_wf:
  assumes "file_wf refs S s"
  shows "\<exists>r s'. ioctl_stream_close env c i s = Some (Returned r, s') \<and> file_wf refs S s'"
proof -
  have wf: "tx_wf refs S (\<lambda>_. 0) (\<lambda>_. 0) (fs_dev s)" using assms(1) by (simp add: file_wf_def)
  note str = tx_baseD(5) [OF tx_wfD(1) [OF wf]]
  obtain r d where L: "stream_lookup i (fs_dev s) = Some (r, d)" using stream_lookup_law [OF str, of i] by blast
  note T = tx_wf_lookup [OF wf L]
  have s1: "file_wf (case r of None \<Rightarrow> refs | Some a \<Rightarrow> refs(a := Suc (refs a))) S (s\<lparr>fs_dev := d\<rparr>)"
    by (rule file_wf_reg [OF assms stream_lookup_reg [OF wf L] T(1)])
  show ?thesis
  proof (cases r)
    case None
    with L s1 assms show ?thesis by (simp add: ioctl_stream_close_def ret_err_def)
  next
    case (Some a)
    let ?refs = "refs(a := Suc (refs a))"
    have s1: "file_wf ?refs S (s\<lparr>fs_dev := d\<rparr>)" using s1 unfolding Some option.case .
    then have wf1: "tx_wf ?refs S (\<lambda>_. 0) (\<lambda>_. 0) d" by (simp add: file_wf_def)
    note str1 = tx_baseD(5) [OF tx_wfD(1) [OF wf1]]
    obtain st where st: "dev_heap d a = Some st" using stream_held [OF str1, of a] by auto
    obtain d1 where p: "stream_put a d = Some d1" using stream_put_law [OF str1, of a] by auto
    have "tx_wf refs S (\<lambda>_. 0) (\<lambda>_. 0) d1" using tx_wf_put [OF wf1 _ p] by simp
    with file_wf_reg [OF s1, of d1 refs S] stream_put_reg [OF p] have s2: "file_wf refs S (s\<lparr>fs_dev := d1\<rparr>)" by simp
    have "a \<in> set (dev_streams (fs_dev s))" using T(2) [symmetric] Some stream_pub_iff [OF str] by simp
    then have "a \<in> set (dev_streams d1)" using stream_lookup_reg [OF wf L] stream_put_reg [OF p] by (simp add: same_reg_def)
    then obtain d2 where "stream_destroy a d1 = Some d2" "file_wf refs S (s\<lparr>fs_dev := d2\<rparr>)" using stream_destroy_wf [OF s2] by auto
    with L Some st p s2 assms show ?thesis by (simp add: ioctl_stream_close_def ret_err_def)
  qed
qed

lemma wait_bodies:
  assumes "file_wf refs S s" "0 < refs a"
  shows "\<exists>r. wait_tx_body env t a s = Some (r, s)" "\<exists>r. wait_rx_body env t a s = Some (r, s)"
proof -
  have "tx_wf refs S (\<lambda>_. 0) (\<lambda>_. 0) (fs_dev s)" using assms(1) by (simp add: file_wf_def)
  then obtain st where "dev_heap (fs_dev s) a = Some st" using stream_held [OF tx_baseD(5) [OF tx_wfD(1)]] assms(2) by fastforce
  then show "\<exists>r. wait_tx_body env t a s = Some (r, s)" "\<exists>r. wait_rx_body env t a s = Some (r, s)"
    by (simp_all add: wait_tx_body_def wait_rx_body_def)
qed

text \<open>What every command promises: a call that returns gives everything back.\<close>

definition io_ok :: "(nat \<Rightarrow> nat) \<Rightarrow> nat set \<Rightarrow> (nat \<Rightarrow> nat) \<Rightarrow> nat set \<Rightarrow> io \<Rightarrow> bool" where
  "io_ok refs S refs' S' res \<longleftrightarrow> (\<exists>r s'. res = Some (r, s') \<and> (if r = Waiting then file_wf refs' S' s' else file_wf refs S s'))"

lemma io_ok_err: "file_wf refs S s \<Longrightarrow> io_ok refs S refs' S' (ret_err e s)"
  by (simp add: io_ok_def ret_err_def)

lemma io_ok_copy: "file_wf refs S s \<Longrightarrow> io_ok refs S refs' S' (copy_to_user env out s)"
  by (simp add: copy_to_user_def io_ok_def ret_err_def)

lemma with_lookup_ok:
  assumes "file_wf refs S s"
    "\<And>a s1. file_wf (refs(a := Suc (refs a))) S s1 \<Longrightarrow> dev_msgs (fs_dev s1) = dev_msgs (fs_dev s) \<Longrightarrow>
       \<exists>r s2. body a s1 = Some (r, s2) \<and> file_wf (refs(a := Suc (refs a))) (if r = Waiting then S' else S) s2"
  shows "io_ok refs S (case stream_pub (fs_dev s) i of None \<Rightarrow> refs | Some a \<Rightarrow> refs(a := Suc (refs a))) S' (with_lookup i body s)"
  using with_lookup_wf [OF assms(1), of i body S'] assms(2) by (fastforce simp: io_ok_def split: wait_result.splits)

lemma ioctl_stream_send_ok:
  assumes "file_wf refs S s" "io_fresh env S s"
  shows "io_ok refs S (held_refs (STREAM_SEND i dst data) s refs) (held_msgs env (STREAM_SEND i dst data) S) (ioctl_stream_send env i dst data s)"
proof -
  have "io_ok refs S (case stream_pub (fs_dev s) i of None \<Rightarrow> refs | Some a \<Rightarrow> refs(a := Suc (refs a))) (S \<union> set_option (io_alloc env))
      (with_lookup i (send_body env dst data) s)"
    using assms(2) by (intro with_lookup_ok [OF assms(1)] send_body_wf) (auto simp: io_fresh_def)
  then show ?thesis by (simp add: ioctl_stream_send_def held_refs_def held_msgs_def io_ok_err [OF assms(1)])
qed

lemma quiet_lookup_ok:
  assumes "file_wf refs S s" "\<And>refs a s1. file_wf refs S s1 \<Longrightarrow> 0 < refs a \<Longrightarrow> \<exists>r s2. body a s1 = Some (r, s2) \<and> file_wf refs S s2"
  shows "io_ok refs S (case stream_pub (fs_dev s) i of None \<Rightarrow> refs | Some a \<Rightarrow> refs(a := Suc (refs a))) S (with_lookup i body s)"
  using assms(2) by (intro with_lookup_ok [OF assms(1)]) simp

lemma ioctl_stream_recv_ok:
  assumes "file_wf refs S s"
  shows "io_ok refs S (held_refs (STREAM_RECV i len) s refs) S (ioctl_stream_recv env i len s)"
proof -
  let ?refs = "held_refs (STREAM_RECV i len) s refs"
  have "io_ok refs S ?refs S (with_lookup i (recv_body env len) s)"
    using quiet_lookup_ok [OF assms, of "recv_body env len" i] recv_body_wf by (simp add: held_refs_def)
  then obtain r s' where R: "with_lookup i (recv_body env len) s = Some (r, s')" "if r = Waiting then file_wf ?refs S s' else file_wf refs S s'"
    unfolding io_ok_def by blast
  show ?thesis
  proof (cases r)
    case Waiting
    with R io_ok_err [OF assms] show ?thesis by (simp add: ioctl_stream_recv_def io_ok_def)
  next
    case (Returned x)
    with R io_ok_err [OF assms] io_ok_copy [of refs S s' ?refs S env] show ?thesis
      by (cases x) (simp_all add: ioctl_stream_recv_def io_ok_def)
  qed
qed

lemma ioctl_stream_wait_ok:
  assumes "file_wf refs S s"
  shows "io_ok refs S (held_refs (STREAM_WAIT_TX i t) s refs) S (ioctl_stream_wait_tx env i t s)"
    "io_ok refs S (held_refs (STREAM_WAIT_RX i t) s refs) S (ioctl_stream_wait_rx env i t s)"
proof -
  have "\<exists>r s2. wait_tx_body env t a s1 = Some (r, s2) \<and> file_wf refs S s2" "\<exists>r s2. wait_rx_body env t a s1 = Some (r, s2) \<and> file_wf refs S s2"
    if "file_wf refs S s1" "0 < refs a" for refs a s1 using wait_bodies [OF that] that(1) by blast+
  from quiet_lookup_ok [OF assms this(1), where i = i] quiet_lookup_ok [OF assms this(2), where i = i]
  show "io_ok refs S (held_refs (STREAM_WAIT_TX i t) s refs) S (ioctl_stream_wait_tx env i t s)"
    "io_ok refs S (held_refs (STREAM_WAIT_RX i t) s refs) S (ioctl_stream_wait_rx env i t s)"
    by (simp_all add: ioctl_stream_wait_tx_def ioctl_stream_wait_rx_def held_refs_def io_ok_err [OF assms])
qed

lemma ioctl_counters_ok:
  assumes "file_wf refs S s"
  shows "io_ok refs S refs S (ioctl_wait_tx env s)" "io_ok refs S refs S (ioctl_wait_rx env s)"
    "io_ok refs S refs S (Some (Returned x, s\<lparr>fs_dev := upd_tx swap_bufs (fs_dev s)\<rparr>))"
    "io_ok refs S refs S (Some (Returned x, s\<lparr>fs_dev := upd_rx swap_bufs (fs_dev s)\<rparr>))"
proof -
  have tx: "file_wf refs S (s\<lparr>fs_dev := upd_tx (\<lambda>c. c\<lparr>rc_completed := 0\<rparr>) (fs_dev s)\<rparr>)"
    using file_wf_rings [OF assms, of "\<lambda>c. c\<lparr>rc_completed := 0\<rparr>" "\<lambda>c. c"] by (simp add: upd_rx_def)
  have rx: "file_wf refs S (s\<lparr>fs_dev := upd_rx (\<lambda>c. c\<lparr>rc_completed := 0\<rparr>) (fs_dev s)\<rparr>)"
    using file_wf_rings [OF assms, of "\<lambda>c. c" "\<lambda>c. c\<lparr>rc_completed := 0\<rparr>"] by (simp add: upd_tx_def)
  have id: "io_ok refs S refs S (Some (Waiting, s))" using assms by (simp add: io_ok_def)
  show "io_ok refs S refs S (ioctl_wait_tx env s)" "io_ok refs S refs S (ioctl_wait_rx env s)"
    unfolding ioctl_wait_tx_def ioctl_wait_rx_def using io_ok_err [OF assms] io_ok_copy [OF tx] io_ok_copy [OF rx] id
    by (simp_all split: wait_result.split sum.split)
  show "io_ok refs S refs S (Some (Returned x, s\<lparr>fs_dev := upd_tx swap_bufs (fs_dev s)\<rparr>))"
    "io_ok refs S refs S (Some (Returned x, s\<lparr>fs_dev := upd_rx swap_bufs (fs_dev s)\<rparr>))"
    using file_wf_rings [OF assms, of swap_bufs "\<lambda>c. c"] file_wf_rings [OF assms, of "\<lambda>c. c" swap_bufs]
    by (simp_all add: io_ok_def upd_rx_def upd_tx_def swap_bufs_def)
qed

lemma ioctl_ok:
  assumes "file_wf refs S s" "c \<in> set (fs_files s)" "io_fresh env S s" "stream_cmd cmd"
  shows "io_ok refs S (held_refs cmd s refs) (held_msgs env cmd S) (ioctl env c cmd s)"
proof (cases cmd)
  case (STREAM_OPEN i)
  from ioctl_stream_open_wf [OF assms(1-3), of i] STREAM_OPEN show ?thesis by (auto simp: ioctl_def io_ok_def)
next
  case (STREAM_CLOSE i)
  from ioctl_stream_close_wf [OF assms(1), of env c i] STREAM_CLOSE show ?thesis by (auto simp: ioctl_def io_ok_def)
next
  case (STREAM_SEND i dst data)
  then show ?thesis using ioctl_stream_send_ok [OF assms(1,3)] by (simp add: ioctl_def)
next
  case (WAIT_READY t)
  then show ?thesis using assms(1) by (simp add: ioctl_def ioctl_wait_ready_def ret_err_def io_ok_def held_refs_def held_msgs_def)
qed (use assms(4) ioctl_stream_recv_ok [OF assms(1)] ioctl_stream_wait_ok [OF assms(1)] ioctl_counters_ok [OF assms(1)] io_ok_err [OF assms(1)]
    io_ok_copy [OF assms(1)] in \<open>simp_all add: ioctl_def stream_cmd_def held_refs_def held_msgs_def\<close>)

lemma file_open_wf:
  assumes "file_wf refs S s" "c \<notin> set (fs_files s)"
  shows "file_wf refs S (snd (file_open (Some c) s))"
proof -
  let ?d = "fs_dev s" and ?d' = "(fs_dev s)\<lparr>dev_owners := (dev_owners (fs_dev s))(c := [])\<rparr>"
  have wf: "tx_wf refs S (\<lambda>_. 0) (\<lambda>_. 0) ?d" and own: "owners_ok (fs_files s) ?d" using assms(1) by (simp_all add: file_wf_def)
  have "dev_owners ?d c = []" using own assms(2) unfolding owners_ok_def by blast
  then have "(dev_owners ?d)(c := []) = dev_owners ?d" by (rule fun_upd_idem)
  then have same: "?d' = ?d" by simp
  have "owners_ok (c # fs_files s) ?d" using own by (auto simp: owners_ok_def)
  with assms wf show ?thesis unfolding file_open_def option.case snd_conv same by (simp add: file_wf_def)
qed

text \<open>The part of the receive callback that touches a stream, for a frame with a payload.\<close>

definition registration :: "stream \<Rightarrow> u8 \<times> nat option \<times> nat \<times> nat list \<times> bool" where
  "registration st = (st_id st, st_owner st, st_refcount st, st_tx_queue st, st_dying st)"

lemma asm_keeps:
  "registration (asm_sequence f st) = registration st" "registration (asm_reset h st) = registration st"
  "registration (asm_end rxm_ok h st) = registration st"
  "asm_grow kmalloc n st = Some st' \<Longrightarrow> registration st' = registration st"
  "asm_append payload st = Some st' \<Longrightarrow> registration st' = registration st"
  by (auto simp: registration_def asm_sequence_def asm_reset_def asm_end_def asm_clear_def asm_grow_def asm_append_def Let_def bind_eq_Some_conv
      split: option.splits if_splits)

lemma rx_assemble_keeps:
  assumes "rx_assemble kmalloc rxm_ok h payload st = Some st'"
  shows "registration st' = registration st"
proof -
  obtain st1 st2 where "asm_grow kmalloc (length payload) (asm_sequence (sh_frag_idx h) (asm_reset h st)) = Some st1"
    "asm_append payload st1 = Some st2" "st' = asm_end rxm_ok h st2"
    using assms unfolding rx_assemble_def bind_eq_Some_conv by blast
  then show ?thesis using asm_keeps by metis
qed

lemma rx_stream_frame_wf:
  assumes "file_wf refs S s" "rx_stream_frame kmalloc rxm_ok mem (fs_dev s) = Some d'" "hdr_of_bytes mem = Some h" "sh_payload_len h \<noteq> 0"
  shows "file_wf refs S (s\<lparr>fs_dev := d'\<rparr>)"
proof (cases "sh_dst_id h = 0")
  case True
  with assms show ?thesis by (simp add: rx_stream_frame_def file_wf_def)
next
  case False
  have wf: "tx_wf refs S (\<lambda>_. 0) (\<lambda>_. 0) (fs_dev s)" using assms(1) by (simp add: file_wf_def)
  obtain r d where L: "stream_lookup (sh_dst_id h) (fs_dev s) = Some (r, d)"
    using stream_lookup_law [OF tx_baseD(5) [OF tx_wfD(1) [OF wf]], of "sh_dst_id h"] by blast
  have s1: "file_wf (case r of None \<Rightarrow> refs | Some a \<Rightarrow> refs(a := Suc (refs a))) S (s\<lparr>fs_dev := d\<rparr>)"
    by (rule file_wf_reg [OF assms(1) stream_lookup_reg [OF wf L] tx_wf_lookup(1) [OF wf L]])
  show ?thesis
  proof (cases r)
    case None
    with assms(2,3) L False s1 show ?thesis by (simp add: rx_stream_frame_def)
  next
    case (Some a)
    let ?refs = "refs(a := Suc (refs a))"
    have s1: "file_wf ?refs S (s\<lparr>fs_dev := d\<rparr>)" using s1 unfolding Some option.case .
    obtain st payload st' where st: "dev_heap d a = Some st" "rx_assemble kmalloc rxm_ok h payload st = Some st'"
      "stream_put a (d\<lparr>dev_heap := (dev_heap d)(a \<mapsto> st')\<rparr>) = Some d'"
      using assms(2-4) L False Some by (auto simp: rx_stream_frame_def bind_eq_Some_conv)
    have s2: "file_wf ?refs S (s\<lparr>fs_dev := d\<lparr>dev_heap := (dev_heap d)(a \<mapsto> st')\<rparr>\<rparr>)"
      using set_stream_wf [OF s1, of a st st'] st(1) rx_assemble_keeps [OF st(2)] by (simp add: set_stream_def registration_def)
    then have "tx_wf ?refs S (\<lambda>_. 0) (\<lambda>_. 0) (d\<lparr>dev_heap := (dev_heap d)(a \<mapsto> st')\<rparr>)" by (simp add: file_wf_def)
    from tx_wf_put [OF this _ st(3)] have "tx_wf refs S (\<lambda>_. 0) (\<lambda>_. 0) d'" by simp
    with file_wf_reg [OF s2, of d' refs S] stream_put_reg [OF st(3)] show ?thesis by simp
  qed
qed

section \<open>Any number of files\<close>

text \<open>
  What can happen to a device with any number of open files: files are opened and released, calls return or wait, a waiting call drops its
  reference, transmitted frames complete, and received frames reach streams. The last two arguments of the state are what calls that have not
  returned hold.
\<close>

inductive file_trace :: "file_sys \<Rightarrow> (nat \<Rightarrow> nat) \<Rightarrow> nat set \<Rightarrow> file_sys \<Rightarrow> bool" for s0 where
  ft_start: "file_trace s0 (\<lambda>_. 0) {} s0"
| ft_open: "file_trace s0 refs S s \<Longrightarrow> c \<notin> set (fs_files s) \<Longrightarrow> file_trace s0 refs S (snd (file_open (Some c) s))"
| ft_release: "file_trace s0 refs S s \<Longrightarrow> file_release c s = Some s' \<Longrightarrow> file_trace s0 refs S s'"
| ft_return: "file_trace s0 refs S s \<Longrightarrow> c \<in> set (fs_files s) \<Longrightarrow> io_fresh env S s \<Longrightarrow> stream_cmd cmd \<Longrightarrow>
    ioctl env c cmd s = Some (Returned r, s') \<Longrightarrow> file_trace s0 refs S s'"
| ft_wait: "file_trace s0 refs S s \<Longrightarrow> c \<in> set (fs_files s) \<Longrightarrow> io_fresh env S s \<Longrightarrow> stream_cmd cmd \<Longrightarrow>
    ioctl env c cmd s = Some (Waiting, s') \<Longrightarrow> file_trace s0 (held_refs cmd s refs) (held_msgs env cmd S) s'"
| ft_drop: "file_trace s0 refs S s \<Longrightarrow> 0 < refs a \<Longrightarrow> stream_put a (fs_dev s) = Some d' \<Longrightarrow>
    file_trace s0 (refs(a := refs a - 1)) S (s\<lparr>fs_dev := d'\<rparr>)"
| ft_complete: "file_trace s0 refs S s \<Longrightarrow> tx_complete rc (fs_dev s) = Some d' \<Longrightarrow> file_trace s0 refs S (s\<lparr>fs_dev := d'\<rparr>)"
| ft_receive: "file_trace s0 refs S s \<Longrightarrow> hdr_of_bytes mem = Some h \<Longrightarrow> sh_payload_len h \<noteq> 0 \<Longrightarrow>
    rx_stream_frame kmalloc rxm_ok mem (fs_dev s) = Some d' \<Longrightarrow> file_trace s0 refs S (s\<lparr>fs_dev := d'\<rparr>)"

text \<open>A device after its pools were allocated, which nobody has opened.\<close>

definition no_files :: "file_sys \<Rightarrow> bool" where
  "no_files s \<longleftrightarrow> tx_idle (\<lambda>_. 0) (fs_dev s) \<and> dev_streams (fs_dev s) = [] \<and> dev_owners (fs_dev s) = (\<lambda>_. []) \<and> fs_files s = [] \<and>
     fs_open_count s = 0"

lemma no_files_wf: "no_files s \<Longrightarrow> file_wf (\<lambda>_. 0) {} s"
  by (simp add: no_files_def file_wf_def owners_ok_def tx_idle_wf)

lemma file_trace_wf:
  assumes "file_trace s0 refs S s" "no_files s0"
  shows "file_wf refs S s"
  using assms(1)
proof (induction rule: file_trace.induct)
  case ft_start
  show ?case by (rule no_files_wf [OF assms(2)])
next
  case (ft_open refs S s c)
  then show ?case by (intro file_open_wf)
next
  case (ft_release refs S s c s')
  then have "c \<in> set (fs_files s)" by (auto simp: file_release_def split: if_splits)
  from file_release_wf [OF ft_release.IH this] ft_release.hyps(2) show ?case by auto
next
  case (ft_return refs S s c env cmd r s')
  from ioctl_ok [OF ft_return.IH ft_return.hyps(2-4)] ft_return.hyps(5) show ?case by (simp add: io_ok_def)
next
  case (ft_wait refs S s c env cmd s')
  from ioctl_ok [OF ft_wait.IH ft_wait.hyps(2-4)] ft_wait.hyps(5) show ?case by (simp add: io_ok_def)
next
  case (ft_drop refs S s a d')
  have "tx_wf refs S (\<lambda>_. 0) (\<lambda>_. 0) (fs_dev s)" using ft_drop.IH by (simp add: file_wf_def)
  from file_wf_reg [OF ft_drop.IH stream_put_reg [OF ft_drop.hyps(3)] tx_wf_put [OF this ft_drop.hyps(2,3)]] show ?case .
next
  case (ft_complete refs S s rc d')
  have "tx_wf refs S (\<lambda>_. 0) (\<lambda>_. 0) (fs_dev s)" using ft_complete.IH by (simp add: file_wf_def)
  with tx_complete_wf [OF this, of rc] ft_complete.hyps(2) have "tx_wf refs S (\<lambda>_. 0) (\<lambda>_. 0) d'" by auto
  from file_wf_reg [OF ft_complete.IH tx_complete_reg [OF ft_complete.hyps(2)] this] show ?case .
next
  case (ft_receive refs S s mem h kmalloc rxm_ok d')
  from rx_stream_frame_wf [OF ft_receive.IH ft_receive.hyps(4,2,3)] show ?case .
qed

lemma any_readable_total: "(\<And>a. a \<in> set as \<Longrightarrow> dev_heap d a \<noteq> None) \<Longrightarrow> \<exists>r. any_readable as d = Some r"
  by (induction as) fastforce+

lemma file_poll_total:
  assumes "file_wf refs S s"
  shows "file_poll c s \<noteq> None"
proof -
  have wf: "tx_wf refs S (\<lambda>_. 0) (\<lambda>_. 0) (fs_dev s)" "owners_ok (fs_files s) (fs_dev s)" using assms by (simp_all add: file_wf_def)
  have "dev_heap (fs_dev s) a \<noteq> None" if "a \<in> set (dev_owners (fs_dev s) c)" for a
    using tx_wf_published [OF wf(1)] wf(2) that by (auto simp: owners_ok_def)
  then obtain r where "any_readable (dev_owners (fs_dev s) c) (fs_dev s) = Some r" using any_readable_total by blast
  then show ?thesis by (simp add: file_poll_def Let_def)
qed

text \<open>Frames of streams do not count as completions of legacy transfers.\<close>

definition stream_frame :: "frame_ref \<Rightarrow> bool" where
  "stream_frame r \<longleftrightarrow> (case r of PoolSlot _ \<Rightarrow> True | BatchFrame _ _ \<Rightarrow> True | _ \<Rightarrow> False)"

lemma upd_ctx:
  "upd_stream a f d = Some d' \<Longrightarrow> dev_tx d' = dev_tx d" "upd_msg m g d = Some d' \<Longrightarrow> dev_tx d' = dev_tx d"
  "upd_batch b h d = Some d' \<Longrightarrow> dev_tx d' = dev_tx d"
  by (auto simp: upd_stream_def upd_msg_def upd_batch_def Let_def split: option.splits if_splits)

lemma stream_put_ctx: "stream_put a d = Some d' \<Longrightarrow> dev_tx d' = dev_tx d"
  by (auto simp: stream_put_def stream_free_def split: Option.bind_splits nat.splits if_splits)

lemma tx_msg_put_ctx: "tx_msg_put m d = Some d' \<Longrightarrow> dev_tx d' = dev_tx d"
  by (auto simp: tx_msg_put_def split: Option.bind_splits nat.splits if_splits dest!: upd_ctx stream_put_ctx)

lemma tx_msg_frame_done_ctx: "tx_msg_frame_done m c d = Some d' \<Longrightarrow> dev_tx d' = dev_tx d"
  by (auto simp: tx_msg_frame_done_def tx_msg_maybe_complete_def split: Option.bind_splits if_splits dest!: upd_ctx tx_msg_put_ctx)

lemma tx_complete_stream_ctx:
  assumes "tx_complete (r, c) d = Some d'" "stream_frame r"
  shows "dev_tx d' = dev_tx d"
proof (cases "r \<in> set (dev_tx_pending d)")
  case False
  with assms(1) show ?thesis by (simp add: tx_complete_def)
next
  case True
  let ?d = "d\<lparr>dev_tx_pending := remove1 r (dev_tx_pending d)\<rparr>"
  show ?thesis
  proof (cases r)
    case (PoolSlot i)
    with assms(1) True show ?thesis
      by (auto simp: tx_complete_def tx_callback_def Let_def split: Option.bind_splits option.splits dest!: tx_msg_frame_done_ctx)
  next
    case (BatchFrame b i)
    with assms(1) True have "tx_batch_callback True (BatchFrame b i) c ?d = Some d'" by (simp add: tx_complete_def)
    then have "dev_tx d' = dev_tx ?d"
      by (auto simp: tx_batch_callback_def split: Option.bind_splits option.splits if_splits dest!: upd_ctx tx_msg_frame_done_ctx)
    then show ?thesis by simp
  qed (use assms(2) in \<open>simp_all add: stream_frame_def\<close>)
qed

lemma tx_complete_all_stream_ctx:
  "tx_complete_all rcs d = Some d' \<Longrightarrow> \<forall>(r, c) \<in> set rcs. stream_frame r \<Longrightarrow> dev_tx d' = dev_tx d"
  by (induction rcs arbitrary: d) (auto simp: bind_eq_Some_conv dest: tx_complete_stream_ctx)

section \<open>Properties\<close>


text \<open>C34: Closing a file destroys its own streams and nothing else. Whatever happened before, \<open>odl_tb5_release\<close> completes, the streams left in the
  table are exactly those of the other files, in the same order, and they and the lists of the other files are unchanged.\<close>

theorem release_own_streams:
  assumes "no_files s0" "file_trace s0 refs S s" "c \<in> set (fs_files s)"
  shows "\<exists>s'. file_release c s = Some s' \<and>
    dev_streams (fs_dev s') = filter (\<lambda>a. st_owner (the (dev_heap (fs_dev s) a)) \<noteq> Some c) (dev_streams (fs_dev s)) \<and>
    (\<forall>a \<in> set (dev_streams (fs_dev s')). dev_heap (fs_dev s') a = dev_heap (fs_dev s) a) \<and>
    (\<forall>c'. dev_owners (fs_dev s') c' = (if c' = c then [] else dev_owners (fs_dev s) c')) \<and> c \<notin> set (fs_files s')"
proof -
  note F = file_trace_wf [OF assms(2,1)]
  then have wf: "tx_wf refs S (\<lambda>_. 0) (\<lambda>_. 0) (fs_dev s)" and own: "owners_ok (fs_files s) (fs_dev s)" and dist: "distinct (fs_files s)"
    by (simp_all add: file_wf_def)
  let ?as = "dev_owners (fs_dev s) c"
  obtain s' where s': "file_release c s = Some s'" "dev_owners (fs_dev s') c = []"
    "dev_streams (fs_dev s') = filter (\<lambda>a. a \<notin> set ?as) (dev_streams (fs_dev s))" "fs_files s' = remove1 c (fs_files s)"
    "\<And>b. b \<notin> set ?as \<Longrightarrow> dev_heap (fs_dev s') b = dev_heap (fs_dev s) b" "\<And>c'. c' \<noteq> c \<Longrightarrow> dev_owners (fs_dev s') c' = dev_owners (fs_dev s) c'"
    using file_release_wf [OF F assms(3)] by blast
  have mine: "a \<in> set ?as \<longleftrightarrow> st_owner (the (dev_heap (fs_dev s) a)) = Some c" if "a \<in> set (dev_streams (fs_dev s))" for a
    using own that tx_wf_published [OF wf that] by (auto simp: owners_ok_def cores_def)
  then have "filter (\<lambda>a. a \<notin> set ?as) (dev_streams (fs_dev s)) = filter (\<lambda>a. st_owner (the (dev_heap (fs_dev s) a)) \<noteq> Some c) (dev_streams (fs_dev s))"
    by (intro filter_cong) auto
  with s' dist mine show ?thesis by (auto simp: set_remove1_eq)
qed

text \<open>C35: \<open>POLLOUT\<close> keeps its promise for messages of one frame. When \<open>odl_tb5_poll\<close> reports a file writable and a batch buffer is free, a
  send of up to 4024 bytes on any stream returns success in its first round, in blocking and in non-blocking mode, provided that its
  memory is allocated and readable and the ring takes the descriptor.\<close>

theorem poll_out_send:
  assumes "no_files s0" "file_trace s0 refs S s" "file_poll c s = Some (readable, True)" "stream_pub (fs_dev s) i = Some a"
    "io_fresh env S s" "io_alloc env = Some m" "io_copy_in env" "io_tx env \<noteq> []" "\<forall>e \<in> set (io_tx env). \<forall>i. te_copy_ok e i \<and> te_tx_ok e i"
    "data \<noteq> []" "length data \<le> STREAM_PAYLOAD_MAX" "0 < bp_free_count (dev_bpool (fs_dev s))"
  shows "\<exists>s'. ioctl env c (STREAM_SEND i dst data) s = Some (Returned (Inr OutNone), s')"
proof -
  let ?d = "fs_dev s"
  have F: "file_wf refs S s" by (rule file_trace_wf [OF assms(2,1)])
  then have wf: "tx_wf refs S (\<lambda>_. 0) (\<lambda>_. 0) ?d" by (simp add: file_wf_def)
  note str = tx_baseD(5) [OF tx_wfD(1) [OF wf]]
  have out: "dev_state ?d = READY" "int TX_POOL_RESERVE < fp_free_count (dev_pool ?d)"
    using assms(3) by (auto simp: file_poll_def Let_def bind_eq_Some_conv)
  define d1 where "d1 = ?d\<lparr>dev_heap := (dev_heap ?d)(a \<mapsto> (the (dev_heap ?d a))\<lparr>st_refcount := Suc (st_refcount (the (dev_heap ?d a)))\<rparr>)\<rparr>"
  have L: "stream_lookup i ?d = Some (Some a, d1)" using stream_lookup_eq [OF str, of i] assms(4) by (simp add: d1_def)
  from tx_wf_lookup(1) [OF wf L] have wf1: "tx_wf (refs(a := Suc (refs a))) S (\<lambda>_. 0) (\<lambda>_. 0) d1" by (simp only: option.case)
  have m: "m \<notin> S" "dev_msgs d1 m = None" using assms(5,6) by (auto simp: io_fresh_def d1_def)
  have pos: "0 < length data" "length data \<le> 4024" using assms(10,11) by (simp_all add: STREAM_PAYLOAD_MAX_eq)
  have n: "sendable data" using pos by (simp add: sendable_def STREAM_PAYLOAD_MAX_eq)
  have n1: "DIV_ROUND_UP (length data) STREAM_PAYLOAD_MAX = 1"
    unfolding DIV_ROUND_UP_def STREAM_PAYLOAD_MAX_eq by (rule div_nat_eqI) (use pos in \<open>simp_all add: Suc_le_eq del: length_greater_0_conv\<close>)
  have "list_all env_good (io_tx env)" using assms(9) by (auto simp: list_all_iff env_good_def)
  then have room: "latency_room (io_tx env) 1 d1" "throughput_room (io_tx env) 1 d1"
    using out(2) assms(8,12) by (auto simp: latency_room_def throughput_room_def d1_def DIV_ROUND_UP_def BATCH_FRAMES_eq Suc_le_eq)
  have st: "dev_heap d1 a = Some (the (dev_heap d1 a))" by (simp add: d1_def)
  have ready: "dev_state d1 = READY" and len: "length (msg_frames sid dst data) = 1" for sid using out(1) n1 by (simp_all add: d1_def length_msg_frames)
  obtain d2 where d2: "stream_send (io_tx env) (io_done env) (Some m) a dst data d1 = Some (TxReturned (Inr ()), d2)"
    using stream_send_ok(2) [OF wf1 m(2,1) st ready n, where dst = dst and envs = "io_tx env" and last_done = "io_done env", unfolded len] room by metis
  have s2: "tx_wf (refs(a := Suc (refs a))) S (\<lambda>_. 0) (\<lambda>_. 0) d2"
    using tx_wf_send [OF wf1 st m(2,1), where envs = "io_tx env" and last_done = "io_done env" and dst = dst and data = data] d2 by auto
  obtain d3 where d3: "stream_put a d2 = Some d3" using stream_put_law [OF tx_baseD(5) [OF tx_wfD(1) [OF s2]], of a] by auto
  have "stream_can_send d1" using out by (simp add: stream_can_send_def d1_def)
  then show ?thesis using L d2 d3 assms(6,7) by (simp add: ioctl_def ioctl_stream_send_def with_lookup_def send_body_def of_tx_def)
qed

lemma evaluate_tx_mode_heap: "fst (evaluate_tx_mode n (d\<lparr>dev_heap := H\<rparr>)) = fst (evaluate_tx_mode n d)"
  by (cases "ta_mode (dev_adapt d)") (simp_all add: evaluate_tx_mode_def Let_def)

text \<open>C36: Sending without a frame pool. When \<open>odl_tb5_frame_pool_alloc\<close> fails, the connection is brought up nevertheless, and the pool is left without
  a bitmap but with all its slots counted as free. \<open>odl_tb5_stream_can_send\<close> then holds, and a send in latency mode searches a bitmap that does not
  exist: a process with an open stream crashes the kernel. \<open>poll\<close>, which looks at the slots, does not report the file writable.\<close>

theorem send_without_pool:
  assumes "frame_pool_alloc sk bk dma p ls = (Inl e, p1, ls1)" "fp_bitmap p = None" "dev_pool (fs_dev s) = p1" "dev_state (fs_dev s) = READY"
    "streams_wf ext (fs_dev s)" "stream_pub (fs_dev s) i = Some a" "io_copy_in env" "io_alloc env = Some m" "io_tx env = e1 # es" "te_done e1 = []"
    "sendable data" "fst (evaluate_tx_mode (length data) (fs_dev s)) = TX_LATENCY"
  shows "stream_can_send (fs_dev s) \<and> ioctl env c (STREAM_SEND i dst data) s = None \<and> \<not> (\<exists>readable. file_poll c s = Some (readable, True))"
proof -
  let ?d = "fs_dev s"
  have p1: "fp_slots p1 = None" "fp_bitmap p1 = None" "fp_free_count p1 = int FRAME_POOL_SIZE"
    using assms(1,2) by (auto simp: frame_pool_alloc_def Let_def split: if_splits prod.splits sum.splits)
  have can: "stream_can_send ?d" using assms(3,4) p1(3) by (simp add: stream_can_send_def driver_consts)
  define st where "st = (the (dev_heap ?d a))\<lparr>st_refcount := Suc (st_refcount (the (dev_heap ?d a)))\<rparr>"
  let ?d1 = "?d\<lparr>dev_heap := (dev_heap ?d)(a \<mapsto> st)\<rparr>"
  have L: "stream_lookup i ?d = Some (Some a, ?d1)" using stream_lookup_eq [OF assms(5), of i] assms(6) by (simp add: st_def)
  obtain ta where ev: "evaluate_tx_mode (length data) ?d1 = (TX_LATENCY, ?d1\<lparr>dev_adapt := ta\<rparr>)"
  proof -
    have "fst (evaluate_tx_mode (length data) ?d1) = TX_LATENCY" using assms(12) by (simp add: evaluate_tx_mode_heap)
    with evaluate_tx_mode_state [of "length data" ?d1] that show thesis by (metis prod.collapse)
  qed
  have "0 < length data" using assms(11) by (simp add: sendable_def)
  moreover have "frame_pool_get p1 = None" using p1(2) by (simp add: frame_pool_get_def)
  ultimately have "latency_loop (e1 # es) m sid dst data 0 d = None" if "dev_pool d = p1" "dev_msgs d m = Some (new_tx_msg dst (length data) a)" for sid d
    using that p1(3) assms(10) by (simp add: latency_loop.simps [of "e1 # es"] new_tx_msg_def driver_consts Let_def)
  then have "stream_send (io_tx env) (io_done env) (io_alloc env) a dst data ?d1 = None"
    using assms(3,4,8,9,11) ev by (simp add: stream_send_def sendable_def stream_send_latency_def tx_begin_def upd_stream_def tx_conclude_def)
  moreover have "stream_can_send ?d1" using can by (simp add: stream_can_send_def)
  ultimately have "ioctl env c (STREAM_SEND i dst data) s = None"
    using L assms(7) by (simp add: ioctl_def ioctl_stream_send_def with_lookup_def send_body_def)
  with can assms(3) p1(1) show ?thesis by (auto simp: file_poll_def Let_def bind_eq_Some_conv)
qed

text \<open>C37: Waiting for a legacy transfer stalls the next one. Let a legacy transfer have completed, all its frames counted. Without a wait,
  the next submission finds it completed at once and leaves the ring alone. But \<open>WAIT_TX\<close>, the call that waits for it, sets the count of completed
  frames to zero and leaves the count of submitted frames: the next submission waits for completions that have already happened, until the
  timeout of five seconds, and then restarts the ring, which cancels every frame on it, those of streams included.\<close>

theorem wait_tx_stalls_send:
  assumes "tx_wf refs {} (\<lambda>_. 0) (\<lambda>_. 0) (fs_dev s)" "rc_frames_posted (dev_tx (fs_dev s))" "0 < rc_submitted (dev_tx (fs_dev s))"
    "rc_completed (dev_tx (fs_dev s)) = rc_submitted (dev_tx (fs_dev s))" "\<forall>(r, c) \<in> set rcs. stream_frame r"
  shows "submit_tx_drain rcs (fs_dev s) = do { d \<leftarrow> tx_complete_all rcs (fs_dev s); Some (upd_tx reset_counts d) } \<and>
    (\<exists>r s' d'. ioctl env c WAIT_TX s = Some (Returned r, s') \<and> submit_tx_drain rcs (fs_dev s') = Some d' \<and> dev_tx_pending d' = [])"
proof -
  let ?d = "fs_dev s"
  let ?w = "upd_tx (\<lambda>c. c\<lparr>rc_completed := 0\<rparr>) ?d"
  have wf: "tx_wf refs {} (\<lambda>_. 0) (\<lambda>_. 0) ?w" using tx_wf_count [where d = ?d and n = 0] assms(1) by (simp add: upd_tx_def)
  obtain d1 d2 where d1: "tx_complete_all rcs ?d = Some d1" and d2: "tx_complete_all rcs ?w = Some d2" "tx_wf refs {} (\<lambda>_. 0) (\<lambda>_. 0) d2"
    using tx_complete_all_wf [OF assms(1), of rcs] tx_complete_all_wf [OF wf, of rcs] by blast
  have c: "dev_tx d1 = dev_tx ?d" "dev_tx d2 = dev_tx ?w"
    using tx_complete_all_stream_ctx [OF d1 assms(5)] tx_complete_all_stream_ctx [OF d2(1) assms(5)] by simp_all
  obtain d3 where d3: "tb_ring_stop_tx d2 = Some d3" "dev_tx_pending d3 = []"
    using stop_tx_ok [OF d2(2)] by (auto simp: tx_drained_def)
  have "submit_tx_drain rcs ?d = do { d \<leftarrow> tx_complete_all rcs ?d; Some (upd_tx reset_counts d) }"
    using assms(2,4) d1 c(1) by (simp add: submit_tx_drain_def)
  moreover have "submit_tx_drain rcs ?w = Some (upd_tx reset_counts d3)"
    using assms(2,3) d2(1) d3(1) c(2) by (simp add: submit_tx_drain_def upd_tx_def)
  moreover have "dev_tx_pending (upd_tx reset_counts d3) = []" using d3(2) by (simp add: upd_tx_def)
  moreover have "\<exists>r. ioctl env c WAIT_TX s = Some (Returned r, s\<lparr>fs_dev := ?w\<rparr>)"
    using assms(3,4) by (simp add: ioctl_def ioctl_wait_tx_def wait_event_def copy_to_user_def ret_err_def)
  ultimately show ?thesis by fastforce
qed

section \<open>Instances\<close>

definition quiet_device :: odl_device where
  "quiet_device = sample_device\<lparr>dev_bpool := sample_batches\<rparr>"

definition sys_of :: "odl_device \<Rightarrow> file_sys" where
  "sys_of d = \<lparr>fs_dev = d, fs_files = [], fs_open_count = 0, fs_dmabuf = \<lparr>dr_refs = 0, dr_attached = 0, dr_mapped = 0\<rparr>\<rparr>"

lemma quiet_no_files: "no_files (sys_of quiet_device)"
proof -
  have "streams_wf (\<lambda>_. 0) quiet_device"
    using sample_pool_ok(1) sample_device_empty by (intro streams_wf_cong [OF empty_device_wf]) (auto simp: quiet_device_def sample_device_def)
  then show ?thesis
    using sample_sender_idle by (simp add: no_files_def sys_of_def tx_idle_def quiet_device_def sample_sender_def with_stream_def add_owned_def sample_device_def)
qed

definition sample_io :: "nat \<Rightarrow> io_env" where
  "sample_io a = \<lparr>io_nonblock = True, io_copy_in = True, io_copy_out = True, io_data_ok = True, io_intr = False, io_timeout = False, io_alloc = Some a,
     io_ida = True, io_rx_ok = (\<lambda>_. True), io_tx = [sample_env], io_done = [], io_ret = (\<lambda>_. None),
     io_dmabuf = \<lparr>de_get = Inl EINVAL, de_attach = None, de_map = Inl EINVAL, de_ret = (\<lambda>_. None), de_done = [], de_signal = False\<rparr>,
     io_kmalloc = (\<lambda>_. None), io_rxm_ok = True, io_xd = None\<rparr>"

definition opened :: file_sys where
  "opened = snd (file_open (Some 3) (sys_of quiet_device))"

definition with_file :: file_sys where
  "with_file = opened\<lparr>fs_dev := with_stream 21 (Some 3) 7 (fs_dev opened)\<rparr>"

lemma quiet_sel:
  "dev_heap quiet_device = Map.empty" "dev_msgs quiet_device = Map.empty" "dev_streams quiet_device = []" "dev_ida quiet_device = []"
  "dev_owners quiet_device = (\<lambda>_. [])" "dev_rx_target quiet_device = 1" "dev_state quiet_device = READY" "dev_pool quiet_device = sample_pool"
  "dev_bpool quiet_device = sample_batches" "rc_completed (dev_rx quiet_device) = 0"
  by (simp_all add: quiet_device_def sample_device_def sample_ring_def)

lemma opened_trace: "file_trace (sys_of quiet_device) (\<lambda>_. 0) {} opened" "fs_files opened = [3]" "io_fresh (sample_io 7) {} opened"
  "fs_dev opened = quiet_device"
proof -
  show "file_trace (sys_of quiet_device) (\<lambda>_. 0) {} opened" unfolding opened_def by (rule ft_open [OF ft_start]) (simp add: sys_of_def)
  show "fs_files opened = [3]" "io_fresh (sample_io 7) {} opened"
    by (simp_all add: opened_def file_open_def sys_of_def io_fresh_def sample_io_def quiet_sel)
  have "(dev_owners quiet_device)(3 := []) = dev_owners quiet_device" by (simp add: quiet_sel fun_upd_idem)
  then show "fs_dev opened = quiet_device" by (simp add: opened_def file_open_def sys_of_def)
qed

lemma opened_stream: "ioctl (sample_io 7) 3 (STREAM_OPEN 21) opened = Some (Returned (Inr (OutStream 21)), with_file)"
  by (simp add: ioctl_def ioctl_stream_open_def sample_io_def opened_trace(4) stream_create_eq ida_alloc_range_def quiet_sel with_file_def
      with_stream_def add_owned_def new_stream_def Let_def)

lemma with_file_trace: "file_trace (sys_of quiet_device) (\<lambda>_. 0) {} with_file" "fs_files with_file = [3]" "io_fresh (sample_io 1) {} with_file"
  "stream_pub (fs_dev with_file) 21 = Some 7"
proof -
  show "file_trace (sys_of quiet_device) (\<lambda>_. 0) {} with_file"
    by (rule ft_return [OF opened_trace(1) _ opened_trace(3) _ opened_stream]) (simp_all add: opened_trace(2) stream_cmd_def)
  show "fs_files with_file = [3]" "io_fresh (sample_io 1) {} with_file" "stream_pub (fs_dev with_file) 21 = Some 7"
    by (simp_all add: with_file_def opened_trace(2,4) io_fresh_def sample_io_def with_stream_def add_owned_def quiet_sel stream_pub_def new_stream_def)
qed


theorem release_own_streams_witness:
  "\<exists>s'. dev_streams (fs_dev with_file) = [7] \<and> file_release 3 with_file = Some s' \<and> dev_streams (fs_dev s') = []"
proof -
  have "dev_streams (fs_dev with_file) = [7]" "st_owner (the (dev_heap (fs_dev with_file) 7)) = Some 3"
    by (simp_all add: with_file_def opened_trace(4) with_stream_def add_owned_def quiet_sel new_stream_def)
  with release_own_streams [OF quiet_no_files with_file_trace(1), of 3] with_file_trace(2) show ?thesis by auto
qed

theorem poll_out_send_witness:
  "file_poll 3 with_file = Some (False, True) \<and>
   (\<exists>s'. ioctl (sample_io 1) 3 (STREAM_SEND 21 9 [65, 66, 67]) with_file = Some (Returned (Inr OutNone), s'))"
proof -
  have pool: "fp_free_count sample_pool = 4096" "fp_slots sample_pool \<noteq> None"
    using free_count_card [OF sample_pool_ok(1)] sample_pool_ok by (auto simp: driver_consts elim: frame_pool_wfE)
  then have "file_poll 3 with_file = Some (False, True)"
    by (simp add: file_poll_def with_file_def opened_trace(4) with_stream_def add_owned_def quiet_sel new_stream_def driver_consts)
  moreover have "bp_free_count (dev_bpool (fs_dev with_file)) = 32"
    by (simp add: with_file_def opened_trace(4) with_stream_def add_owned_def quiet_sel sample_batches_def driver_consts)
  ultimately show ?thesis
    using poll_out_send [OF quiet_no_files with_file_trace(1) _ with_file_trace(4,3), of 3 False 1 "[65, 66, 67]" 9]
    by (simp add: sample_io_def sample_env_def STREAM_PAYLOAD_MAX_eq)
qed

definition empty_pool :: frame_pool where
  "empty_pool = \<lparr>fp_slots = None, fp_bitmap = None, fp_size = FRAME_POOL_SIZE, fp_free_count = int FRAME_POOL_SIZE\<rparr>"

theorem send_without_pool_witness:
  "ioctl (sample_io 1) 3 (STREAM_SEND 21 9 [65]) (sys_of ((with_stream 21 (Some 3) 7 sample_device)\<lparr>dev_pool := empty_pool\<rparr>)) = None"
proof -
  let ?d = "(with_stream 21 (Some 3) 7 sample_device)\<lparr>dev_pool := empty_pool\<rparr>"
  have a: "frame_pool_alloc False True (\<lambda>_. None) \<lparr>fp_slots = None, fp_bitmap = None, fp_size = 0, fp_free_count = 0\<rparr> [] = (Inl ENOMEM, empty_pool, [])"
    by (simp add: frame_pool_alloc_def empty_pool_def)
  have "stream_create (Some 7) True (\<lambda>_. True) (Some 3) 21 sample_device = Some (Inr 7, with_stream 21 (Some 3) 7 sample_device)"
    by (simp add: stream_create_eq ida_alloc_range_def sample_device_def)
  moreover have "dev_heap sample_device 7 = None" "st_id (the (dev_heap (with_stream 21 (Some 3) 7 sample_device) 7)) = 21"
    by (simp_all add: sample_device_def with_stream_def add_owned_def new_stream_def)
  ultimately have "stream_created sample_device 21 7 (with_stream 21 (Some 3) 7 sample_device)"
    unfolding stream_created_def by blast
  from stream_created_law [OF empty_device_wf [OF sample_device_empty] this]
  have "streams_wf (\<lambda>_. 0) (with_stream 21 (Some 3) 7 sample_device)" by (rule conjunct1)
  from streams_wf_cong [OF this, of ?d] have "streams_wf (\<lambda>_. 0) ?d" by (simp add: empty_pool_def)
  moreover have "stream_pub ?d 21 = Some 7" "dev_state ?d = READY"
    by (simp_all add: stream_pub_def with_stream_def add_owned_def new_stream_def sample_device_def)
  moreover have "fst (evaluate_tx_mode (length [65 :: byte]) ?d) = TX_LATENCY"
    by (simp add: evaluate_tx_mode_def with_stream_def add_owned_def sample_device_def empty_pool_def THROUGHPUT_THRESH_def DIV_ROUND_UP_def STREAM_PAYLOAD_MAX_eq Let_def)
  ultimately show ?thesis
    using send_without_pool [OF a, of "sys_of ?d" "\<lambda>_. 0" 21 7 "sample_io 1" 1 sample_env "[]" "[65]" 3 9]
    by (simp add: sys_of_def sample_io_def sample_env_def sendable_def STREAM_PAYLOAD_MAX_eq)
qed

definition sent_device :: odl_device where
  "sent_device = upd_tx (\<lambda>c. c\<lparr>rc_frames_posted := True, rc_submitted := 2, rc_completed := 2\<rparr>) (full_sender 64)"

theorem wait_tx_stalls_send_witness:
  "\<exists>r s' d'. ioctl (sample_io 1) 3 WAIT_TX (sys_of sent_device) = Some (Returned r, s') \<and> submit_tx_drain [] (fs_dev s') = Some d' \<and> dev_tx_pending d' = []"
proof -
  have "tx_wf (\<lambda>_. 0) {} (\<lambda>_. 0) (\<lambda>_. 0) sent_device"
  proof -
    let ?s = "(full_sender 64)\<lparr>dev_tx := dev_tx sent_device, dev_rx := dev_rx (full_sender 64)\<rparr>"
    have "?s = sent_device" by (simp add: sent_device_def upd_tx_def)
    moreover have "rc_ring (dev_tx sent_device) \<noteq> None" "rc_ring (dev_rx (full_sender 64)) \<noteq> None"
      by (simp_all add: sent_device_def upd_tx_def full_sender_def full_ring_def)
    ultimately show ?thesis using tx_wf_rings [OF full_sender_ok(1) [of 64]] by metis
  qed
  with wait_tx_stalls_send [of "\<lambda>_. 0" "sys_of sent_device" "[]" "sample_io 1" 3] show ?thesis
    by (simp add: sys_of_def sent_device_def upd_tx_def)
qed

end
