(* ===== verification/Ring_Queue.thy ===== *)
theory Ring_Queue
  imports Odl_Prelude
begin

text \<open>
  Bounded first-in first-out queues over a circular array with a head and a tail index. The locale \<open>bounded_fifo\<close> is what such a queue
  promises; the completion ring of the verbs provider (\<^verbatim>\<open>verbs/src/odl_tb5_verbs_cq.c\<close>) interprets it in \<open>Comp_Queue\<close>.
\<close>

section \<open>A window of a circular array\<close>

definition ring_slice :: "'a list \<Rightarrow> nat \<Rightarrow> nat \<Rightarrow> 'a list" where
  "ring_slice xs h n = map (\<lambda>k. xs ! ((h + k) mod length xs)) [0..<n]"

lemma length_ring_slice [simp]: "length (ring_slice xs h n) = n"
  by (simp add: ring_slice_def)

lemma ring_slice_0 [simp]: "ring_slice xs h 0 = []"
  by (simp add: ring_slice_def)

lemma ring_slice_nth [simp]: "k < n \<Longrightarrow> ring_slice xs h n ! k = xs ! ((h + k) mod length xs)"
  by (simp add: ring_slice_def)

lemma mod_shift_eq:
  fixes h k n :: nat
  assumes "(h + k) mod n = (h + j) mod n" "j < n" "k < n"
  shows "k = j"
proof (rule ccontr)
  have dvd: "\<not> n dvd b - a" if "a < b" "b < n" for a b using that nat_dvd_not_less [of "b - a" n] by simp
  assume "k \<noteq> j"
  then consider "k < j" | "j < k" by linarith
  then show False
    using assms dvd [of k j] dvd [of j k] mod_eq_dvd_iff_nat [of "h + k" "h + j" n] mod_eq_dvd_iff_nat [of "h + j" "h + k" n] by cases simp_all
qed

lemma ring_slice_Suc_front:
  assumes "h < length xs"
  shows "ring_slice xs h (Suc n) = xs ! h # ring_slice xs (Suc h mod length xs) n"
proof (rule nth_equalityI)
  fix i
  assume "i < length (ring_slice xs h (Suc n))"
  then show "ring_slice xs h (Suc n) ! i = (xs ! h # ring_slice xs (Suc h mod length xs) n) ! i"
    using assms by (cases i) (simp_all add: mod_simps)
qed simp

lemma ring_slice_Suc_back:
  assumes "n < length xs"
  shows "ring_slice (xs[(h + n) mod length xs := x]) h (Suc n) = ring_slice xs h n @ [x]"
proof (rule nth_equalityI)
  fix i
  assume "i < length (ring_slice (xs[(h + n) mod length xs := x]) h (Suc n))"
  then consider "i < n" | "i = n" by fastforce
  then show "ring_slice (xs[(h + n) mod length xs := x]) h (Suc n) ! i = (ring_slice xs h n @ [x]) ! i"
  proof cases
    case 1
    then have "(h + n) mod length xs \<noteq> (h + i) mod length xs" using mod_shift_eq [of h n "length xs" i] assms by auto
    with 1 show ?thesis by (simp add: nth_append)
  next
    case 2
    have "(h + n) mod length xs < length xs" using assms by (cases xs) simp_all
    with 2 show ?thesis by (simp add: nth_append)
  qed
qed simp

text \<open>The number of entries between a head and a tail index.\<close>

lemma ring_count:
  fixes h t c :: nat
  assumes "h < c" "t < c"
  shows "(t + c - h) mod c = (if h \<le> t then t - h else t + c - h)"
proof (cases "h \<le> t")
  case True
  then have "t + c - h = (t - h) + c" by simp
  then have "(t + c - h) mod c = (t - h) mod c" by simp
  with True assms show ?thesis by simp
qed (use assms in simp)

lemma Suc_mod_ring: "t < c \<Longrightarrow> Suc t mod c = (if Suc t = c then 0 else Suc t)" for t c :: nat
  by simp

lemma ring_count_facts:
  fixes h t c :: nat
  assumes "h < c" "t < c"
  shows "Suc t mod c = h \<longleftrightarrow> (t + c - h) mod c = c - 1"
    and "Suc t mod c \<noteq> h \<Longrightarrow> (Suc t mod c + c - h) mod c = Suc ((t + c - h) mod c)"
    and "(h + (t + c - h) mod c) mod c = t"
    and "h \<noteq> t \<Longrightarrow> Suc ((t + c - Suc h mod c) mod c) = (t + c - h) mod c"
    and "(t + c - h) mod c = 0 \<longleftrightarrow> h = t"
proof -
  have c: "0 < c" using assms by simp
  then have S: "Suc t mod c < c" "Suc h mod c < c" by simp_all
  show "Suc t mod c = h \<longleftrightarrow> (t + c - h) mod c = c - 1"
    unfolding ring_count [OF assms] Suc_mod_ring [OF assms(2)] using assms by auto
  show "(Suc t mod c + c - h) mod c = Suc ((t + c - h) mod c)" if "Suc t mod c \<noteq> h"
    using that unfolding ring_count [OF assms] ring_count [OF assms(1) S(1)] unfolding Suc_mod_ring [OF assms(2)] using assms by (auto split: if_splits)
  show "(h + (t + c - h) mod c) mod c = t"
    unfolding ring_count [OF assms] using assms by auto
  show "Suc ((t + c - Suc h mod c) mod c) = (t + c - h) mod c" if "h \<noteq> t"
    using that unfolding ring_count [OF assms] ring_count [OF S(2) assms(2)] unfolding Suc_mod_ring [OF assms(1)] using assms by (auto split: if_splits)
  show "(t + c - h) mod c = 0 \<longleftrightarrow> h = t"
    unfolding ring_count [OF assms] using assms by auto
qed

section \<open>The contract\<close>

text \<open>\<open>push\<close> has the value \<open>None\<close> when the queue is full, \<open>pop\<close> when it is empty.\<close>

inductive fifo_client :: "('a \<Rightarrow> 'q \<Rightarrow> 'q option) \<Rightarrow> ('q \<Rightarrow> ('a \<times> 'q) option) \<Rightarrow> 'q \<Rightarrow> 'a list \<Rightarrow> 'a list \<Rightarrow> 'q \<Rightarrow> bool"
  for push pop q0 where
  fifo_start: "fifo_client push pop q0 [] [] q0"
| fifo_push: "fifo_client push pop q0 ins outs q \<Longrightarrow> push x q = Some q' \<Longrightarrow> fifo_client push pop q0 (ins @ [x]) outs q'"
| fifo_pop: "fifo_client push pop q0 ins outs q \<Longrightarrow> pop q = Some (x, q') \<Longrightarrow> fifo_client push pop q0 ins (outs @ [x]) q'"

locale bounded_fifo =
  fixes inv :: "'q \<Rightarrow> bool"
    and contents :: "'q \<Rightarrow> 'a list"
    and cap :: "'q \<Rightarrow> nat"
    and push :: "'a \<Rightarrow> 'q \<Rightarrow> 'q option"
    and pop :: "'q \<Rightarrow> ('a \<times> 'q) option"
  assumes bounded: "inv q \<Longrightarrow> length (contents q) \<le> cap q"
    and push_room: "inv q \<Longrightarrow> length (contents q) < cap q \<Longrightarrow>
      \<exists>q'. push x q = Some q' \<and> inv q' \<and> contents q' = contents q @ [x] \<and> cap q' = cap q"
    and push_full: "inv q \<Longrightarrow> length (contents q) = cap q \<Longrightarrow> push x q = None"
    and pop_first: "inv q \<Longrightarrow> contents q = x # xs \<Longrightarrow> \<exists>q'. pop q = Some (x, q') \<and> inv q' \<and> contents q' = xs \<and> cap q' = cap q"
    and pop_empty: "inv q \<Longrightarrow> contents q = [] \<Longrightarrow> pop q = None"
begin

lemma push_some:
  assumes "inv q" "push x q = Some q'"
  shows "inv q' \<and> contents q' = contents q @ [x] \<and> cap q' = cap q \<and> length (contents q) < cap q"
proof -
  have "length (contents q) < cap q" using bounded [OF assms(1)] push_full [OF assms(1), of x] assms(2) by (cases "length (contents q) = cap q") auto
  with push_room [OF assms(1), of x] assms(2) show ?thesis by auto
qed

lemma push_iff: "inv q \<Longrightarrow> push x q \<noteq> None \<longleftrightarrow> length (contents q) < cap q"
  using push_room [of q x] push_some [of q x] by auto

lemma pop_some:
  assumes "inv q" "pop q = Some (x, q')"
  shows "inv q' \<and> contents q = x # contents q' \<and> cap q' = cap q"
proof (cases "contents q")
  case Nil
  with pop_empty [OF assms(1)] assms(2) show ?thesis by simp
next
  case (Cons y ys)
  with pop_first [OF assms(1) Cons] assms(2) show ?thesis by auto
qed

lemma client_fifo:
  assumes "fifo_client push pop q0 ins outs q" "inv q0" "contents q0 = []"
  shows "inv q \<and> ins = outs @ contents q \<and> cap q = cap q0"
  using assms
proof (induction rule: fifo_client.induct)
  case (fifo_push ins outs q x q')
  then show ?case using push_some [of q x q'] by auto
next
  case (fifo_pop ins outs q x q')
  then show ?case using pop_some [of q x q'] by auto
qed simp

end

end
