(* ===== verification/Comp_Queue.thy ===== *)
theory Comp_Queue
  imports Ring_Queue
begin

text \<open>
  The completion queue of the verbs provider, \<^verbatim>\<open>verbs/src/odl_tb5_verbs_cq.c\<close>: a ring of completions filled by the worker threads and emptied
  by the application, with an eventfd for wake-ups, its creation and its destruction.
\<close>

section \<open>Data\<close>

datatype wc_status = WC_SUCCESS | WC_GENERAL_ERR

datatype wc_opcode = WC_SEND | WC_RECV

record ibv_wc =
  wc_wr_id :: u64
  wc_status :: wc_status
  wc_opcode :: wc_opcode
  wc_byte_len :: u32
  wc_qp_num :: u32
  wc_src_qp :: u32

text \<open>\<open>memset(&wc, 0, sizeof(wc))\<close>; both enumerations start with 0.\<close>

definition zero_wc :: ibv_wc where
  "zero_wc = \<lparr>wc_wr_id = 0, wc_status = WC_SUCCESS, wc_opcode = WC_SEND, wc_byte_len = 0, wc_qp_num = 0, wc_src_qp = 0\<rparr>"

text \<open>\<open>cq_eventfd\<close> is the counter of the eventfd.\<close>

record verbs_cq =
  cq_cqe :: nat
  cq_ring :: "ibv_wc list"
  cq_ring_cap :: nat
  cq_head :: nat
  cq_tail :: nat
  cq_eventfd :: nat
  cq_armed :: bool
  cq_rx_qp :: "nat option"

definition COMP_CHANNEL_BACKLOG :: int where
  "COMP_CHANNEL_BACKLOG = 64"

definition COMP_CHANNEL_MAX :: int where
  "COMP_CHANNEL_MAX = 65536"

text \<open>The capacity for a requested depth. The sum is computed as a C \<open>int\<close>, so the largest request overflows.\<close>

definition cq_capacity :: "int \<Rightarrow> nat option" where
  "cq_capacity cqe =
     (let depth = if cqe > 0 then cqe else 1; ring_cap = depth + 1
      in if 2 ^ 31 \<le> ring_cap then None
         else
           let ring_cap = if ring_cap < COMP_CHANNEL_BACKLOG then COMP_CHANNEL_BACKLOG else ring_cap
           in Some (nat (if ring_cap > COMP_CHANNEL_MAX then COMP_CHANNEL_MAX else ring_cap)))"

definition new_cq :: "nat \<Rightarrow> verbs_cq" where
  "new_cq cap = \<lparr>cq_cqe = cap - 1, cq_ring = replicate cap zero_wc, cq_ring_cap = cap, cq_head = 0, cq_tail = 0,
     cq_eventfd = 0, cq_armed = False, cq_rx_qp = None\<rparr>"

section \<open>Operations\<close>

definition cq_signal :: "verbs_cq \<Rightarrow> verbs_cq" where
  "cq_signal cq = (if cq_armed cq then cq\<lparr>cq_eventfd := cq_eventfd cq + 1, cq_armed := False\<rparr> else cq)"

text \<open>A completion that finds the ring full is dropped.\<close>

definition cq_post :: "ibv_wc \<Rightarrow> verbs_cq \<Rightarrow> ((errno + unit) \<times> verbs_cq) option" where
  "cq_post wc cq =
     (if cq_ring_cap cq = 0 then None
      else
        let nxt = (cq_tail cq + 1) mod cq_ring_cap cq
        in if nxt = cq_head cq then Some (Inl ENOSPC, cq)
           else if length (cq_ring cq) \<le> cq_tail cq then None
           else Some (Inr (), cq_signal (cq\<lparr>cq_ring := (cq_ring cq)[cq_tail cq := wc], cq_tail := nxt\<rparr>)))"

text \<open>The part of \<open>odl_poll_cq\<close> under the lock, and the read of the eventfd after it; another thread may run in between.\<close>

fun poll_take :: "nat \<Rightarrow> verbs_cq \<Rightarrow> (ibv_wc list \<times> verbs_cq) option" where
  "poll_take 0 cq = Some ([], cq)"
| "poll_take (Suc n) cq =
     (if cq_head cq = cq_tail cq then Some ([], cq)
      else if cq_ring_cap cq = 0 \<or> length (cq_ring cq) \<le> cq_head cq then None
      else do {
        (wcs, cq') \<leftarrow> poll_take n (cq\<lparr>cq_head := (cq_head cq + 1) mod cq_ring_cap cq\<rparr>);
        Some (cq_ring cq ! cq_head cq # wcs, cq')
      })"

declare poll_take.simps(2) [simp del]

definition poll_event :: "nat \<Rightarrow> bool \<Rightarrow> verbs_cq \<Rightarrow> verbs_cq" where
  "poll_event polled drained cq = (if 0 < polled \<and> drained then cq\<lparr>cq_eventfd := 0\<rparr> else cq)"

definition poll_cq :: "int \<Rightarrow> verbs_cq \<Rightarrow> (ibv_wc list \<times> verbs_cq) option" where
  "poll_cq num_entries cq =
     do {
       (wcs, cq) \<leftarrow> poll_take (nat num_entries) cq;
       Some (wcs, poll_event (length wcs) (cq_head cq = cq_tail cq) cq)
     }"

definition req_notify_cq :: "verbs_cq \<Rightarrow> verbs_cq" where
  "req_notify_cq cq = cq\<lparr>cq_armed := True\<rparr>"

section \<open>Creation and destruction\<close>

text \<open>
  What the completion queues of an open device hold: the table of queues, the queues by address, the live allocations and descriptors, and
  for each completion channel the queue whose eventfd it was given.
\<close>

datatype cq_res = CqObj nat | CqRing nat | CqEventfd nat

record verbs_cqs =
  vc_cqs :: "nat list"
  vc_heap :: "nat \<rightharpoonup> verbs_cq"
  vc_res :: "cq_res list"
  vc_channels :: "nat \<rightharpoonup> nat"

definition MAX_CQS :: nat where
  "MAX_CQS = 128"

definition acquire :: "cq_res \<Rightarrow> verbs_cqs \<Rightarrow> verbs_cqs" where
  "acquire r v = v\<lparr>vc_res := r # vc_res v\<rparr>"

definition release :: "cq_res \<Rightarrow> verbs_cqs \<Rightarrow> verbs_cqs" where
  "release r v = v\<lparr>vc_res := remove1 r (vc_res v)\<rparr>"

text \<open>\<open>alloc\<close> is the address that \<open>calloc\<close> returns for the queue, \<open>ring_ok\<close> says whether the ring could be allocated, \<open>efd\<close> is the error of \<open>eventfd\<close>.\<close>

definition create_cq :: "nat option \<Rightarrow> bool \<Rightarrow> errno option \<Rightarrow> nat option \<Rightarrow> int \<Rightarrow> verbs_cqs \<Rightarrow> ((errno + nat) \<times> verbs_cqs) option" where
  "create_cq alloc ring_ok efd channel cqe v =
     (case alloc of
        None \<Rightarrow> Some (Inl ENOMEM, v)
      | Some a \<Rightarrow> do {
          let v = acquire (CqObj a) v;
          cap \<leftarrow> cq_capacity cqe;
          if \<not> ring_ok then Some (Inl ENOMEM, release (CqObj a) v)
          else
            let v = acquire (CqRing a) v
            in case efd of
                 Some e \<Rightarrow> Some (Inl e, release (CqObj a) v)
               | None \<Rightarrow>
                   let v = acquire (CqEventfd a) v;
                       v = (case channel of None \<Rightarrow> v | Some ch \<Rightarrow> v\<lparr>vc_channels := (vc_channels v)(ch \<mapsto> a)\<rparr>)
                   in if MAX_CQS \<le> length (vc_cqs v) then Some (Inl ENOMEM, release (CqObj a) (release (CqEventfd a) v))
                      else Some (Inr a, v\<lparr>vc_cqs := vc_cqs v @ [a], vc_heap := (vc_heap v)(a \<mapsto> new_cq cap)\<rparr>)
        })"

text \<open>The last entry of the table takes the place of the removed one.\<close>

fun swap_remove :: "'a \<Rightarrow> 'a list \<Rightarrow> 'a list" where
  "swap_remove a [] = []"
| "swap_remove a (x # xs) = (if x = a then (if xs = [] then [] else last xs # butlast xs) else x # swap_remove a xs)"

definition destroy_cq :: "nat option \<Rightarrow> verbs_cqs \<Rightarrow> ((errno + unit) \<times> verbs_cqs) option" where
  "destroy_cq cq v =
     (case cq of
        None \<Rightarrow> Some (Inl EINVAL, v)
      | Some a \<Rightarrow> do {
          _ \<leftarrow> vc_heap v a;
          let v = v\<lparr>vc_cqs := swap_remove a (vc_cqs v), vc_heap := (vc_heap v)(a := None)\<rparr>;
          Some (Inr (), release (CqObj a) (release (CqRing a) (release (CqEventfd a) v)))
        })"

section \<open>The ring is a bounded queue\<close>

definition cq_wf :: "verbs_cq \<Rightarrow> bool" where
  "cq_wf cq \<longleftrightarrow> 2 \<le> cq_ring_cap cq \<and> length (cq_ring cq) = cq_ring_cap cq \<and> cq_head cq < cq_ring_cap cq \<and> cq_tail cq < cq_ring_cap cq \<and>
     cq_cqe cq = cq_ring_cap cq - 1"

definition cq_count :: "verbs_cq \<Rightarrow> nat" where
  "cq_count cq = (cq_tail cq + cq_ring_cap cq - cq_head cq) mod cq_ring_cap cq"

definition cq_contents :: "verbs_cq \<Rightarrow> ibv_wc list" where
  "cq_contents cq = ring_slice (cq_ring cq) (cq_head cq) (cq_count cq)"

lemma cq_wfD:
  assumes "cq_wf cq"
  shows "2 \<le> cq_ring_cap cq" "length (cq_ring cq) = cq_ring_cap cq" "cq_head cq < cq_ring_cap cq" "cq_tail cq < cq_ring_cap cq"
    "cq_cqe cq = cq_ring_cap cq - 1"
  using assms by (simp_all add: cq_wf_def)

lemma cq_contents_length:
  assumes "cq_wf cq"
  shows "length (cq_contents cq) \<le> cq_cqe cq"
proof -
  have "cq_count cq < cq_ring_cap cq" using cq_wfD(1) [OF assms] by (simp add: cq_count_def)
  then show ?thesis using cq_wfD(5) [OF assms] by (simp add: cq_contents_def)
qed

lemma cq_full_iff:
  assumes "cq_wf cq"
  shows "(cq_tail cq + 1) mod cq_ring_cap cq = cq_head cq \<longleftrightarrow> length (cq_contents cq) = cq_cqe cq"
  using ring_count_facts(1) [OF cq_wfD(3,4) [OF assms]] cq_wfD(5) [OF assms] by (simp add: cq_contents_def cq_count_def)

lemma cq_post_room:
  assumes "cq_wf cq" "length (cq_contents cq) < cq_cqe cq"
  shows "\<exists>cq'. cq_post wc cq = Some (Inr (), cq') \<and> cq_wf cq' \<and> cq_contents cq' = cq_contents cq @ [wc] \<and> cq_cqe cq' = cq_cqe cq \<and>
    cq_eventfd cq' = cq_eventfd cq + (if cq_armed cq then 1 else 0) \<and> \<not> cq_armed cq'"
proof -
  note W = cq_wfD [OF assms(1)]
  let ?nxt = "(cq_tail cq + 1) mod cq_ring_cap cq"
  let ?q = "cq\<lparr>cq_ring := (cq_ring cq)[cq_tail cq := wc], cq_tail := ?nxt\<rparr>"
  have nfull: "?nxt \<noteq> cq_head cq" using cq_full_iff [OF assms(1)] assms(2) by simp
  have wf: "cq_wf ?q" using W by (simp add: cq_wf_def)
  have n: "cq_count ?q = Suc (cq_count cq)" using ring_count_facts(2) [OF W(3,4)] nfull by (simp add: cq_count_def)
  have tail: "(cq_head cq + cq_count cq) mod length (cq_ring cq) = cq_tail cq"
    using ring_count_facts(3) [OF W(3,4)] W(2) by (simp add: cq_count_def)
  have "cq_count cq < length (cq_ring cq)" using cq_contents_length [OF assms(1)] W by (simp add: cq_contents_def)
  from ring_slice_Suc_back [OF this, of "cq_head cq" wc] have "cq_contents ?q = cq_contents cq @ [wc]"
    unfolding cq_contents_def n tail by simp
  moreover have "cq_post wc cq = Some (Inr (), cq_signal ?q)" using nfull W by (simp add: cq_post_def Let_def)
  moreover have "cq_contents (cq_signal ?q) = cq_contents ?q" "cq_wf (cq_signal ?q)"
    using wf by (simp_all add: cq_contents_def cq_count_def cq_signal_def cq_wf_def)
  ultimately show ?thesis by (simp add: cq_signal_def)
qed

lemma cq_post_dropped: "cq_wf cq \<Longrightarrow> length (cq_contents cq) = cq_cqe cq \<Longrightarrow> cq_post wc cq = Some (Inl ENOSPC, cq)"
  using cq_full_iff [of cq] cq_wfD(1) [of cq] by (auto simp: cq_post_def Let_def)

lemma poll_take_ok:
  assumes "cq_wf cq"
  shows "\<exists>cq'. poll_take n cq = Some (take n (cq_contents cq), cq') \<and> cq_wf cq' \<and> cq_contents cq' = drop n (cq_contents cq) \<and>
    cq_cqe cq' = cq_cqe cq \<and> cq_eventfd cq' = cq_eventfd cq \<and> cq_armed cq' = cq_armed cq"
  using assms
proof (induction n arbitrary: cq)
  case (Suc n)
  note W = cq_wfD [OF Suc.prems]
  show ?case
  proof (cases "cq_head cq = cq_tail cq")
    case True
    then have "cq_contents cq = []" using ring_count_facts(5) [OF W(3,4)] by (simp add: cq_contents_def cq_count_def)
    with True Suc.prems show ?thesis by (simp add: poll_take.simps(2))
  next
    case False
    let ?q = "cq\<lparr>cq_head := (cq_head cq + 1) mod cq_ring_cap cq\<rparr>"
    have wf: "cq_wf ?q" using W by (simp add: cq_wf_def)
    have "cq_count cq = Suc (cq_count ?q)" using ring_count_facts(4) [OF W(3,4) False] by (simp add: cq_count_def)
    then have "cq_contents cq = cq_ring cq ! cq_head cq # cq_contents ?q"
      using ring_slice_Suc_front [of "cq_head cq" "cq_ring cq" "cq_count ?q"] W by (simp add: cq_contents_def)
    with Suc.IH [OF wf] False W show ?thesis by (auto simp: poll_take.simps(2))
  qed
qed simp

lemma new_cq_wf: "2 \<le> cap \<Longrightarrow> cq_wf (new_cq cap) \<and> cq_contents (new_cq cap) = [] \<and> cq_cqe (new_cq cap) = cap - 1"
  by (simp add: cq_wf_def new_cq_def cq_contents_def cq_count_def)

lemma drained_iff:
  assumes "cq_wf cq"
  shows "cq_head cq = cq_tail cq \<longleftrightarrow> cq_contents cq = []"
  using ring_count_facts(5) [OF cq_wfD(3,4) [OF assms]] by (auto simp: cq_contents_def cq_count_def ring_slice_def)

lemma poll_event_keeps [simp]: "cq_wf (poll_event n b cq) = cq_wf cq" "cq_contents (poll_event n b cq) = cq_contents cq"
  "cq_cqe (poll_event n b cq) = cq_cqe cq"
  by (simp_all add: poll_event_def cq_wf_def cq_contents_def cq_count_def)

lemma req_notify_keeps [simp]: "cq_wf (req_notify_cq cq) = cq_wf cq" "cq_contents (req_notify_cq cq) = cq_contents cq"
  "cq_cqe (req_notify_cq cq) = cq_cqe cq"
  by (simp_all add: req_notify_cq_def cq_wf_def cq_contents_def cq_count_def)

lemma poll_cq_ok:
  assumes "cq_wf cq"
  shows "\<exists>cq'. poll_cq n cq = Some (take (nat n) (cq_contents cq), cq') \<and> cq_wf cq' \<and> cq_contents cq' = drop (nat n) (cq_contents cq) \<and>
    cq_cqe cq' = cq_cqe cq"
  using poll_take_ok [OF assms, of "nat n"] by (auto simp: poll_cq_def)

text \<open>One accepted completion in, one out.\<close>

definition cq_enq :: "ibv_wc \<Rightarrow> verbs_cq \<Rightarrow> verbs_cq option" where
  "cq_enq wc cq = (case cq_post wc cq of Some (Inr _, cq') \<Rightarrow> Some cq' | _ \<Rightarrow> None)"

definition cq_deq :: "verbs_cq \<Rightarrow> (ibv_wc \<times> verbs_cq) option" where
  "cq_deq cq = (case poll_cq 1 cq of Some (wc # _, cq') \<Rightarrow> Some (wc, cq') | _ \<Rightarrow> None)"

interpretation completions: bounded_fifo cq_wf cq_contents cq_cqe cq_enq cq_deq
proof
  fix q x xs
  assume wf: "cq_wf q"
  show "length (cq_contents q) \<le> cq_cqe q" by (rule cq_contents_length [OF wf])
  show "\<exists>q'. cq_enq x q = Some q' \<and> cq_wf q' \<and> cq_contents q' = cq_contents q @ [x] \<and> cq_cqe q' = cq_cqe q"
    if "length (cq_contents q) < cq_cqe q"
    using cq_post_room [OF wf that, of x] by (auto simp: cq_enq_def)
  show "cq_enq x q = None" if "length (cq_contents q) = cq_cqe q"
    using cq_post_dropped [OF wf that] by (simp add: cq_enq_def)
  show "\<exists>q'. cq_deq q = Some (x, q') \<and> cq_wf q' \<and> cq_contents q' = xs \<and> cq_cqe q' = cq_cqe q" if "cq_contents q = x # xs"
    using poll_cq_ok [OF wf, of 1] that by (auto simp: cq_deq_def)
  show "cq_deq q = None" if "cq_contents q = []"
    using poll_cq_ok [OF wf, of 1] that by (auto simp: cq_deq_def)
qed

section \<open>Properties\<close>

text \<open>C38: The completion queue is a first-in first-out queue of the depth it reports. For any depth that the application asks for (up to the \<open>int\<close>
  overflow) the created ring holds between 63 and 65535 completions, at least as many as asked for up to that limit. Then completions come out exactly
  in the order in which they went in, a poll for several entries takes as many as there are, and a completion is refused, and lost, exactly when the ring
  holds that many.\<close>

theorem cq_fifo:
  assumes "cq_capacity cqe = Some cap" "fifo_client cq_enq cq_deq (new_cq cap) ins outs cq"
  shows "ins = outs @ cq_contents cq \<and> cq_cqe cq = cap - 1 \<and> 63 \<le> cap - 1 \<and> min cqe 65535 \<le> int (cap - 1) \<and> cap - 1 \<le> 65535 \<and>
    (\<exists>cq'. poll_cq n cq = Some (take (nat n) (cq_contents cq), cq') \<and> cq_contents cq' = drop (nat n) (cq_contents cq)) \<and>
    (if length (cq_contents cq) = cap - 1 then cq_post wc cq = Some (Inl ENOSPC, cq)
     else \<exists>cq'. cq_post wc cq = Some (Inr (), cq') \<and> cq_contents cq' = cq_contents cq @ [wc])"
proof -
  have cap: "63 \<le> cap - 1" "min cqe 65535 \<le> int (cap - 1)" "cap - 1 \<le> 65535"
    using assms(1) by (auto simp: cq_capacity_def Let_def COMP_CHANNEL_BACKLOG_def COMP_CHANNEL_MAX_def split: if_splits)
  then have "2 \<le> cap" by simp
  note new = new_cq_wf [OF this]
  have F: "cq_wf cq" "ins = outs @ cq_contents cq" "cq_cqe cq = cap - 1"
    using completions.client_fifo [OF assms(2)] new by auto
  have "\<exists>cq'. poll_cq n cq = Some (take (nat n) (cq_contents cq), cq') \<and> cq_contents cq' = drop (nat n) (cq_contents cq)"
    using poll_cq_ok [OF F(1), of n] by blast
  moreover have "if length (cq_contents cq) = cap - 1 then cq_post wc cq = Some (Inl ENOSPC, cq)
      else \<exists>cq'. cq_post wc cq = Some (Inr (), cq') \<and> cq_contents cq' = cq_contents cq @ [wc]"
    using cq_post_dropped [OF F(1)] cq_post_room [OF F(1), of wc] cq_contents_length [OF F(1)] F(3) by auto
  ultimately show ?thesis using cap F(2,3) by blast
qed

theorem cq_fifo_witness:
  "\<exists>q1 q2. cq_enq zero_wc (new_cq 64) = Some q1 \<and> cq_deq q1 = Some (zero_wc, q2) \<and> [zero_wc] = [zero_wc] @ cq_contents q2 \<and> cq_cqe q2 = 63"
proof -
  have cap: "cq_capacity 1 = Some 64" by (simp add: cq_capacity_def COMP_CHANNEL_BACKLOG_def COMP_CHANNEL_MAX_def)
  have new: "cq_wf (new_cq 64)" "cq_contents (new_cq 64) = []" "cq_cqe (new_cq 64) = 63" using new_cq_wf [of 64] by simp_all
  obtain q1 where q1: "cq_enq zero_wc (new_cq 64) = Some q1" "cq_wf q1" "cq_contents q1 = [zero_wc]"
    using completions.push_room [OF new(1), of zero_wc] new(2,3) by auto
  obtain q2 where q2: "cq_deq q1 = Some (zero_wc, q2)" using completions.pop_first [OF q1(2,3)] by auto
  have "fifo_client cq_enq cq_deq (new_cq 64) [zero_wc] [zero_wc] q2"
    using fifo_pop [where push = cq_enq and pop = cq_deq, OF fifo_push [where push = cq_enq and pop = cq_deq, OF fifo_start q1(1)] q2] by simp
  from cq_fifo [OF cap this] q1(1) q2 show ?thesis by simp
qed

text \<open>Destroying a queue removes exactly it from the table.\<close>

lemma swap_remove_set: "distinct xs \<Longrightarrow> set (swap_remove a xs) = set xs - {a} \<and> distinct (swap_remove a xs)"
proof (induction xs)
  case (Cons x xs)
  show ?case
  proof (cases "x = a \<and> xs \<noteq> []")
    case True
    then obtain ys y where "xs = ys @ [y]" by (cases xs rule: rev_cases) auto
    with True Cons.prems show ?thesis by auto
  next
    case False
    with Cons show ?thesis by auto
  qed
qed simp

text \<open>C40: The resources of completion queues. A queue that is created holds exactly an object, a ring and an eventfd, is the only change of the table, and
  \<open>odl_destroy_cq\<close> gives these three back and removes it again. A creation that fails changes neither the table nor the queues; it gives everything back
  when an allocation fails, but when \<open>eventfd\<close> fails or the table has 128 entries it leaves the ring behind.\<close>

theorem cq_lifecycle:
  assumes "create_cq (Some a) ring_ok efd channel cqe v = Some (r, v')" "vc_heap v a = None" "a \<notin> set (vc_cqs v)" "distinct (vc_cqs v)"
  shows "case r of
      Inl e \<Rightarrow> vc_cqs v' = vc_cqs v \<and> vc_heap v' = vc_heap v \<and> (MAX_CQS \<le> length (vc_cqs v) \<or> \<not> ring_ok \<or> efd \<noteq> None) \<and>
        vc_res v' = (if ring_ok then CqRing a # vc_res v else vc_res v)
    | Inr b \<Rightarrow> b = a \<and> set (vc_cqs v') = insert a (set (vc_cqs v)) \<and> length (vc_cqs v') \<le> MAX_CQS \<and>
        vc_res v' = CqEventfd a # CqRing a # CqObj a # vc_res v \<and> (\<exists>q. vc_heap v' = (vc_heap v)(a \<mapsto> q) \<and> cq_wf q \<and> cq_contents q = []) \<and>
        (\<exists>v2. destroy_cq (Some a) v' = Some (Inr (), v2) \<and> vc_res v2 = vc_res v \<and> vc_heap v2 = vc_heap v \<and> set (vc_cqs v2) = set (vc_cqs v))"
proof -
  obtain cap where cap: "cq_capacity cqe = Some cap" using assms(1) by (auto simp: create_cq_def Let_def bind_eq_Some_conv)
  then have "2 \<le> cap"
    by (auto simp: cq_capacity_def Let_def COMP_CHANNEL_BACKLOG_def COMP_CHANNEL_MAX_def split: if_splits)
  note new = new_cq_wf [OF this]
  note eq = assms(1) [unfolded create_cq_def option.case Let_def cap bind.bind_lunit]
  show ?thesis
  proof (cases r)
    case (Inl e)
    with eq show ?thesis by (auto simp: acquire_def release_def split: if_splits option.splits)
  next
    case (Inr b)
    with eq have v': "b = a" "vc_cqs v' = vc_cqs v @ [a]" "length (vc_cqs v) < MAX_CQS" "vc_res v' = CqEventfd a # CqRing a # CqObj a # vc_res v"
      "vc_heap v' = (vc_heap v)(a \<mapsto> new_cq cap)"
      by (auto simp: acquire_def release_def split: if_splits option.splits)
    have "set (swap_remove a (vc_cqs v @ [a])) = set (vc_cqs v)" using swap_remove_set [of "vc_cqs v @ [a]" a] assms(3,4) by auto
    moreover have "(vc_heap v)(a := None) = vc_heap v" using assms(2) by auto
    ultimately have "\<exists>v2. destroy_cq (Some a) v' = Some (Inr (), v2) \<and> vc_res v2 = vc_res v \<and> vc_heap v2 = vc_heap v \<and> set (vc_cqs v2) = set (vc_cqs v)"
      using v' by (simp add: destroy_cq_def release_def Let_def)
    with Inr v' new show ?thesis by auto
  qed
qed

definition no_cqs :: verbs_cqs where
  "no_cqs = \<lparr>vc_cqs = [], vc_heap = Map.empty, vc_res = [], vc_channels = Map.empty\<rparr>"

theorem cq_lifecycle_witness:
  "\<exists>v' v2. create_cq (Some 5) True None None 1 no_cqs = Some (Inr 5, v') \<and> destroy_cq (Some 5) v' = Some (Inr (), v2) \<and> vc_res v2 = []"
proof -
  have "\<exists>v'. create_cq (Some 5) True None None 1 no_cqs = Some (Inr 5, v')"
    by (simp add: create_cq_def cq_capacity_def COMP_CHANNEL_BACKLOG_def COMP_CHANNEL_MAX_def no_cqs_def acquire_def MAX_CQS_def)
  then obtain v' where v': "create_cq (Some 5) True None None 1 no_cqs = Some (Inr 5, v')" ..
  from cq_lifecycle [OF v'] show ?thesis using v' by (auto simp: no_cqs_def)
qed

text \<open>C39: A wake-up can be lost. The application has armed the queue and then polls with room for more entries than there are, so that by the rules of
  \<open>ibv_poll_cq\<close> the queue is empty afterwards and it may go to sleep. If a worker posts a completion after the poll has released the lock and before it
  reads the eventfd, the read takes the signal of this completion: it is in the queue, the eventfd is not readable and the queue is no longer armed.\<close>

theorem cq_wakeup_lost:
  assumes "cq_wf cq" "cq_armed cq" "cq_contents cq \<noteq> []" "length (cq_contents cq) < n"
  shows "\<exists>wcs cq1 cq2 cq3. poll_take n cq = Some (wcs, cq1) \<and> length wcs < n \<and> cq_post wc cq1 = Some (Inr (), cq2) \<and> 0 < cq_eventfd cq2 \<and>
    cq3 = poll_event (length wcs) (cq_head cq1 = cq_tail cq1) cq2 \<and> cq_contents cq3 = [wc] \<and> cq_eventfd cq3 = 0 \<and> \<not> cq_armed cq3"
proof -
  obtain cq1 where cq1: "poll_take n cq = Some (cq_contents cq, cq1)" "cq_wf cq1" "cq_contents cq1 = []" "cq_cqe cq1 = cq_cqe cq" "cq_armed cq1"
    using poll_take_ok [OF assms(1), of n] assms(2,4) by auto
  have "0 < cq_cqe cq1" using cq_wfD(1,5) [OF cq1(2)] by simp
  then obtain cq2 where cq2: "cq_post wc cq1 = Some (Inr (), cq2)" "cq_contents cq2 = [wc]" "0 < cq_eventfd cq2" "\<not> cq_armed cq2"
    using cq_post_room [OF cq1(2), of wc] cq1(3,5) by auto
  have "cq_head cq1 = cq_tail cq1" using drained_iff [OF cq1(2)] cq1(3) by simp
  with assms(3,4) cq1(1) cq2 show ?thesis by (intro exI [of _ "cq_contents cq"] exI [of _ cq1] exI [of _ cq2] exI) (auto simp: poll_event_def cq_contents_def cq_count_def)
qed

theorem cq_wakeup_lost_witness:
  "\<exists>q wcs cq1 cq2 cq3. cq_enq zero_wc (new_cq 64) = Some q \<and> poll_take 16 (req_notify_cq q) = Some (wcs, cq1) \<and> cq_post zero_wc cq1 = Some (Inr (), cq2) \<and>
    cq3 = poll_event (length wcs) (cq_head cq1 = cq_tail cq1) cq2 \<and> cq_contents cq3 = [zero_wc] \<and> cq_eventfd cq3 = 0 \<and> \<not> cq_armed cq3"
proof -
  have new: "cq_wf (new_cq 64)" "cq_contents (new_cq 64) = []" "cq_cqe (new_cq 64) = 63" using new_cq_wf [of 64] by simp_all
  obtain q where q: "cq_enq zero_wc (new_cq 64) = Some q" "cq_wf q" "cq_contents q = [zero_wc]"
    using completions.push_room [OF new(1), of zero_wc] new(2,3) by auto
  have "cq_armed (req_notify_cq q)" by (simp add: req_notify_cq_def)
  with cq_wakeup_lost [of "req_notify_cq q" 16 zero_wc] q show ?thesis by auto
qed

end
