(* ===== verification/Spec2Isabelle.thy ===== *)
theory Spec2Isabelle
  imports Rx_Path Stream_Send Service Chardev Comp_Queue
begin

text \<open>
  A verification development of OdinLink-Five, a host-to-host link over Thunderbolt 5 for Linux.

  \<^bold>\<open>The program and how its parts interact.\<close> The kernel driver (\<^verbatim>\<open>driver/\<close>) binds a Thunderbolt peer (\<^verbatim>\<open>odl_tb5_service.c\<close>), agrees with it on
  HopIDs and a ring depth and checks the path with pings (\<^verbatim>\<open>odl_tb5_proto.c\<close>), and then moves messages: a process opens
  the character device (\<^verbatim>\<open>odl_tb5_chardev.c\<close>), opens streams and sends and receives on them; the data path (\<^verbatim>\<open>odl_tb5_ring_dma.c\<close>) cuts a
  message into frames of at most 4024 bytes behind an eight byte header, hands them to the NHI ring and assembles them on the other side. The rest
  is user space: a library of one ioctl per function (\<^verbatim>\<open>lib/\<close>), an RDMA verbs provider (\<^verbatim>\<open>verbs/\<close>), plugins for NCCL and RCCL, a daemon, a command
  line tool and a tray application.

  \<^bold>\<open>Conventions.\<close> An error return is \<open>Inl e\<close>. A definition whose C code can follow a NULL or freed pointer or leave an array has an
  \<open>option\<close> value, and \<open>None\<close> means undefined behaviour, so that a theorem with \<open>\<noteq> None\<close> or \<open>= Some\<close> is a statement of memory safety. What the
  kernel, the Thunderbolt core, the NHI and the peer answer, and what other threads do during a call, are arguments. A call that
  sleeps has the value \<open>Waiting\<close> (\<open>TxWaiting\<close> for sends) with the state it sleeps in.

  \<^bold>\<open>The theories.\<close>
  \<^item> \<open>Odl_Prelude\<close>: C integers, error numbers, the constants of \<^verbatim>\<open>uapi/odl_tb5_uapi.h\<close> and \<^verbatim>\<open>odl_tb5_core.h\<close>, byte memory, little-endian fields, chunks.
  \<^item> \<open>Slot_Pool\<close>: the contract of a pool of slots, as locales. \<open>Frame_Pool\<close> (\<^verbatim>\<open>odl_tb5_frame_pool_*\<close>) and \<open>Batch_Pool\<close> (\<^verbatim>\<open>odl_tb5_batch_pool_*\<close>) interpret it:
    no slot is handed out twice, the reserve for receiving is kept, a failed allocation gives everything back.
  \<^item> \<open>Stream_Wire\<close>: the frame header and the frames of a message, the reference for both send modes.
  \<^item> \<open>Device\<close>: \<open>struct odl_tb5_device\<close> with its rings, pools, streams and messages; addresses of the heap are numbers. \<open>Streams\<close>: the stream table
    (\<^verbatim>\<open>odl_tb5_stream_create\<close>, \<^verbatim>\<open>_destroy\<close>, \<^verbatim>\<open>_lookup\<close>, \<^verbatim>\<open>_put\<close>) behind a locale of its contract.
  \<^item> \<open>Rx_Assembly\<close>, \<open>Rx_Path\<close>: assembly of messages refines an abstract receiver, and the receive callback as a whole, with the two defects of its header checks.
  \<^item> \<open>Tx_Path\<close>: all definitions of the send path. \<open>Tx_Safety\<close>: its invariant \<open>tx_wf\<close> and completions. \<open>Tx_Send\<close>, \<open>Tx_Batch\<close>: the
    loops of the latency and the throughput mode. \<open>Stream_Send\<close>: the call as a whole, traces of calls and completions, progress, the choice of the mode.
  \<^item> \<open>Ring_Life\<close>: allocation, resizing, start and stop of the rings and buffers. \<open>Legacy_Submit\<close>: the double-buffer and DMA-BUF submissions.
  \<^item> \<open>Login_Wire\<close>, \<open>Handshake\<close>: messages and work items of the login protocol. \<open>Link_Inv\<close>: the accounting of HopIDs and
    paths. \<open>Verify\<close>: the verification of the DMA path. \<open>Link_Life\<close>: the link as a whole, and two hosts that negotiate.
  \<^item> \<open>Service\<close>: probe and removal of a device.
  \<^item> \<open>Reg_Frame\<close>: what sending leaves alone. \<open>Chardev\<close>: open, release, every ioctl, mmap and poll, and traces of many files.
  \<^item> \<open>Ring_Queue\<close>: the contract of a bounded queue over a circular array. \<open>Comp_Queue\<close> (\<^verbatim>\<open>verbs/src/odl_tb5_verbs_cq.c\<close>): the completion queue interprets it.
  \<^item> This theory joins sending and receiving: a message that is sent successfully is received byte for byte.

  \<^bold>\<open>Definitions.\<close> They keep the names of the C functions without the prefix \<open>odl_tb5_\<close>; an operation that the C code writes as one function is split where a loop
  or another thread can come in between, and composed again in the definition with the name of the function.

  \<^bold>\<open>Bounds and fuel.\<close> Loops of the code recurse over what bounds them: frames of a message, slots of a pool, ring depths, the 300 attempts of the
  verifier. The loops of a send recurse over the list of environments of their rounds; a send that runs out of them is \<open>TxWaiting\<close>, and
  \<open>stream_send_progress\<close> shows that one round per frame is enough when the pools have room. Words keep their width where they wrap: fragment
  numbers and header fields, offsets and lengths of submissions, the \<open>int\<close> depth of a completion queue. Counters that cannot wrap in practice are \<open>int\<close> or \<open>nat\<close>.

  \<^bold>\<open>Concurrency.\<close> Critical sections are atomic. Completions run between the steps of a send; packets, frames and work items run while a connection is brought
  up or verified and while a device is removed; calls of many files alternate at the points where they wait. Data races outside of these points, and memory
  order, are not modelled.

  \<^bold>\<open>Not modelled.\<close> Module parameters, init and exit (registration calls and logging), debugfs (prints only) and loopback devices (a test mode
  without the rings). The busy-poll window of a receive, which only spins before the wait that is modelled. The timer function \<open>odl_tb5_rx_poll_timer_fn\<close>, which only
  makes the Thunderbolt core look for completions sooner; the model lets completions come at any time. \<open>odl_tb5_tx_drain_work_fn\<close>, a work item that nothing schedules.
  The user library, which only checks arguments and calls the ioctls that are modelled. Of the verbs provider, the queue pairs with their worker threads, the
  memory regions and the tables for libibverbs. The plugins, whose contracts are interfaces of NCCL and RCCL. The daemon, the
  command line tool, the tray and the scripts, which are input and output around the stream calls.
\<close>

section \<open>From the sending to the receiving process\<close>

lemma stream_pub_nonzero:
  assumes "streams_wf ext d" "stream_pub d i = Some a"
  shows "i \<noteq> 0"
proof -
  have a: "a \<in> set (dev_streams d)" "st_id (the (dev_heap d a)) = i" using assms(2) stream_pub_iff [OF assms(1)] by auto
  then have "stream_num d a \<in> set (dev_ida d)" using streams_wfD(4) [OF assms(1)] by simp
  with streams_wfD(3) [OF assms(1)] a(2) show ?thesis by (auto simp: stream_num_def)
qed

text \<open>C1: A message arrives intact. If \<open>odl_tb5_stream_send\<close> on one host returns success, whatever mode it chose and whatever
  completions interleaved, and the frames it put on the wire reach a peer on which the destination stream is open and idle, then the
  peer's \<open>odl_tb5_rx_callback\<close> runs leave exactly that message in the stream's queue, and \<open>odl_tb5_stream_recv\<close> returns its bytes and
  the number of the sending stream.\<close>

theorem message_end_to_end:
  assumes "tx_wf refs senders (\<lambda>_. 0) (\<lambda>_. 0) dA" "dev_msgs dA m = None" "m \<notin> senders" "dev_heap dA a = Some sA"
    and send: "stream_send envs last_done (Some m) a dst data dA = Some (TxReturned (Inr ()), dA')"
    and peer: "rx_ready refs' dB" "\<forall>n. rx_ok n" "kmalloc_sized kmalloc" "\<forall>n. kmalloc n \<noteq> None"
    and stream: "stream_pub dB dst = Some b" "dev_heap dB b = Some sB" "queue_abs sB = []" "0 < st_rx_queue_max sB"
    and buf: "length data \<le> buf_len"
  shows "\<exists>dB' sB' sB''. rx_arrive_all kmalloc rx_ok (drop (length (dev_wire dA)) (dev_wire dA')) dB = Some dB' \<and>
    dev_heap dB' b = Some sB' \<and> stream_recv False True buf_len sB' = (Returned (Inr (st_id sA, data)), sB'')"
proof -
  have st: "dev_state dA = READY \<and> sendable data"
  proof (rule ccontr)
    assume "\<not> ?thesis"
    with send stream_send_refused(1,2) [of dA, where envs = envs and last_done = last_done and alloc = "Some m" and a = a and
        dst = dst and data = data] show False by (cases "dev_state dA = READY") auto
  qed
  then have "sends_message refs senders m (msg_frames (st_id sA) dst data) dA (Some (TxReturned (Inr ()), dA'))"
    unfolding send [symmetric] by (intro stream_send_ok(1) [OF assms(1-4)]) simp_all
  then have wire: "drop (length (dev_wire dA)) (dev_wire dA') = msg_frames (st_id sA) dst data" by (auto simp: sends_message_def)
  have wf: "rx_dev_wf refs' dB" using peer(1) by (simp add: rx_ready_def)
  then have "dst \<noteq> 0" using stream_pub_nonzero [OF _ stream(1)] by (auto simp: rx_dev_wf_def)
  moreover have "rx_wf sB" using wf stream(2) by (auto simp: rx_dev_wf_def ran_def)
  then have "st_rx_queue_len sB < st_rx_queue_max sB" using stream(3,4) by (auto simp: rx_wf_def queue_abs_def)
  ultimately obtain dB' sB' where B: "rx_arrive_all kmalloc rx_ok (msg_frames (st_id sA) dst data) dB = Some dB'"
    "rx_ready refs' dB'" "dev_heap dB' b = Some sB'" "queue_abs sB' = [(st_id sA, data)]"
    using rx_message_delivered [OF peer(1), where rx_ok = rx_ok and kmalloc = kmalloc and dst = dst and data = data and src = "st_id sA" and a = b and s = sB]
      peer st stream by (auto simp: sendable_def)
  have "rx_wf sB'" using B(2,3) by (auto simp: rx_ready_def rx_dev_wf_def ran_def)
  then obtain s'' where "stream_recv False True buf_len sB' = (Returned (Inr (st_id sA, data)), s'')"
    using stream_recv_queue [OF _ B(4), of False True buf_len] buf by auto
  with B(1,3) show ?thesis unfolding wire by blast
qed

theorem message_end_to_end_witness:
  "\<exists>dA dB dB' s' s''. stream_send [sample_env] [] (Some 1) 7 21 [65, 66, 67] sample_sender = Some (TxReturned (Inr ()), dA) \<and>
     rx_arrive_all sample_kmalloc (\<lambda>_. True) (dev_wire dA) dB = Some dB' \<and> dev_heap dB' 7 = Some s' \<and>
     stream_recv False True 16 s' = (Returned (Inr (21, [65, 66, 67])), s'')"
proof -
  obtain dB where B: "rx_ready (\<lambda>_. 0) dB" "stream_pub dB 21 = Some 7" "dev_heap dB 7 = Some (new_stream 21 None)"
    by (rule sample_ready)
  note wf = tx_idle_wf [OF sample_sender_idle]
  have free: "dev_msgs sample_sender 1 = None" using sample_sender_heap(2) by simp
  obtain dA where A: "stream_send [sample_env] [] (Some 1) 7 21 [65, 66, 67] sample_sender = Some (TxReturned (Inr ()), dA)"
    using sample_send by blast
  from message_end_to_end [OF wf free _ sample_sender_heap(1) A B(1) _ sample_kmalloc_ok(1) _ B(2,3), of "\<lambda>_. True" 16] A show ?thesis
    using sample_sender_heap(6) sample_kmalloc_ok(2) by (auto simp: new_stream_def queue_abs_def)
qed

end
